(* ===== verification/Prelude.thy ===== *)
theory Prelude
  imports Main "HOL-Library.Word"
begin

text \<open>
  Shared vocabulary of the development: machine integers, the abstract view of the
  kernel's uthash tables, rights masks, and the interface of a handle registry (a table
  together with its monotone handle counter), which every subsystem of the kernel uses.
\<close>

unbundle bit_operations_syntax

named_theorems table_simps \<open>lookup laws of hash tables\<close>
named_theorems op_defs \<open>definitions of the modelled operations\<close>

type_synonym u8 = "8 word"
type_synonym u16 = "16 word"
type_synonym u32 = "32 word"
type_synonym u64 = "64 word"
type_synonym addr = nat

abbreviation UINT64_MAX :: u64 where "UINT64_MAX \<equiv> - 1"
abbreviation PAGE_SIZE :: u64 where "PAGE_SIZE \<equiv> 4096"

section \<open>Hash tables\<close>

text \<open>
  A uthash table is the list of its elements in insertion order, the order in which
  \<^verbatim>\<open>HASH_ITER\<close> visits them.  The macros find, append and unlink an element by key.
\<close>

type_synonym ('k, 'v) uthash = "('k \<times> 'v) list"

definition HASH_FIND :: "'k \<Rightarrow> ('k, 'v) uthash \<Rightarrow> 'v option" where
  "HASH_FIND k t = map_of t k"

definition HASH_ADD :: "'k \<Rightarrow> 'v \<Rightarrow> ('k, 'v) uthash \<Rightarrow> ('k, 'v) uthash" where
  "HASH_ADD k v t = t @ [(k, v)]"

definition HASH_DEL :: "'k \<Rightarrow> ('k, 'v) uthash \<Rightarrow> ('k, 'v) uthash" where
  "HASH_DEL k t = filter (\<lambda>e. fst e \<noteq> k) t"

definition HASH_UPD :: "'k \<Rightarrow> ('v \<Rightarrow> 'v) \<Rightarrow> ('k, 'v) uthash \<Rightarrow> ('k, 'v) uthash" where
  \<comment> \<open>writing through the pointer that a lookup returned\<close>
  "HASH_UPD k f t = map (\<lambda>e. if fst e = k then (fst e, f (snd e)) else e) t"

abbreviation keys :: "('k, 'v) uthash \<Rightarrow> 'k list" where
  "keys t \<equiv> map fst t"

lemma HASH_FIND_Nil [simp, table_simps]: "HASH_FIND k [] = None"
  by (simp add: HASH_FIND_def)

lemma HASH_FIND_None_iff: "HASH_FIND k t = None \<longleftrightarrow> k \<notin> set (keys t)"
  by (simp add: HASH_FIND_def map_of_eq_None_iff)

lemma HASH_FIND_Some_in: "HASH_FIND k t = Some v \<Longrightarrow> (k, v) \<in> set t"
  by (simp add: HASH_FIND_def map_of_SomeD)

lemma HASH_FIND_None_in: "HASH_FIND k t = None \<Longrightarrow> (k, v) \<notin> set t"
  by (force simp: HASH_FIND_None_iff)

lemma HASH_FIND_Some_key: "HASH_FIND k t = Some v \<Longrightarrow> k \<in> set (keys t)"
  by (force dest: HASH_FIND_Some_in)

lemma in_keys_FIND: "k \<in> set (keys t) \<Longrightarrow> \<exists>v. HASH_FIND k t = Some v"
  using HASH_FIND_None_iff [of k t] by (cases "HASH_FIND k t") auto

lemma HASH_FIND_iff_in:
  "distinct (keys t) \<Longrightarrow> HASH_FIND k t = Some v \<longleftrightarrow> (k, v) \<in> set t"
  by (simp add: HASH_FIND_def)

lemma HASH_FIND_ADD [table_simps]:
  "HASH_FIND k t = None \<Longrightarrow> HASH_FIND j (HASH_ADD k v t) = (if j = k then Some v else HASH_FIND j t)"
  by (induction t) (auto simp: HASH_FIND_def HASH_ADD_def split: if_splits)

lemma HASH_FIND_DEL [table_simps]:
  "HASH_FIND j (HASH_DEL k t) = (if j = k then None else HASH_FIND j t)"
  by (induction t) (auto simp: HASH_FIND_def HASH_DEL_def)

lemma HASH_FIND_UPD [table_simps]:
  "HASH_FIND j (HASH_UPD k f t) = (if j = k then map_option f (HASH_FIND k t) else HASH_FIND j t)"
  by (induction t) (auto simp: HASH_FIND_def HASH_UPD_def)

lemma keys_ADD [simp]: "keys (HASH_ADD k v t) = keys t @ [k]"
  by (simp add: HASH_ADD_def)

lemma keys_DEL [simp]: "keys (HASH_DEL k t) = filter (\<lambda>x. x \<noteq> k) (keys t)"
  by (induction t) (auto simp: HASH_DEL_def)

lemma keys_UPD [simp]: "keys (HASH_UPD k f t) = keys t"
  by (induction t) (auto simp: HASH_UPD_def)

lemma set_ADD [simp]: "set (HASH_ADD k v t) = insert (k, v) (set t)"
  by (auto simp: HASH_ADD_def)

lemma set_DEL [simp]: "set (HASH_DEL k t) = {e \<in> set t. fst e \<noteq> k}"
  by (auto simp: HASH_DEL_def)

lemma set_UPD: "set (HASH_UPD k f t) = (\<lambda>e. if fst e = k then (fst e, f (snd e)) else e) ` set t"
  by (simp add: HASH_UPD_def)

section \<open>Registries of handles\<close>

text \<open>
  Every subsystem hands out handles from a counter that only grows.  A registry is well
  formed when its keys are pairwise different and below the counter.
\<close>

definition reg_wf :: "(u64, 'v) uthash \<Rightarrow> u64 \<Rightarrow> bool" where
  "reg_wf t n \<longleftrightarrow> distinct (keys t) \<and> (\<forall>e \<in> set t. fst e < n)"

lemma reg_wf_Nil [simp]: "reg_wf [] n"
  by (simp add: reg_wf_def)

lemma less_succ_word: "n \<noteq> UINT64_MAX \<Longrightarrow> h < n + (1 :: u64) \<longleftrightarrow> h \<le> n"
  by (metis inc_less_eq_iff linorder_not_less)

lemma reg_wf_fresh: "reg_wf t n \<Longrightarrow> HASH_FIND n t = None"
  by (auto simp: reg_wf_def HASH_FIND_None_iff)

lemma reg_wf_ADD: "reg_wf t n \<Longrightarrow> n \<noteq> UINT64_MAX \<Longrightarrow> reg_wf (HASH_ADD n v t) (n + 1)"
  by (auto simp: reg_wf_def less_succ_word intro: order.strict_implies_order)

lemma reg_wf_DEL: "reg_wf t n \<Longrightarrow> reg_wf (HASH_DEL h t) n"
  by (auto simp: reg_wf_def)

lemma reg_wf_UPD: "reg_wf t n \<Longrightarrow> reg_wf (HASH_UPD h f t) n"
  by (auto simp: reg_wf_def set_UPD)

lemma reg_wf_distinct: "reg_wf t n \<Longrightarrow> distinct (keys t)"
  by (simp add: reg_wf_def)

lemma reg_wf_below: "reg_wf t n \<Longrightarrow> HASH_FIND h t = Some v \<Longrightarrow> h < n"
  by (force simp: reg_wf_def dest: HASH_FIND_Some_in)

lemma reg_wf_skip: "reg_wf t n \<Longrightarrow> n \<noteq> UINT64_MAX \<Longrightarrow> reg_wf t (n + 1)"
  by (auto simp: reg_wf_def less_succ_word intro: order.strict_implies_order)

text \<open>
  The contract every subsystem relies on: insertion publishes a value under the counter
  and advances it, deletion forgets one key and never moves the counter back.
\<close>

locale handle_registry =
  fixes tbl :: "'s \<Rightarrow> (u64, 'v) uthash"
    and nxt :: "'s \<Rightarrow> u64"
    and ins :: "'v \<Rightarrow> 's \<Rightarrow> 's"
    and del :: "u64 \<Rightarrow> 's \<Rightarrow> 's"
  assumes tbl_ins: "tbl (ins v s) = HASH_ADD (nxt s) v (tbl s)"
    and nxt_ins: "nxt (ins v s) = nxt s + 1"
    and tbl_del: "tbl (del h s) = HASH_DEL h (tbl s)"
    and nxt_del: "nxt (del h s) = nxt s"
begin

lemma wf_ins:
  "reg_wf (tbl s) (nxt s) \<Longrightarrow> nxt s \<noteq> UINT64_MAX \<Longrightarrow> reg_wf (tbl (ins v s)) (nxt (ins v s))"
  by (simp add: tbl_ins nxt_ins reg_wf_ADD)

lemma wf_del: "reg_wf (tbl s) (nxt s) \<Longrightarrow> reg_wf (tbl (del h s)) (nxt (del h s))"
  by (simp add: tbl_del nxt_del reg_wf_DEL)

lemma find_ins:
  "reg_wf (tbl s) (nxt s) \<Longrightarrow>
   HASH_FIND h (tbl (ins v s)) = (if h = nxt s then Some v else HASH_FIND h (tbl s))"
  by (simp add: tbl_ins HASH_FIND_ADD reg_wf_fresh)

lemma find_del: "HASH_FIND h (tbl (del k s)) = (if h = k then None else HASH_FIND h (tbl s))"
  by (simp add: tbl_del HASH_FIND_DEL)

lemma stale_ins:
  assumes "reg_wf (tbl s) (nxt s)" "nxt s \<noteq> UINT64_MAX" "h < nxt s" "HASH_FIND h (tbl s) = None"
  shows "h < nxt (ins v s)" "HASH_FIND h (tbl (ins v s)) = None"
  using assms by (auto simp: nxt_ins find_ins less_succ_word)

lemma stale_del:
  assumes "h < nxt s" "HASH_FIND h (tbl s) = None"
  shows "h < nxt (del k s)" "HASH_FIND h (tbl (del k s)) = None"
  using assms by (auto simp: nxt_del find_del)

end

section \<open>Unsigned arithmetic\<close>

lemma unat_UINT64_MAX: "unat UINT64_MAX = 18446744073709551615"
  by (simp add: unsigned_minus_1_eq_mask mask_eq_exp_minus_1)

lemma unat_bound: "unat (w :: u64) < 18446744073709551616"
  using unsigned_less [of w] by simp

text \<open>The test by which the kernel detects that a range wraps around.\<close>

lemma range_wraps_iff: "UINT64_MAX - base < len \<longleftrightarrow> 2 ^ 64 \<le> unat base + unat len"
  for base len :: u64
proof -
  have "base \<le> UINT64_MAX" by simp
  then have "unat (UINT64_MAX - base) = 18446744073709551615 - unat base"
    using unat_sub [of base UINT64_MAX] by (simp only: unat_UINT64_MAX)
  with unat_bound [of base] show ?thesis unfolding word_less_nat_alt by auto
qed

lemma unat_add_no_wrap: "unat a + unat b < 2 ^ 64 \<Longrightarrow> unat (a + b) = unat a + unat b" for a b :: u64
  using unat_add_lem [of a b] by simp

lemma succ_gt: "n \<noteq> UINT64_MAX \<Longrightarrow> n < n + (1 :: u64)"
  using less_succ_word [of n n] by simp

text \<open>Rounding with a mask, as the kernel aligns addresses and sizes.\<close>

lemma and_not_page_mask: "w AND NOT (PAGE_SIZE - 1) = w - w mod PAGE_SIZE"
proof -
  have m: "PAGE_SIZE - 1 = mask 12" by (simp add: mask_eq_exp_minus_1)
  have "w AND NOT (mask 12) = push_bit 12 (drop_bit 12 w)" by (rule bit_word_eqI) (auto simp: bit_simps)
  moreover have "push_bit 12 (drop_bit 12 w) + take_bit 12 w = w" by (rule bits_ident)
  moreover have "take_bit 12 w = w mod PAGE_SIZE" by (simp add: take_bit_eq_mod)
  ultimately show ?thesis unfolding m by (metis add_diff_cancel_right')
qed

lemma unat_page_floor: "unat (w AND NOT (PAGE_SIZE - 1)) = unat w - unat w mod 4096"
proof -
  have "w mod PAGE_SIZE \<le> w" unfolding word_le_nat_alt unat_mod by (rule mod_less_eq_dividend)
  then show ?thesis unfolding and_not_page_mask by (simp add: unat_sub unat_mod)
qed

definition page_ceil :: "nat \<Rightarrow> nat" where
  "page_ceil n = 4096 * ((n + 4095) div 4096)"

lemma page_ceil_bounds: "page_ceil n mod 4096 = 0" "n \<le> page_ceil n" "page_ceil n < n + 4096" "0 < n \<Longrightarrow> 0 < page_ceil n"
proof -
  have "(n + 4095) mod 4096 < 4096" "4096 * ((n + 4095) div 4096) + (n + 4095) mod 4096 = n + 4095" by simp_all
  then show "n \<le> page_ceil n" "page_ceil n < n + 4096" "0 < n \<Longrightarrow> 0 < page_ceil n" unfolding page_ceil_def by linarith+
  show "page_ceil n mod 4096 = 0" by (simp add: page_ceil_def)
qed

lemma unat_page_ceil:
  assumes "unat sz + 4095 < 2 ^ 64"
  shows "unat ((sz + (PAGE_SIZE - 1)) AND NOT (PAGE_SIZE - 1)) = page_ceil (unat sz)"
proof -
  have m: "unat (PAGE_SIZE - 1) = 4095" by simp
  have "unat (sz + (PAGE_SIZE - 1)) = unat sz + 4095"
    using unat_add_no_wrap [of sz "PAGE_SIZE - 1"] assms unfolding m by blast
  then have "unat ((sz + (PAGE_SIZE - 1)) AND NOT (PAGE_SIZE - 1)) = unat sz + 4095 - (unat sz + 4095) mod 4096"
    unfolding unat_page_floor by (simp only:)
  then show ?thesis by (simp only: page_ceil_def minus_mod_eq_mult_div)
qed

lemma page_ceil_wraps:
  assumes "2 ^ 64 \<le> unat sz + 4095"
  shows "(sz + (PAGE_SIZE - 1)) AND NOT (PAGE_SIZE - 1) = 0"
proof -
  have m: "unat (PAGE_SIZE - 1) = 4095" by simp
  have "unat (sz + (PAGE_SIZE - 1)) = unat sz + 4095 - 2 ^ 64"
    using unat_word_ariths(1) [of sz "PAGE_SIZE - 1"] assms unat_bound [of sz] unfolding m by (simp add: mod_if)
  then have "unat (sz + (PAGE_SIZE - 1)) < 4096" using unat_bound [of sz] by simp
  then have "unat ((sz + (PAGE_SIZE - 1)) AND NOT (PAGE_SIZE - 1)) = 0" unfolding unat_page_floor by (simp only: mod_less)
  then show ?thesis by (simp only: unat_eq_zero)
qed

section \<open>Rights masks\<close>

abbreviation subrights :: "u64 \<Rightarrow> u64 \<Rightarrow> bool" where
  "subrights r s \<equiv> r AND s = r"

lemma subrights_bit: "subrights r s \<longleftrightarrow> (\<forall>n. bit r n \<longrightarrow> bit s n)"
proof
  assume "subrights r s"
  then show "\<forall>n. bit r n \<longrightarrow> bit s n" by (metis bit_and_iff)
next
  assume "\<forall>n. bit r n \<longrightarrow> bit s n"
  then show "subrights r s" by (auto simp: bit_eq_iff bit_simps)
qed

lemma subrights_trans: "subrights a b \<Longrightarrow> subrights b c \<Longrightarrow> subrights a c"
  by (simp add: subrights_bit)

lemma no_extra_rights: "r AND NOT s = 0 \<longleftrightarrow> subrights r s" for r s :: u64
  by (auto simp: bit_eq_iff bit_simps dest: bit_imp_le_length)

lemma subrights_0 [simp]: "subrights 0 s"
  by simp

lemma subrights_OR: "subrights (a OR b) s \<longleftrightarrow> subrights a s \<and> subrights b s"
  by (auto simp: subrights_bit bit_simps)

end
