(* ===== verification/Kcaps.thy ===== *)
theory Kcaps
  imports Prelude
begin

text \<open>
  The capability subsystem (src/kernel/subsystems/kcaps.c, include/sharkix/caps.inc):
  the global table of capabilities, their names, and the capability sets of address
  spaces.  Each operation is one state transformer.  Its C status (0 or -1) is an
  \<^typ>\<open>int\<close>; an operation that stores a result through an out pointer returns an
  \<^typ>\<open>'a option\<close>, with \<open>None\<close> for -1.  The out pointers themselves are never
  null here.  A \<open>bool\<close> argument \<open>mok\<close> says whether the operation's call of
  kmalloc succeeds.
\<close>

section \<open>Types and rights\<close>

datatype cap_type_t =
    CAP_TYPE_IPC | CAP_TYPE_PMEM | CAP_TYPE_VMO | CAP_TYPE_PORTIO | CAP_TYPE_IRQ
  | CAP_TYPE_NOTIFY | CAP_TYPE_AS | CAP_TYPE_THREAD
  | CAP_TYPE_FACTORY_VMO | CAP_TYPE_FACTORY_AS | CAP_TYPE_FACTORY_THREAD | CAP_TYPE_FACTORY_PMEM
  | CAP_TYPE_UNDEFINED u32 \<comment> \<open>a value of the C enum type outside its enumerators\<close>

abbreviation right_bit :: "nat \<Rightarrow> u64" where
  "right_bit n \<equiv> push_bit n 1"

definition CAP_RIGHT_TRANSFER :: u64 where "CAP_RIGHT_TRANSFER = right_bit 0"
definition CAP_RIGHT_FORWARD :: u64 where "CAP_RIGHT_FORWARD = right_bit 1"
definition CAP_RIGHT_DERIVE :: u64 where "CAP_RIGHT_DERIVE = right_bit 2"
definition CAP_RIGHT_DESTROY :: u64 where "CAP_RIGHT_DESTROY = right_bit 3"
definition CAP_RIGHT_REMOVE :: u64 where "CAP_RIGHT_REMOVE = right_bit 4"
definition CAP_RIGHT_GETNAME :: u64 where "CAP_RIGHT_GETNAME = right_bit 5"
definition CAP_RIGHT_SETNAME :: u64 where "CAP_RIGHT_SETNAME = right_bit 6"

definition CAP_GENERIC_VALID_RIGHTS :: u64 where
  "CAP_GENERIC_VALID_RIGHTS =
     CAP_RIGHT_TRANSFER OR CAP_RIGHT_FORWARD OR CAP_RIGHT_DERIVE OR CAP_RIGHT_DESTROY OR
     CAP_RIGHT_REMOVE OR CAP_RIGHT_GETNAME OR CAP_RIGHT_SETNAME"

text \<open>The type-specific right bits of caps.inc, in the order of their declaration.\<close>

fun type_right_bits :: "cap_type_t \<Rightarrow> nat list" where
  "type_right_bits CAP_TYPE_IPC = [10, 11, 12, 13]"
| "type_right_bits CAP_TYPE_PMEM = [10, 11, 12, 13, 14, 15]"
| "type_right_bits CAP_TYPE_VMO = [10, 11, 12, 13, 14]"
| "type_right_bits CAP_TYPE_PORTIO = [10, 11]"
| "type_right_bits CAP_TYPE_IRQ = [10, 11]"
| "type_right_bits CAP_TYPE_NOTIFY = [10, 11, 12]"
| "type_right_bits CAP_TYPE_AS = [10, 11, 12]"
| "type_right_bits CAP_TYPE_THREAD = [10]"
| "type_right_bits CAP_TYPE_FACTORY_VMO = []"
| "type_right_bits CAP_TYPE_FACTORY_AS = []"
| "type_right_bits CAP_TYPE_FACTORY_THREAD = []"
| "type_right_bits CAP_TYPE_FACTORY_PMEM = [10, 11]"
| "type_right_bits (CAP_TYPE_UNDEFINED _) = []"

definition CAP_VALID_RIGHTS :: "cap_type_t \<Rightarrow> u64" where
  "CAP_VALID_RIGHTS ty = foldr (\<lambda>n m. right_bit n OR m) (type_right_bits ty) CAP_GENERIC_VALID_RIGHTS"

fun kcap_validate_rights :: "cap_type_t \<Rightarrow> u64 \<Rightarrow> int" where
  "kcap_validate_rights (CAP_TYPE_UNDEFINED _) r = -1"
| "kcap_validate_rights ty r = (if r AND NOT (CAP_VALID_RIGHTS ty) \<noteq> 0 then -1 else 0)"

section \<open>State\<close>

record cap_t =
  cap_handle :: u64
  ctype :: cap_type_t
  obj_handle :: u64
  rights :: u64

record caps_state =
  global_caps_table :: "(u64, cap_t) uthash"
  global_cap_names_table :: "(u64, u8 list) uthash"
  global_capsets_table :: "(u64, u64 list) uthash" \<comment> \<open>members in insertion order\<close>
  next_cap_handle :: u64
  next_capset_handle :: u64

definition KCAP_NAME_MAX :: nat where "KCAP_NAME_MAX = 32"

definition CAP_HAS :: "cap_t \<Rightarrow> u64 \<Rightarrow> bool" where
  "CAP_HAS c r \<longleftrightarrow> rights c AND r \<noteq> 0"

definition CAP_HAS_ALL :: "cap_t \<Rightarrow> u64 \<Rightarrow> bool" where
  "CAP_HAS_ALL c r \<longleftrightarrow> rights c AND r = r"

definition CAP_IS_TYPE :: "cap_t \<Rightarrow> cap_type_t \<Rightarrow> bool" where
  "CAP_IS_TYPE c ty \<longleftrightarrow> ctype c = ty"

definition CAPS_SAME_OBJECT :: "cap_t \<Rightarrow> cap_t \<Rightarrow> bool" where
  "CAPS_SAME_OBJECT a b \<longleftrightarrow> obj_handle a = obj_handle b"

definition kcap_find_locked :: "u64 \<Rightarrow> caps_state \<Rightarrow> cap_t option" where
  "kcap_find_locked h s = HASH_FIND h (global_caps_table s)"

definition kcapset_find_locked :: "u64 \<Rightarrow> caps_state \<Rightarrow> u64 list option" where
  "kcapset_find_locked h s = HASH_FIND h (global_capsets_table s)"

text \<open>Publishing a record under the next handle, and unlinking one.\<close>

definition caps_insert :: "cap_t \<Rightarrow> caps_state \<Rightarrow> caps_state" where
  "caps_insert c s = s\<lparr>global_caps_table := HASH_ADD (next_cap_handle s) c (global_caps_table s),
                       next_cap_handle := next_cap_handle s + 1\<rparr>"

definition caps_delete :: "u64 \<Rightarrow> caps_state \<Rightarrow> caps_state" where
  "caps_delete h s = s\<lparr>global_caps_table := HASH_DEL h (global_caps_table s)\<rparr>"

definition capset_insert :: "u64 list \<Rightarrow> caps_state \<Rightarrow> caps_state" where
  "capset_insert m s = s\<lparr>global_capsets_table := HASH_ADD (next_capset_handle s) m (global_capsets_table s),
                         next_capset_handle := next_capset_handle s + 1\<rparr>"

definition capset_delete :: "u64 \<Rightarrow> caps_state \<Rightarrow> caps_state" where
  "capset_delete h s = s\<lparr>global_capsets_table := HASH_DEL h (global_capsets_table s)\<rparr>"

definition capset_update :: "u64 \<Rightarrow> (u64 list \<Rightarrow> u64 list) \<Rightarrow> caps_state \<Rightarrow> caps_state" where
  "capset_update h f s = s\<lparr>global_capsets_table := HASH_UPD h f (global_capsets_table s)\<rparr>"

section \<open>Capabilities\<close>

definition kcap_create :: "u64 \<Rightarrow> cap_type_t \<Rightarrow> u64 \<Rightarrow> bool \<Rightarrow> caps_state \<Rightarrow> u64 option \<times> caps_state" where
  "kcap_create obj ty r mok s =
     (if kcap_validate_rights ty r < 0 then (None, s)
      else if \<not> mok then (None, s)
      else (Some (next_cap_handle s),
            caps_insert \<lparr>cap_handle = next_cap_handle s, ctype = ty, obj_handle = obj, rights = r\<rparr> s))"

definition kcap_cap_exists :: "u64 \<Rightarrow> caps_state \<Rightarrow> bool" where
  "kcap_cap_exists h s \<longleftrightarrow> HASH_FIND h (global_caps_table s) \<noteq> None"

definition kcap_destroy :: "u64 \<Rightarrow> caps_state \<Rightarrow> int \<times> caps_state" where
  "kcap_destroy h s =
     (case HASH_FIND h (global_caps_table s) of
        None \<Rightarrow> (-1, s)
      | Some found \<Rightarrow>
          let s = caps_delete h s in
          (0, case HASH_FIND h (global_cap_names_table s) of
                None \<Rightarrow> s
              | Some _ \<Rightarrow> s\<lparr>global_cap_names_table := HASH_DEL h (global_cap_names_table s)\<rparr>))"

definition kcap_set_name :: "u64 \<Rightarrow> u8 list option \<Rightarrow> nat \<Rightarrow> bool \<Rightarrow> caps_state \<Rightarrow> int \<times> caps_state" where
  \<comment> \<open>the name buffer, None for a null pointer, holds at least \<open>len\<close> bytes\<close>
  "kcap_set_name h new_name len mok s =
     (if len > KCAP_NAME_MAX \<or> (len \<noteq> 0 \<and> new_name = None) then (-1, s)
      else if len \<noteq> 0 \<and> \<not> mok then (-1, s)
      else if kcap_find_locked h s = None then (-1, s)
      else
        let t = (case HASH_FIND h (global_cap_names_table s) of
                   None \<Rightarrow> global_cap_names_table s
                 | Some _ \<Rightarrow> HASH_DEL h (global_cap_names_table s));
            t = (if len \<noteq> 0 then HASH_ADD h (take len (the new_name)) t else t)
        in (0, s\<lparr>global_cap_names_table := t\<rparr>))"

definition kcap_get_name :: "u64 \<Rightarrow> nat \<Rightarrow> caps_state \<Rightarrow> int \<times> nat option \<times> u8 list option" where
  \<comment> \<open>status, what is stored through out_len, what is copied to name_out\<close>
  "kcap_get_name h out_size s =
     (if kcap_find_locked h s = None then (-1, None, None)
      else case HASH_FIND h (global_cap_names_table s) of
        None \<Rightarrow> (-1, None, None)
      | Some name \<Rightarrow>
          if out_size < length name then (-1, Some (length name), None)
          else (0, Some (length name), Some name))"

definition kcap_derive :: "u64 \<Rightarrow> u64 \<Rightarrow> bool \<Rightarrow> caps_state \<Rightarrow> u64 option \<times> caps_state" where
  "kcap_derive source new_rights mok s =
     (if \<not> mok then (None, s)
      else case HASH_FIND source (global_caps_table s) of
        None \<Rightarrow> (None, s)
      | Some src \<Rightarrow>
          if new_rights AND rights src \<noteq> new_rights then (None, s)
          else (Some (next_cap_handle s),
                caps_insert \<lparr>cap_handle = next_cap_handle s, ctype = ctype src,
                             obj_handle = obj_handle src, rights = new_rights\<rparr> s))"

definition kcap_clone :: "u64 \<Rightarrow> bool \<Rightarrow> caps_state \<Rightarrow> u64 option \<times> caps_state" where
  "kcap_clone source mok s =
     (if \<not> mok then (None, s)
      else case HASH_FIND source (global_caps_table s) of
        None \<Rightarrow> (None, s)
      | Some src \<Rightarrow>
          (Some (next_cap_handle s),
           caps_insert \<lparr>cap_handle = next_cap_handle s, ctype = ctype src,
                        obj_handle = obj_handle src, rights = rights src\<rparr> s))"

definition kcap_merge :: "u64 \<Rightarrow> u64 \<Rightarrow> bool \<Rightarrow> caps_state \<Rightarrow> u64 option \<times> caps_state" where
  "kcap_merge a b mok s =
     (if \<not> mok then (None, s)
      else case (HASH_FIND a (global_caps_table s), HASH_FIND b (global_caps_table s)) of
        (Some cap_a, Some cap_b) \<Rightarrow>
          if \<not> CAPS_SAME_OBJECT cap_a cap_b \<or> \<not> CAP_IS_TYPE cap_a (ctype cap_b) then (None, s)
          else
            let merged = \<lparr>cap_handle = next_cap_handle s, ctype = ctype cap_a,
                          obj_handle = obj_handle cap_a, rights = rights cap_a OR rights cap_b\<rparr>
            in if kcap_validate_rights (ctype merged) (rights merged) < 0
               then (None, s\<lparr>next_cap_handle := next_cap_handle s + 1\<rparr>)
               else (Some (cap_handle merged), caps_insert merged s)
      | _ \<Rightarrow> (None, s))"

definition kcap_getcap :: "u64 \<Rightarrow> caps_state \<Rightarrow> cap_t option" where
  "kcap_getcap h s = HASH_FIND h (global_caps_table s)"

section \<open>Capability sets\<close>

definition kcapset_new :: "bool \<Rightarrow> caps_state \<Rightarrow> u64 option \<times> caps_state" where
  "kcapset_new mok s =
     (if \<not> mok then (None, s) else (Some (next_capset_handle s), capset_insert [] s))"

definition kinit_caps :: "bool \<Rightarrow> u64 option \<times> caps_state" where
  \<comment> \<open>the returned handle is stored as the kernel address space's capset\<close>
  "kinit_caps mok =
     kcapset_new mok \<lparr>global_caps_table = [], global_cap_names_table = [], global_capsets_table = [],
                      next_cap_handle = 1, next_capset_handle = 1\<rparr>"

definition kcapset_destroy :: "u64 \<Rightarrow> caps_state \<Rightarrow> int \<times> caps_state" where
  "kcapset_destroy set_h s =
     (case kcapset_find_locked set_h s of
        None \<Rightarrow> (-1, s)
      | Some members \<Rightarrow> (0, fold (\<lambda>c s. snd (kcap_destroy c s)) members (capset_delete set_h s)))"

definition kcapset_addcap :: "u64 \<Rightarrow> u64 \<Rightarrow> bool \<Rightarrow> caps_state \<Rightarrow> int \<times> caps_state" where
  "kcapset_addcap set_h cap mok s =
     (if \<not> mok then (-1, s)
      else if kcap_find_locked cap s = None then (-1, s)
      else case kcapset_find_locked set_h s of
        None \<Rightarrow> (-1, s)
      | Some members \<Rightarrow>
          if cap \<in> set members then (-1, s)
          else (0, capset_update set_h (\<lambda>m. m @ [cap]) s))"

definition kcapset_delcap :: "u64 \<Rightarrow> u64 \<Rightarrow> caps_state \<Rightarrow> int \<times> caps_state" where
  "kcapset_delcap set_h cap s =
     (case kcapset_find_locked set_h s of
        None \<Rightarrow> (-1, s)
      | Some members \<Rightarrow>
          if cap \<notin> set members then (-1, s)
          else (0, snd (kcap_destroy cap (capset_update set_h (filter (\<lambda>c. c \<noteq> cap)) s))))"

definition kcapset_hascap :: "u64 \<Rightarrow> u64 \<Rightarrow> caps_state \<Rightarrow> bool" where
  "kcapset_hascap set_h cap s =
     (case kcapset_find_locked set_h s of None \<Rightarrow> False | Some members \<Rightarrow> cap \<in> set members)"

definition kcapset_move_cap :: "u64 \<Rightarrow> u64 \<Rightarrow> u64 \<Rightarrow> caps_state \<Rightarrow> int \<times> caps_state" where
  "kcapset_move_cap src dst cap s =
     (case (kcapset_find_locked src s, kcapset_find_locked dst s) of
        (Some src_set, Some dst_set) \<Rightarrow>
          if src = dst then (if cap \<in> set src_set then 0 else -1, s)
          else if cap \<notin> set src_set then (-1, s)
          else
            let s = capset_update src (filter (\<lambda>c. c \<noteq> cap)) s in
            (0, if cap \<in> set dst_set then s else capset_update dst (\<lambda>m. m @ [cap]) s)
      | _ \<Rightarrow> (-1, s))"

fun resolve_iter :: "caps_state \<Rightarrow> cap_type_t \<Rightarrow> u64 \<Rightarrow> u64 list \<Rightarrow> cap_t option" where
  "resolve_iter s req_type req_rights [] = None"
| "resolve_iter s req_type req_rights (entry # rest) =
     (case kcap_find_locked entry s of
        None \<Rightarrow> resolve_iter s req_type req_rights rest
      | Some found \<Rightarrow>
          if \<not> CAP_IS_TYPE found req_type then resolve_iter s req_type req_rights rest
          else if \<not> CAP_HAS_ALL found req_rights then resolve_iter s req_type req_rights rest
          else Some found)"

definition kcapset_resolve_cap :: "u64 \<Rightarrow> cap_type_t \<Rightarrow> u64 \<Rightarrow> caps_state \<Rightarrow> cap_t option" where
  "kcapset_resolve_cap set_h req_type req_rights s =
     (case kcapset_find_locked set_h s of
        None \<Rightarrow> None
      | Some members \<Rightarrow> resolve_iter s req_type req_rights members)"

definition kcapset_resolve_handle ::
  "u64 \<Rightarrow> u64 \<Rightarrow> cap_type_t \<Rightarrow> u64 \<Rightarrow> caps_state \<Rightarrow> u64 option" where
  "kcapset_resolve_handle set_h cap required_type required_rights s =
     (case kcapset_find_locked set_h s of
        None \<Rightarrow> None
      | Some members \<Rightarrow>
          (case (if cap \<in> set members then kcap_find_locked cap s else None) of
             None \<Rightarrow> None
           | Some found \<Rightarrow>
               if \<not> CAP_IS_TYPE found required_type \<or> \<not> CAP_HAS_ALL found required_rights
               then None else Some (obj_handle found)))"

definition kcapset_resolve_record :: "u64 \<Rightarrow> u64 \<Rightarrow> u64 \<Rightarrow> caps_state \<Rightarrow> cap_t option" where
  "kcapset_resolve_record set_h cap required_rights s =
     (case kcapset_find_locked set_h s of
        None \<Rightarrow> None
      | Some members \<Rightarrow>
          (case (if cap \<in> set members then kcap_find_locked cap s else None) of
             None \<Rightarrow> None
           | Some found \<Rightarrow> if \<not> CAP_HAS_ALL found required_rights then None else Some found))"

definition kcapset_check_perms :: "u64 \<Rightarrow> cap_type_t \<Rightarrow> u64 \<Rightarrow> caps_state \<Rightarrow> int" where
  "kcapset_check_perms set_h req_type req_rights s =
     (case kcapset_resolve_cap set_h req_type req_rights s of None \<Rightarrow> -1 | Some _ \<Rightarrow> 0)"

lemmas find_defs = kcap_find_locked_def kcapset_find_locked_def
lemmas caps_mut_defs = caps_insert_def caps_delete_def capset_insert_def capset_delete_def capset_update_def

section \<open>Well-formedness and traces\<close>

definition cap_ok :: "u64 \<times> cap_t \<Rightarrow> bool" where
  "cap_ok e \<longleftrightarrow> cap_handle (snd e) = fst e \<and> kcap_validate_rights (ctype (snd e)) (rights (snd e)) = 0"

definition members_ok :: "u64 \<Rightarrow> u64 list \<Rightarrow> bool" where
  "members_ok n m \<longleftrightarrow> distinct m \<and> (\<forall>c \<in> set m. c < n)"

definition names_ok :: "caps_state \<Rightarrow> bool" where
  "names_ok s \<longleftrightarrow> distinct (keys (global_cap_names_table s)) \<and>
     (\<forall>e \<in> set (global_cap_names_table s).
        HASH_FIND (fst e) (global_caps_table s) \<noteq> None \<and> length (snd e) \<le> KCAP_NAME_MAX)"

definition caps_wf :: "caps_state \<Rightarrow> bool" where
  "caps_wf s \<longleftrightarrow>
     reg_wf (global_caps_table s) (next_cap_handle s) \<and>
     reg_wf (global_capsets_table s) (next_capset_handle s) \<and>
     (\<forall>e \<in> set (global_caps_table s). cap_ok e) \<and>
     names_ok s \<and>
     (\<forall>e \<in> set (global_capsets_table s). members_ok (next_cap_handle s) (snd e))"

text \<open>The operations that change the state, and runs of them.\<close>

datatype caps_op =
    Create u64 cap_type_t u64 bool | Destroy u64 | SetName u64 "u8 list option" nat bool
  | Derive u64 u64 bool | Clone u64 bool | Merge u64 u64 bool
  | SetNew bool | SetDestroy u64 | AddCap u64 u64 bool | DelCap u64 u64 | MoveCap u64 u64 u64

fun caps_exec :: "caps_op \<Rightarrow> caps_state \<Rightarrow> caps_state" where
  "caps_exec (Create obj ty r mok) s = snd (kcap_create obj ty r mok s)"
| "caps_exec (Destroy h) s = snd (kcap_destroy h s)"
| "caps_exec (SetName h name len mok) s = snd (kcap_set_name h name len mok s)"
| "caps_exec (Derive h r mok) s = snd (kcap_derive h r mok s)"
| "caps_exec (Clone h mok) s = snd (kcap_clone h mok s)"
| "caps_exec (Merge a b mok) s = snd (kcap_merge a b mok s)"
| "caps_exec (SetNew mok) s = snd (kcapset_new mok s)"
| "caps_exec (SetDestroy h) s = snd (kcapset_destroy h s)"
| "caps_exec (AddCap h c mok) s = snd (kcapset_addcap h c mok s)"
| "caps_exec (DelCap h c) s = snd (kcapset_delcap h c s)"
| "caps_exec (MoveCap a b c) s = snd (kcapset_move_cap a b c s)"

definition caps_run :: "caps_op list \<Rightarrow> caps_state \<Rightarrow> caps_state" where
  "caps_run ops s = fold caps_exec ops s"

text \<open>At least \<open>n\<close> handles of each kind are left before the counters would wrap.\<close>

definition caps_room :: "nat \<Rightarrow> caps_state \<Rightarrow> bool" where
  "caps_room n s \<longleftrightarrow> unat (next_cap_handle s) + n < 2 ^ 64 \<and> unat (next_capset_handle s) + n < 2 ^ 64"

text \<open>The authority present in the system: which right bit on which object some live cap grants.\<close>

definition authority :: "caps_state \<Rightarrow> (cap_type_t \<times> u64 \<times> nat) set" where
  "authority s = {(ctype c, obj_handle c, n) |h c n. (h, c) \<in> set (global_caps_table s) \<and> bit (rights c) n}"

section \<open>Laws\<close>

interpretation cap_reg: handle_registry global_caps_table next_cap_handle caps_insert caps_delete
  by unfold_locales (simp_all add: caps_mut_defs)

interpretation capset_reg: handle_registry global_capsets_table next_capset_handle capset_insert capset_delete
  by unfold_locales (simp_all add: caps_mut_defs)

lemma validate_iff:
  "kcap_validate_rights ty r = 0 \<longleftrightarrow> (\<forall>x. ty \<noteq> CAP_TYPE_UNDEFINED x) \<and> subrights r (CAP_VALID_RIGHTS ty)"
  by (cases ty) (auto simp: no_extra_rights)

lemma validate_nonneg: "\<not> kcap_validate_rights ty r < 0 \<longleftrightarrow> kcap_validate_rights ty r = 0"
  by (cases ty) auto

lemma validate_sub: "kcap_validate_rights ty r = 0 \<Longrightarrow> subrights q r \<Longrightarrow> kcap_validate_rights ty q = 0"
  unfolding validate_iff by (blast intro: subrights_trans)

lemma validate_OR:
  "kcap_validate_rights ty r = 0 \<Longrightarrow> kcap_validate_rights ty q = 0 \<Longrightarrow> kcap_validate_rights ty (r OR q) = 0"
  unfolding validate_iff subrights_OR by blast

lemma caps_wf_regs:
  assumes "caps_wf s"
  shows "reg_wf (global_caps_table s) (next_cap_handle s)"
    and "reg_wf (global_capsets_table s) (next_capset_handle s)"
    and "names_ok s"
  using assms by (simp_all add: caps_wf_def)

lemma caps_wf_find:
  assumes "caps_wf s" "HASH_FIND h (global_caps_table s) = Some c"
  shows "cap_handle c = h" "kcap_validate_rights (ctype c) (rights c) = 0" "h < next_cap_handle s"
proof -
  have "(h, c) \<in> set (global_caps_table s)" using assms(2) by (rule HASH_FIND_Some_in)
  with assms(1) have "cap_ok (h, c)" by (auto simp: caps_wf_def)
  then show "cap_handle c = h" "kcap_validate_rights (ctype c) (rights c) = 0"
    by (simp_all add: cap_ok_def)
  show "h < next_cap_handle s"
    using caps_wf_regs(1) [OF assms(1)] assms(2) by (rule reg_wf_below)
qed

lemma caps_wf_members:
  "caps_wf s \<Longrightarrow> kcapset_find_locked h s = Some m \<Longrightarrow> members_ok (next_cap_handle s) m"
  by (force simp: caps_wf_def find_defs dest: HASH_FIND_Some_in)

lemma members_ok_mono: "members_ok n m \<Longrightarrow> n \<le> k \<Longrightarrow> members_ok k m"
  by (auto simp: members_ok_def)

lemma members_ok_Nil [simp]: "members_ok n []"
  by (simp add: members_ok_def)

lemma members_ok_filter: "members_ok n m \<Longrightarrow> members_ok n (filter P m)"
  by (auto simp: members_ok_def)

lemma members_ok_snoc: "members_ok n m \<Longrightarrow> c \<notin> set m \<Longrightarrow> c < n \<Longrightarrow> members_ok n (m @ [c])"
  by (auto simp: members_ok_def)

text \<open>Preservation by the elementary updates.\<close>

lemma next_le_succ: "n \<noteq> UINT64_MAX \<Longrightarrow> n \<le> n + (1 :: u64)"
  using less_succ_word [of n n] by simp

lemma caps_wf_insert:
  assumes wf: "caps_wf s" and room: "next_cap_handle s \<noteq> UINT64_MAX" and ok: "cap_ok (next_cap_handle s, c)"
  shows "caps_wf (caps_insert c s)"
proof -
  have "reg_wf (global_caps_table (caps_insert c s)) (next_cap_handle (caps_insert c s))"
    by (rule cap_reg.wf_ins [OF caps_wf_regs(1) [OF wf] room])
  moreover have "names_ok (caps_insert c s)"
    using caps_wf_regs(3) [OF wf] cap_reg.find_ins [OF caps_wf_regs(1) [OF wf]]
    by (auto simp: names_ok_def caps_mut_defs)
  ultimately show ?thesis
    using wf ok members_ok_mono [OF _ next_le_succ [OF room]]
    by (auto simp: caps_wf_def caps_mut_defs)
qed

lemma caps_wf_skip:
  "caps_wf s \<Longrightarrow> next_cap_handle s \<noteq> UINT64_MAX \<Longrightarrow>
   caps_wf (s\<lparr>next_cap_handle := next_cap_handle s + 1\<rparr>)"
  using members_ok_mono [OF _ next_le_succ]
  by (auto simp: caps_wf_def names_ok_def reg_wf_skip)

lemma caps_wf_capset_insert:
  "caps_wf s \<Longrightarrow> next_capset_handle s \<noteq> UINT64_MAX \<Longrightarrow> caps_wf (capset_insert [] s)"
  using capset_reg.wf_ins [of s "[]"]
  by (auto simp: caps_wf_def names_ok_def caps_mut_defs)

lemma caps_wf_capset_delete: "caps_wf s \<Longrightarrow> caps_wf (capset_delete h s)"
  using capset_reg.wf_del [of s h]
  by (auto simp: caps_wf_def names_ok_def caps_mut_defs)

lemma caps_wf_capset_update:
  assumes wf: "caps_wf s" and f: "\<And>m. kcapset_find_locked h s = Some m \<Longrightarrow> members_ok (next_cap_handle s) (f m)"
  shows "caps_wf (capset_update h f s)"
proof -
  have "members_ok (next_cap_handle s) (f m)" if "(h, m) \<in> set (global_capsets_table s)" for m
    using that f reg_wf_distinct [OF caps_wf_regs(2) [OF wf]] by (simp add: find_defs HASH_FIND_iff_in)
  with wf show ?thesis
    by (auto simp: caps_wf_def names_ok_def caps_mut_defs set_UPD reg_wf_UPD)
qed

lemma kcap_destroy_table:
  "global_caps_table (snd (kcap_destroy h s)) = HASH_DEL h (global_caps_table s)"
proof (cases "HASH_FIND h (global_caps_table s)")
  case None
  then have "HASH_DEL h (global_caps_table s) = global_caps_table s"
    by (auto simp: HASH_FIND_None_iff HASH_DEL_def image_iff filter_id_conv)
  with None show ?thesis by (simp add: kcap_destroy_def)
qed (simp add: kcap_destroy_def caps_mut_defs Let_def split: option.splits)

lemma kcap_destroy_frame:
  "global_capsets_table (snd (kcap_destroy h s)) = global_capsets_table s"
  "next_cap_handle (snd (kcap_destroy h s)) = next_cap_handle s"
  "next_capset_handle (snd (kcap_destroy h s)) = next_capset_handle s"
  by (simp_all add: kcap_destroy_def caps_mut_defs Let_def split: option.splits)

lemma kcap_destroy_names:
  assumes "names_ok s"
  shows "names_ok (snd (kcap_destroy h s))"
    and "HASH_FIND h (global_caps_table s) = Some c \<Longrightarrow>
         HASH_FIND h (global_cap_names_table (snd (kcap_destroy h s))) = None"
  using assms
  by (force simp: kcap_destroy_def names_ok_def caps_mut_defs Let_def table_simps
      dest: HASH_FIND_None_in split: option.splits)+

lemma caps_wf_destroy: "caps_wf s \<Longrightarrow> caps_wf (snd (kcap_destroy h s))"
  using reg_wf_DEL [of "global_caps_table s"] kcap_destroy_names(1) [of s h]
  by (simp add: caps_wf_def kcap_destroy_table kcap_destroy_frame)

lemma caps_wf_destroy_all:
  "caps_wf s \<Longrightarrow> caps_wf (fold (\<lambda>c s. snd (kcap_destroy c s)) cs s)"
  by (induction cs arbitrary: s) (simp_all add: caps_wf_destroy)


section \<open>Preservation by every operation\<close>

lemma kcapset_new_wf:
  "caps_wf s \<Longrightarrow> next_capset_handle s \<noteq> UINT64_MAX \<Longrightarrow> caps_wf (snd (kcapset_new mok s))"
  by (simp add: kcapset_new_def caps_wf_capset_insert)

lemma kcap_create_wf:
  "caps_wf s \<Longrightarrow> next_cap_handle s \<noteq> UINT64_MAX \<Longrightarrow> caps_wf (snd (kcap_create obj ty r mok s))"
  by (auto simp: kcap_create_def cap_ok_def validate_nonneg intro!: caps_wf_insert)

lemma kcap_derive_wf:
  "caps_wf s \<Longrightarrow> next_cap_handle s \<noteq> UINT64_MAX \<Longrightarrow> caps_wf (snd (kcap_derive h r mok s))"
  by (auto simp: kcap_derive_def cap_ok_def intro!: caps_wf_insert
      intro: validate_sub [OF caps_wf_find(2)] split: option.split)

lemma kcap_clone_wf:
  "caps_wf s \<Longrightarrow> next_cap_handle s \<noteq> UINT64_MAX \<Longrightarrow> caps_wf (snd (kcap_clone h mok s))"
  by (auto simp: kcap_clone_def cap_ok_def intro!: caps_wf_insert
      intro: caps_wf_find(2) split: option.split)

lemma kcap_merge_wf:
  "caps_wf s \<Longrightarrow> next_cap_handle s \<noteq> UINT64_MAX \<Longrightarrow> caps_wf (snd (kcap_merge a b mok s))"
  by (auto simp: kcap_merge_def cap_ok_def Let_def validate_nonneg intro!: caps_wf_insert caps_wf_skip
      split: option.split)

lemma kcap_set_name_wf: "caps_wf s \<Longrightarrow> caps_wf (snd (kcap_set_name h name len mok s))"
  by (auto simp: kcap_set_name_def caps_wf_def names_ok_def Let_def find_defs HASH_FIND_None_iff
      split: option.split)

lemma kcapset_addcap_wf: "caps_wf s \<Longrightarrow> caps_wf (snd (kcapset_addcap h c mok s))"
  by (auto simp: kcapset_addcap_def kcap_find_locked_def intro!: caps_wf_capset_update members_ok_snoc
      intro: caps_wf_members caps_wf_find(3) split: option.split)

lemma kcapset_delcap_wf: "caps_wf s \<Longrightarrow> caps_wf (snd (kcapset_delcap h c s))"
  by (auto simp: kcapset_delcap_def intro!: caps_wf_destroy caps_wf_capset_update members_ok_filter
      intro: caps_wf_members split: option.split)

lemma kcapset_destroy_wf: "caps_wf s \<Longrightarrow> caps_wf (snd (kcapset_destroy h s))"
  by (auto simp: kcapset_destroy_def intro!: caps_wf_destroy_all caps_wf_capset_delete split: option.split)

lemma find_capset_update:
  "kcapset_find_locked h (capset_update k f s) =
     (if h = k then map_option f (kcapset_find_locked k s) else kcapset_find_locked h s)"
  by (simp add: find_defs capset_update_def table_simps)

lemma next_capset_update: "next_cap_handle (capset_update k f s) = next_cap_handle s"
  by (simp add: capset_update_def)

lemma kcapset_move_cap_wf:
  assumes wf: "caps_wf s"
  shows "caps_wf (snd (kcapset_move_cap src dst cap s))"
proof -
  let ?s = "capset_update src (filter (\<lambda>c. c \<noteq> cap)) s"
  have s: "caps_wf ?s"
    using wf by (auto intro!: caps_wf_capset_update members_ok_filter intro: caps_wf_members)
  have "caps_wf (capset_update dst (\<lambda>m. m @ [cap]) ?s)"
    if "src \<noteq> dst" "kcapset_find_locked src s = Some a" "cap \<in> set a"
      "kcapset_find_locked dst s = Some b" "cap \<notin> set b" for a b
    using caps_wf_members [OF wf that(2)] caps_wf_members [OF wf that(4)] that
    by (intro caps_wf_capset_update [OF s])
      (auto simp: find_capset_update next_capset_update members_ok_def)
  with s wf show ?thesis
    by (auto simp: kcapset_move_cap_def Let_def split: option.split)
qed

lemma caps_exec_wf:
  assumes "caps_wf s" "next_cap_handle s \<noteq> UINT64_MAX" "next_capset_handle s \<noteq> UINT64_MAX"
  shows "caps_wf (caps_exec op s)"
  using assms
  by (cases op) (simp_all add: kcap_create_wf caps_wf_destroy kcap_set_name_wf kcap_derive_wf kcap_clone_wf
      kcap_merge_wf kcapset_new_wf kcapset_destroy_wf kcapset_addcap_wf kcapset_delcap_wf kcapset_move_cap_wf)

text \<open>The counters move by at most one per operation.\<close>

lemma destroy_all_frame:
  "global_capsets_table (fold (\<lambda>c s. snd (kcap_destroy c s)) cs s) = global_capsets_table s"
  "next_cap_handle (fold (\<lambda>c s. snd (kcap_destroy c s)) cs s) = next_cap_handle s"
  "next_capset_handle (fold (\<lambda>c s. snd (kcap_destroy c s)) cs s) = next_capset_handle s"
  by (induction cs arbitrary: s) (simp_all add: kcap_destroy_frame)

lemma caps_exec_counters:
  "next_cap_handle (caps_exec op s) \<in> {next_cap_handle s, next_cap_handle s + 1}"
  "next_capset_handle (caps_exec op s) \<in> {next_capset_handle s, next_capset_handle s + 1}"
  by (cases op; simp add: kcap_create_def kcap_derive_def kcap_clone_def kcap_merge_def kcap_set_name_def
      kcapset_new_def kcapset_destroy_def kcapset_addcap_def kcapset_delcap_def kcapset_move_cap_def
      kcap_destroy_frame destroy_all_frame Let_def split: option.split; simp add: caps_mut_defs)+

lemma unat_succ_le: "unat (n + 1) \<le> Suc (unat n)" for n :: u64
  by (simp add: unat_word_ariths)

lemma caps_room_exec: "caps_room (Suc n) s \<Longrightarrow> caps_room n (caps_exec op s)"
  using caps_exec_counters [of op s] unat_succ_le [of "next_cap_handle s"] unat_succ_le [of "next_capset_handle s"]
  by (auto simp: caps_room_def)

lemma caps_room_not_max:
  assumes "caps_room (Suc n) s"
  shows "next_cap_handle s \<noteq> UINT64_MAX" "next_capset_handle s \<noteq> UINT64_MAX"
  using assms by (auto simp: caps_room_def unsigned_minus_1_eq_mask mask_eq_exp_minus_1)

lemma caps_run_Cons: "caps_run (op # ops) s = caps_run ops (caps_exec op s)"
  by (simp add: caps_run_def)

lemma caps_run_Nil [simp]: "caps_run [] s = s"
  by (simp add: caps_run_def)

lemma caps_run_wf: "caps_wf s \<Longrightarrow> caps_room (length ops) s \<Longrightarrow> caps_wf (caps_run ops s)"
proof (induction ops arbitrary: s)
  case (Cons op ops)
  from Cons.prems(2) have "caps_room (Suc (length ops)) s" by simp
  with Cons.prems(1) have "caps_wf (caps_exec op s)" "caps_room (length ops) (caps_exec op s)"
    by (simp_all add: caps_exec_wf caps_room_not_max caps_room_exec)
  then show ?case by (simp add: caps_run_Cons Cons.IH)
qed simp

lemma kinit_caps_wf: "caps_wf (snd (kinit_caps mok))"
  by (simp add: kinit_caps_def kcapset_new_def caps_mut_defs HASH_ADD_def caps_wf_def names_ok_def reg_wf_def)

subsection \<open>Dead handles\<close>

definition dead_cap :: "u64 \<Rightarrow> caps_state \<Rightarrow> bool" where
  "dead_cap h s \<longleftrightarrow> h < next_cap_handle s \<and> HASH_FIND h (global_caps_table s) = None"

lemma dead_cap_insert:
  "caps_wf s \<Longrightarrow> next_cap_handle s \<noteq> UINT64_MAX \<Longrightarrow> dead_cap h s \<Longrightarrow> dead_cap h (caps_insert c s)"
  unfolding dead_cap_def using cap_reg.stale_ins caps_wf_regs(1) by blast

lemma dead_cap_destroy: "dead_cap h s \<Longrightarrow> dead_cap h (snd (kcap_destroy c s))"
  by (simp add: dead_cap_def kcap_destroy_table kcap_destroy_frame table_simps)

lemma dead_cap_destroy_all: "dead_cap h s \<Longrightarrow> dead_cap h (fold (\<lambda>c s. snd (kcap_destroy c s)) cs s)"
  by (induction cs arbitrary: s) (simp_all add: dead_cap_destroy)

lemma dead_cap_frame:
  "dead_cap h (capset_insert m s) = dead_cap h s"
  "dead_cap h (capset_delete k s) = dead_cap h s"
  "dead_cap h (capset_update k f s) = dead_cap h s"
  "dead_cap h (s\<lparr>global_cap_names_table := t\<rparr>) = dead_cap h s"
  by (simp_all add: dead_cap_def caps_mut_defs)

lemma dead_cap_skip:
  "next_cap_handle s \<noteq> UINT64_MAX \<Longrightarrow> dead_cap h s \<Longrightarrow> dead_cap h (s\<lparr>next_cap_handle := next_cap_handle s + 1\<rparr>)"
  by (auto simp: dead_cap_def less_succ_word)

lemma dead_cap_exec:
  assumes "caps_wf s" "next_cap_handle s \<noteq> UINT64_MAX" "dead_cap h s"
  shows "dead_cap h (caps_exec op s)"
  using assms
  by (cases op) (auto simp: kcap_create_def kcap_derive_def kcap_clone_def kcap_merge_def kcap_set_name_def
      kcapset_new_def kcapset_destroy_def kcapset_addcap_def kcapset_delcap_def kcapset_move_cap_def
      dead_cap_frame dead_cap_insert dead_cap_skip dead_cap_destroy dead_cap_destroy_all Let_def
      split: option.split)

lemma dead_cap_run:
  "caps_wf s \<Longrightarrow> caps_room (length ops) s \<Longrightarrow> dead_cap h s \<Longrightarrow> dead_cap h (caps_run ops s)"
proof (induction ops arbitrary: s)
  case (Cons op ops)
  from Cons.prems(2) have room: "caps_room (Suc (length ops)) s" by simp
  with Cons.prems(1,3) have "caps_wf (caps_exec op s)" "dead_cap h (caps_exec op s)"
    by (simp_all add: caps_exec_wf dead_cap_exec caps_room_not_max)
  with caps_room_exec [OF room] show ?case by (simp add: caps_run_Cons Cons.IH)
qed simp

lemma dead_cap_unresolvable:
  assumes "dead_cap h s"
  shows "kcapset_resolve_handle set_h h ty r s = None" "kcapset_resolve_record set_h h r s = None"
  using assms by (auto simp: dead_cap_def kcapset_resolve_handle_def kcapset_resolve_record_def
      kcap_find_locked_def split: option.split)

subsection \<open>Authority\<close>

lemma authority_insert:
  "authority (caps_insert c s) = authority s \<union> {(ctype c, obj_handle c, n) |n. bit (rights c) n}"
  by (auto simp: authority_def caps_mut_defs)

lemma authority_frame:
  "authority (capset_insert m s) = authority s"
  "authority (capset_delete k s) = authority s"
  "authority (capset_update k f s) = authority s"
  "authority (s\<lparr>global_cap_names_table := t\<rparr>) = authority s"
  "authority (s\<lparr>next_cap_handle := n\<rparr>) = authority s"
  by (simp_all add: authority_def caps_mut_defs)

lemma authority_destroy: "authority (snd (kcap_destroy h s)) \<subseteq> authority s"
  unfolding authority_def kcap_destroy_table by auto

lemma authority_destroy_all: "authority (fold (\<lambda>c s. snd (kcap_destroy c s)) cs s) \<subseteq> authority s"
proof (induction cs arbitrary: s)
  case (Cons c cs)
  then show ?case using authority_destroy [of c s] by simp blast
qed simp

lemma authority_memI:
  "HASH_FIND h (global_caps_table s) = Some c \<Longrightarrow> ctype c = ty \<Longrightarrow> obj_handle c = obj \<Longrightarrow> bit (rights c) n \<Longrightarrow>
   (ty, obj, n) \<in> authority s"
  unfolding authority_def by (blast dest: HASH_FIND_Some_in)

lemma authority_derive: "authority (snd (kcap_derive h r mok s)) \<subseteq> authority s"
  by (auto simp: kcap_derive_def authority_insert subrights_bit intro: authority_memI split: option.split)

lemma authority_clone: "authority (snd (kcap_clone h mok s)) \<subseteq> authority s"
  by (auto simp: kcap_clone_def authority_insert intro: authority_memI split: option.split)

lemma authority_merge: "authority (snd (kcap_merge a b mok s)) \<subseteq> authority s"
  by (auto simp: kcap_merge_def authority_insert authority_frame Let_def bit_simps CAPS_SAME_OBJECT_def
      CAP_IS_TYPE_def intro: authority_memI split: option.split)

fun is_create :: "caps_op \<Rightarrow> bool" where
  "is_create (Create _ _ _ _) = True"
| "is_create _ = False"

lemma authority_exec: "\<not> is_create op \<Longrightarrow> authority (caps_exec op s) \<subseteq> authority s"
proof (cases op)
  case (SetDestroy h)
  then show ?thesis
    using authority_destroy_all [of _ "capset_delete h s"]
    by (auto simp: kcapset_destroy_def authority_frame split: option.split)
next
  case (DelCap h c)
  then show ?thesis
    using authority_destroy [of c "capset_update h (filter (\<lambda>x. x \<noteq> c)) s"]
    by (auto simp: kcapset_delcap_def authority_frame split: option.split)
qed (auto simp: authority_frame kcap_set_name_def kcapset_new_def kcapset_addcap_def kcapset_move_cap_def Let_def
      dest: subsetD [OF authority_destroy] subsetD [OF authority_derive] subsetD [OF authority_clone]
        subsetD [OF authority_merge] split: option.split_asm if_splits)

lemma authority_run:
  "\<forall>op \<in> set ops. \<not> is_create op \<Longrightarrow> authority (caps_run ops s) \<subseteq> authority s"
proof (induction ops arbitrary: s)
  case (Cons op ops)
  then have "authority (caps_run ops (caps_exec op s)) \<subseteq> authority (caps_exec op s)" by simp
  also have "\<dots> \<subseteq> authority s" using Cons.prems by (simp add: authority_exec)
  finally show ?case by (simp add: caps_run_Cons)
qed simp

subsection \<open>Lookups in a set\<close>

definition cap_matches :: "caps_state \<Rightarrow> cap_type_t \<Rightarrow> u64 \<Rightarrow> u64 \<Rightarrow> bool" where
  "cap_matches s ty r h \<longleftrightarrow> (\<exists>c. kcap_find_locked h s = Some c \<and> ctype c = ty \<and> subrights r (rights c))"

lemma resolve_iter_find:
  "resolve_iter s ty r ms = Option.bind (List.find (cap_matches s ty r) ms) (\<lambda>h. kcap_find_locked h s)"
  by (induction ms)
    (auto simp: cap_matches_def CAP_IS_TYPE_def CAP_HAS_ALL_def and.commute split: option.split)

lemma resolve_iter_None: "resolve_iter s ty r ms = None \<longleftrightarrow> (\<forall>h \<in> set ms. \<not> cap_matches s ty r h)"
  by (induction ms)
    (auto simp: cap_matches_def CAP_IS_TYPE_def CAP_HAS_ALL_def and.commute split: option.split)

lemma resolve_handle_Some:
  "kcapset_resolve_handle set_h cap ty r s = Some obj \<longleftrightarrow>
     (\<exists>m c. kcapset_find_locked set_h s = Some m \<and> cap \<in> set m \<and> kcap_find_locked cap s = Some c \<and>
        ctype c = ty \<and> subrights r (rights c) \<and> obj_handle c = obj)"
  by (auto simp: kcapset_resolve_handle_def CAP_IS_TYPE_def CAP_HAS_ALL_def and.commute split: option.split if_splits)

lemma resolve_record_Some:
  "kcapset_resolve_record set_h cap r s = Some c \<longleftrightarrow>
     (\<exists>m. kcapset_find_locked set_h s = Some m \<and> cap \<in> set m \<and> kcap_find_locked cap s = Some c \<and>
        subrights r (rights c))"
  by (auto simp: kcapset_resolve_record_def CAP_HAS_ALL_def and.commute split: option.split if_splits)

section \<open>Properties\<close>

text \<open>
  Property C1.  Every state that a sequence of operations reaches from kinit_caps is well
  formed, as long as the sequence is shorter than the supply of handles: handles are unique and
  below their counters, every capability carries only rights that are valid for its type, names
  belong to live capabilities and fit in 32 bytes, and no set lists a capability twice.
\<close>

theorem caps_reachable_wf:
  assumes "length ops < 2 ^ 64 - 2"
  shows "caps_wf (caps_run ops (snd (kinit_caps mok)))"
proof (rule caps_run_wf [OF kinit_caps_wf])
  have "unat (2 :: u64) = 2" "unat (1 :: u64) = 1" by simp_all
  with assms show "caps_room (length ops) (snd (kinit_caps mok))"
    by (auto simp: caps_room_def kinit_caps_def kcapset_new_def capset_insert_def)
qed

theorem caps_reachable_wf_witness:
  "caps_wf (caps_run [Create 7 CAP_TYPE_IPC 1024 True, Derive 1 0 True, AddCap 1 2 True] (snd (kinit_caps True)))"
  by (rule caps_reachable_wf) simp

text \<open>
  Property C2.  No operation other than kcap_create amplifies authority: whatever sequence of
  derivations, clones, merges, moves, renames and removals runs, a right bit on an object of a type is
  held afterwards only if some capability held it before.
\<close>

theorem no_amplification:
  assumes "\<forall>op \<in> set ops. \<not> is_create op"
  shows "authority (caps_run ops s) \<subseteq> authority s"
  using assms by (rule authority_run)

definition demo_caps :: caps_state where
  "demo_caps = caps_run [Create 7 CAP_TYPE_IPC 3072 True, Create 7 CAP_TYPE_IPC 4096 True, AddCap 1 1 True]
     (snd (kinit_caps True))"

theorem no_amplification_witness:
  "authority (caps_run [Derive 1 1024 True, Merge 1 2 True, DelCap 1 1] demo_caps) \<subseteq> authority demo_caps"
  by (rule no_amplification) simp

text \<open>
  Property C3.  Revocation is final: once kcap_destroy has removed a capability, no later
  sequence of operations makes its handle resolve again in any capability set, although the sets may
  still list the handle.
\<close>

theorem destroyed_cap_stays_dead:
  assumes "caps_wf s" "kcap_destroy h s = (0, s')" "caps_room (length ops) s'"
  shows "kcapset_resolve_handle set_h h ty r (caps_run ops s') = None \<and>
         kcapset_resolve_record set_h h r (caps_run ops s') = None"
proof -
  from assms(2) have s': "s' = snd (kcap_destroy h s)" and "HASH_FIND h (global_caps_table s) \<noteq> None"
    by (auto simp: kcap_destroy_def split: option.splits)
  with assms(1) have "dead_cap h s'"
    by (auto simp: dead_cap_def kcap_destroy_table kcap_destroy_frame table_simps dest: caps_wf_find(3))
  with assms(3) caps_wf_destroy [OF assms(1), of h] have "dead_cap h (caps_run ops s')"
    by (simp add: s' dead_cap_run)
  then show ?thesis by (blast intro: dead_cap_unresolvable)
qed

lemmas caps_eval = demo_caps_def caps_run_def kinit_caps_def kcapset_new_def kcap_create_def kcap_destroy_def
  kcapset_addcap_def find_defs caps_mut_defs HASH_ADD_def HASH_FIND_def HASH_DEL_def HASH_UPD_def
  CAP_VALID_RIGHTS_def CAP_GENERIC_VALID_RIGHTS_def CAP_RIGHT_TRANSFER_def CAP_RIGHT_FORWARD_def
  CAP_RIGHT_DERIVE_def CAP_RIGHT_DESTROY_def CAP_RIGHT_REMOVE_def CAP_RIGHT_GETNAME_def CAP_RIGHT_SETNAME_def
  caps_wf_def cap_ok_def names_ok_def members_ok_def reg_wf_def caps_room_def Let_def

lemma demo_caps_wf: "caps_wf demo_caps"
  by (simp add: caps_eval)

theorem destroyed_cap_stays_dead_witness:
  "kcapset_resolve_handle 1 1 CAP_TYPE_IPC 1024
     (caps_run [Create 9 CAP_TYPE_IPC 1024 True] (snd (kcap_destroy 1 demo_caps))) = None"
proof -
  have "kcap_destroy 1 demo_caps = (0, snd (kcap_destroy 1 demo_caps))"
    by (simp add: caps_eval)
  moreover have "caps_room (length [Create 9 CAP_TYPE_IPC 1024 True]) (snd (kcap_destroy 1 demo_caps))"
    by (simp add: caps_eval)
  ultimately show ?thesis using destroyed_cap_stays_dead [OF demo_caps_wf] by blast
qed

text \<open>
  Property C4.  kcap_merge on two live capabilities of one type for one object always
  succeeds when memory is available (its defensive rights check cannot fail), and publishes a new
  capability for the same object whose rights are exactly the union, leaving the two sources in place.
\<close>

theorem kcap_merge_correct:
  assumes "caps_wf s"
    and "kcap_getcap a s = Some ca" "kcap_getcap b s = Some cb"
    and "ctype ca = ctype cb" "obj_handle ca = obj_handle cb"
  shows "\<exists>h s'. kcap_merge a b True s = (Some h, s') \<and>
           kcap_getcap h s' = Some \<lparr>cap_handle = h, ctype = ctype ca, obj_handle = obj_handle ca,
                                    rights = rights ca OR rights cb\<rparr> \<and>
           (\<forall>k. k \<noteq> h \<longrightarrow> kcap_getcap k s' = kcap_getcap k s) \<and> kcap_getcap h s = None"
proof -
  have find: "HASH_FIND a (global_caps_table s) = Some ca" "HASH_FIND b (global_caps_table s) = Some cb"
    using assms(2,3) by (simp_all add: kcap_getcap_def)
  have "kcap_validate_rights (ctype ca) (rights ca OR rights cb) = 0"
    using caps_wf_find(2) [OF assms(1) find(1)] caps_wf_find(2) [OF assms(1) find(2)] assms(4)
    by (simp add: validate_OR)
  then have "kcap_merge a b True s =
      (Some (next_cap_handle s),
       caps_insert \<lparr>cap_handle = next_cap_handle s, ctype = ctype ca, obj_handle = obj_handle ca,
                    rights = rights ca OR rights cb\<rparr> s)"
    using assms(4,5) find by (simp add: kcap_merge_def CAPS_SAME_OBJECT_def CAP_IS_TYPE_def Let_def)
  then show ?thesis
    using cap_reg.find_ins [OF caps_wf_regs(1) [OF assms(1)]] reg_wf_fresh [OF caps_wf_regs(1) [OF assms(1)]]
    by (auto simp: kcap_getcap_def)
qed

theorem kcap_merge_correct_witness:
  "\<exists>h s'. kcap_merge 1 2 True demo_caps = (Some h, s') \<and>
     kcap_getcap h s' = Some \<lparr>cap_handle = h, ctype = CAP_TYPE_IPC, obj_handle = 7, rights = 3072 OR 4096\<rparr>"
  using kcap_merge_correct [OF demo_caps_wf, of 1 "\<lparr>cap_handle = 1, ctype = CAP_TYPE_IPC, obj_handle = 7, rights = 3072\<rparr>"
      2 "\<lparr>cap_handle = 2, ctype = CAP_TYPE_IPC, obj_handle = 7, rights = 4096\<rparr>"]
  by (simp add: kcap_getcap_def caps_eval) blast

text \<open>
  Property C5.  Searching a set by type and rights agrees with resolving its members one by
  one: kcapset_check_perms grants access exactly when some member resolves with the required type and
  rights, and kcapset_resolve_cap then returns the first such member in insertion order.
\<close>

theorem check_perms_iff_resolvable:
  "(kcapset_check_perms set_h ty r s = 0 \<longleftrightarrow> (\<exists>cap obj. kcapset_resolve_handle set_h cap ty r s = Some obj)) \<and>
   kcapset_resolve_cap set_h ty r s =
     Option.bind (kcapset_find_locked set_h s) (\<lambda>members.
       Option.bind (List.find (\<lambda>cap. kcapset_resolve_handle set_h cap ty r s \<noteq> None) members)
         (\<lambda>cap. kcap_getcap cap s))"
proof (cases "kcapset_find_locked set_h s")
  case None
  then show ?thesis
    by (simp add: kcapset_check_perms_def kcapset_resolve_cap_def kcapset_resolve_handle_def)
next
  case (Some m)
  have match: "cap \<in> set m \<Longrightarrow> kcapset_resolve_handle set_h cap ty r s \<noteq> None \<longleftrightarrow> cap_matches s ty r cap" for cap
    using Some by (auto simp: resolve_handle_Some cap_matches_def)
  have "List.find (\<lambda>cap. kcapset_resolve_handle set_h cap ty r s \<noteq> None) m = List.find (cap_matches s ty r) m"
    using match by (rule find_cong [OF refl])
  moreover have "(\<exists>cap obj. kcapset_resolve_handle set_h cap ty r s = Some obj) \<longleftrightarrow> (\<exists>cap \<in> set m. cap_matches s ty r cap)"
    using Some by (auto simp: resolve_handle_Some cap_matches_def)
  ultimately show ?thesis
    using Some resolve_iter_None [of s ty r m]
    by (auto simp: kcapset_check_perms_def kcapset_resolve_cap_def resolve_iter_find kcap_getcap_def
        kcap_find_locked_def split: option.splits)
qed

text \<open>
  Property C6.  kcapset_move_cap between two different sets is atomic: on success the
  capability is in the destination and no longer in the source, every other membership of every set is
  unchanged, and the capability itself stays live with the same rights.
\<close>

theorem move_cap_atomic:
  assumes "kcapset_move_cap src dst cap s = (0, s')" "src \<noteq> dst"
  shows "\<not> kcapset_hascap src cap s' \<and> kcapset_hascap dst cap s' \<and>
         (\<forall>set_h c. (set_h, c) \<notin> {(src, cap), (dst, cap)} \<longrightarrow>
            kcapset_hascap set_h c s' = kcapset_hascap set_h c s) \<and>
         global_caps_table s' = global_caps_table s"
proof -
  from assms obtain a b where "kcapset_find_locked src s = Some a" "kcapset_find_locked dst s = Some b" "cap \<in> set a"
    by (auto simp: kcapset_move_cap_def split: option.splits if_splits)
  with assms show ?thesis
    by (auto simp: kcapset_move_cap_def kcapset_hascap_def find_capset_update Let_def split: if_splits)
      (auto simp: capset_update_def)
qed

theorem move_cap_atomic_witness:
  "\<exists>s'. kcapset_move_cap 1 2 1 (snd (kcapset_new True demo_caps)) = (0, s') \<and>
     \<not> kcapset_hascap 1 1 s' \<and> kcapset_hascap 2 1 s'"
proof -
  have "kcapset_move_cap 1 2 1 (snd (kcapset_new True demo_caps)) =
      (0, snd (kcapset_move_cap 1 2 1 (snd (kcapset_new True demo_caps))))"
    by (simp add: caps_eval kcapset_move_cap_def)
  from move_cap_atomic [OF this] this show ?thesis by simp blast
qed

text \<open>
  Property C7.  Names round trip: after kcap_set_name succeeded with a name of \<open>len\<close> bytes,
  kcap_get_name with a large enough buffer returns exactly these bytes, with a smaller buffer it fails
  and reports the length; an empty name removes the name.
\<close>

theorem name_round_trip:
  assumes "names_ok s" "kcap_set_name h (Some bytes) len mok s = (0, s')" "len \<le> length bytes"
  shows "kcap_get_name h out_size s' =
           (if len = 0 then (-1, None, None)
            else if out_size < len then (-1, Some len, None)
            else (0, Some len, Some (take len bytes)))"
proof -
  from assms(2) have live: "kcap_find_locked h s \<noteq> None" and "len \<le> KCAP_NAME_MAX"
    by (auto simp: kcap_set_name_def split: if_splits)
  then show ?thesis
    using assms by (auto simp: kcap_set_name_def kcap_get_name_def Let_def kcap_find_locked_def table_simps
        min_def split: if_splits option.splits)
qed

theorem name_round_trip_witness:
  "kcap_get_name 1 32 (snd (kcap_set_name 1 (Some [115, 104]) 2 True demo_caps)) = (0, Some 2, Some [115, 104])"
proof -
  have "kcap_set_name 1 (Some [115, 104]) 2 True demo_caps =
      (0, snd (kcap_set_name 1 (Some [115, 104]) 2 True demo_caps))"
    by (simp add: kcap_set_name_def KCAP_NAME_MAX_def caps_eval)
  from name_round_trip [OF caps_wf_regs(3) [OF demo_caps_wf] this, of 32] show ?thesis by simp
qed



end
