(* ===== verification/Objects.thy ===== *)
theory Objects
  imports Prelude
begin

text \<open>
  Reference-counted kernel objects behind a handle registry.  Notification objects and IPC endpoints
  follow one discipline: the registry owns one reference, every other holder owns one more, the
  object is freed when the count reaches zero.  The invariant and its preservation under the four
  primitive changes (update in place, creation, unlinking, freeing) are stated once, over an object
  store \<open>objs\<close>, a registry \<open>t\<close> with counter \<open>k\<close>, the fields \<open>hof\<close> and \<open>refs\<close> of an object, and the
  number \<open>ext a\<close> of references held outside the registry.
\<close>

definition registered :: "addr \<Rightarrow> (u64, addr) uthash \<Rightarrow> bool" where
  "registered a t \<longleftrightarrow> a \<in> snd ` set t"

lemma registered_iff: "registered a t \<longleftrightarrow> (\<exists>k. (k, a) \<in> set t)"
  by (force simp: registered_def)

lemma registered_ADD: "registered b (HASH_ADD k a t) \<longleftrightarrow> b = a \<or> registered b t"
  by (auto simp: registered_def)

lemma registered_DEL:
  assumes "distinct (map snd t)" "(h, a) \<in> set t" "distinct (keys t)"
  shows "registered b (HASH_DEL h t) \<longleftrightarrow> registered b t \<and> b \<noteq> a"
proof -
  have "k = h" if "(k, a) \<in> set t" for k
    using assms(1,2) that inj_onD [of snd "set t" "(k, a)" "(h, a)"] by (simp add: distinct_map)
  moreover have "c = a" if "(h, c) \<in> set t" for c
    using assms(2,3) that by (simp add: eq_key_imp_eq_value)
  ultimately have "(k, b) \<in> set t \<and> k \<noteq> h \<longleftrightarrow> (k, b) \<in> set t \<and> b \<noteq> a" for k
    by blast
  then show ?thesis by (simp add: registered_iff)
qed

lemma distinct_snd_DEL: "distinct (map snd t) \<Longrightarrow> distinct (map snd (HASH_DEL h t))"
  by (induction t) (auto simp: HASH_DEL_def)

definition obj_inv ::
  "(addr \<Rightarrow> 'o option) \<Rightarrow> (u64, addr) uthash \<Rightarrow> u64 \<Rightarrow> ('o \<Rightarrow> u64) \<Rightarrow> ('o \<Rightarrow> nat) \<Rightarrow> (addr \<Rightarrow> nat) \<Rightarrow> bool" where
  "obj_inv objs t k hof refs ext \<longleftrightarrow>
     reg_wf t k \<and> distinct (map snd t) \<and>
     (\<forall>h a. (h, a) \<in> set t \<longrightarrow> (\<exists>n. objs a = Some n \<and> hof n = h)) \<and>
     (\<forall>a n. objs a = Some n \<longrightarrow> refs n = ext a + (if registered a t then 1 else 0) \<and> refs n > 0) \<and>
     (\<forall>a. objs a = None \<longrightarrow> ext a = 0)"

lemma obj_invI:
  assumes "reg_wf t k" "distinct (map snd t)"
    and "\<And>h a. (h, a) \<in> set t \<Longrightarrow> \<exists>n. objs a = Some n \<and> hof n = h"
    and "\<And>a n. objs a = Some n \<Longrightarrow> refs n = ext a + (if registered a t then 1 else 0) \<and> refs n > 0"
    and "\<And>a. objs a = None \<Longrightarrow> ext a = 0"
  shows "obj_inv objs t k hof refs ext"
  unfolding obj_inv_def using assms by blast

lemma obj_inv_table:
  assumes "obj_inv objs t k hof refs ext"
  shows "reg_wf t k" "distinct (map snd t)"
    "(h, a) \<in> set t \<Longrightarrow> \<exists>n. objs a = Some n \<and> hof n = h" "objs a = None \<Longrightarrow> ext a = 0"
  using assms unfolding obj_inv_def by blast+

lemma obj_inv_refs:
  assumes "obj_inv objs t k hof refs ext" "objs a = Some n"
  shows "refs n = ext a + (if registered a t then 1 else 0)" "0 < refs n"
  using assms unfolding obj_inv_def by blast+

lemma obj_inv_live:
  assumes "obj_inv objs t k hof refs ext" "HASH_FIND h t = Some a"
  shows "\<exists>n. objs a = Some n \<and> hof n = h" "registered a t" "h < k"
proof -
  note mem = HASH_FIND_Some_in [OF assms(2)]
  from obj_inv_table(3) [OF assms(1) mem] show "\<exists>n. objs a = Some n \<and> hof n = h" .
  from mem show "registered a t" unfolding registered_iff by blast
  from obj_inv_table(1) [OF assms(1)] assms(2) show "h < k" by (rule reg_wf_below)
qed

lemma obj_inv_held: "obj_inv objs t k hof refs ext \<Longrightarrow> 0 < ext a \<Longrightarrow> \<exists>n. objs a = Some n"
  using obj_inv_table(4) [of objs t k hof refs ext a] by (cases "objs a") auto

lemma obj_inv_upd:
  assumes "obj_inv objs t k hof refs ext" "\<And>n. objs a = Some n \<Longrightarrow> hof (f n) = hof n"
    and "\<And>n. objs a = Some n \<Longrightarrow> refs (f n) + ext a = refs n + ext' a \<and> 0 < refs (f n)"
    and "\<And>b. b \<noteq> a \<Longrightarrow> ext' b = ext b" "objs a = None \<Longrightarrow> ext' a = 0"
  shows "obj_inv (objs(a := map_option f (objs a))) t k hof refs ext'"
proof (rule obj_invI)
  fix b m assume *: "(objs(a := map_option f (objs a))) b = Some m"
  show "refs m = ext' b + (if registered b t then 1 else 0) \<and> 0 < refs m"
  proof (cases "b = a")
    case True
    with * obtain n where n: "objs a = Some n" "m = f n" by auto
    with assms(3) [OF n(1)] obj_inv_refs(1) [OF assms(1) n(1)] True show ?thesis by (auto split: if_splits)
  next
    case False
    with * have b: "objs b = Some m" by simp
    show ?thesis using obj_inv_refs [OF assms(1) b] assms(4) [OF False] by simp
  qed
next
  fix b assume "(objs(a := map_option f (objs a))) b = None"
  then show "ext' b = 0" using obj_inv_table(4) [OF assms(1), of b] assms(4,5) by (cases "b = a") simp_all
next
  fix h b assume "(h, b) \<in> set t"
  from obj_inv_table(3) [OF assms(1) this]
  show "\<exists>n. (objs(a := map_option f (objs a))) b = Some n \<and> hof n = h" using assms(2) by (cases "b = a") auto
qed (rule obj_inv_table [OF assms(1)])+

lemma obj_inv_soft_upd:
  assumes "obj_inv objs t k hof refs ext" "\<And>n. objs a = Some n \<Longrightarrow> hof (f n) = hof n"
    "\<And>n. objs a = Some n \<Longrightarrow> refs (f n) = refs n"
  shows "obj_inv (objs(a := map_option f (objs a))) t k hof refs ext"
  using assms(2,3) obj_inv_refs(2) [OF assms(1)] obj_inv_table(4) [OF assms(1)]
  by (intro obj_inv_upd [OF assms(1)]) simp_all

lemma obj_inv_acquire:
  assumes "obj_inv objs t k hof refs ext" "objs a = Some n" "\<And>n. hof (f n) = hof n" "\<And>n. refs (f n) = refs n + 1"
  shows "obj_inv (objs(a := map_option f (objs a))) t k hof refs (ext(a := ext a + 1))"
  by (rule obj_inv_upd [OF assms(1)]) (simp_all add: assms)

lemma obj_inv_release:
  assumes "obj_inv objs t k hof refs ext" "0 < ext a" "objs a = Some n" "1 < refs n"
    "\<And>n. hof (f n) = hof n" "\<And>n. refs (f n) = refs n - 1"
  shows "obj_inv (objs(a := map_option f (objs a))) t k hof refs (ext(a := ext a - 1))"
  by (rule obj_inv_upd [OF assms(1)]) (use assms in auto)

lemma obj_inv_free:
  assumes "obj_inv objs t k hof refs ext" "objs a = Some n" "refs n = 1" "0 < ext a"
  shows "obj_inv (objs(a := None)) t k hof refs (ext(a := ext a - 1))"
proof -
  have a: "\<not> registered a t" "ext a = 1" using obj_inv_refs(1) [OF assms(1,2)] assms(3,4) by (cases "registered a t"; simp)+
  show ?thesis
  proof (rule obj_invI)
    fix b m assume "(objs(a := None)) b = Some m"
    then have b: "b \<noteq> a" "objs b = Some m" by (simp_all split: if_splits)
    from obj_inv_refs [OF assms(1) b(2)] b(1)
    show "refs m = (ext(a := ext a - 1)) b + (if registered b t then 1 else 0) \<and> 0 < refs m" by simp
  next
    fix h b assume b: "(h, b) \<in> set t"
    then have "b \<noteq> a" using a(1) unfolding registered_iff by metis
    with obj_inv_table(3) [OF assms(1) b] show "\<exists>n. (objs(a := None)) b = Some n \<and> hof n = h" by simp
  next
    fix b assume "(objs(a := None)) b = None"
    with obj_inv_table(4) [OF assms(1), of b] a(2)
    show "(ext(a := ext a - 1)) b = 0" by (cases "b = a") simp_all
  qed (rule obj_inv_table [OF assms(1)])+
qed

lemma obj_inv_create:
  assumes "obj_inv objs t k hof refs ext" "objs a = None" "k \<noteq> UINT64_MAX" "hof n = k" "refs n = 1"
  shows "obj_inv (objs(a \<mapsto> n)) (HASH_ADD k a t) (k + 1) hof refs ext"
proof -
  have a: "ext a = 0" using obj_inv_table(4) [OF assms(1,2)] .
  have nreg: "\<not> registered a t"
  proof
    assume "registered a t"
    then obtain h where "(h, a) \<in> set t" unfolding registered_iff by blast
    from obj_inv_table(3) [OF assms(1) this] assms(2) show False by simp
  qed
  show ?thesis
  proof (rule obj_invI)
    show "reg_wf (HASH_ADD k a t) (k + 1)" 
      by (rule reg_wf_ADD [OF obj_inv_table(1) [OF assms(1)] assms(3)])
    show "distinct (map snd (HASH_ADD k a t))"
      using obj_inv_table(2) [OF assms(1)] nreg by (simp add: HASH_ADD_def registered_def)
  next
    fix h b assume b: "(h, b) \<in> set (HASH_ADD k a t)"
    show "\<exists>m. (objs(a \<mapsto> n)) b = Some m \<and> hof m = h"
    proof (cases "(h, b) = (k, a)")
      case True then show ?thesis using assms(4) by simp
    next
      case False
      with b have b: "(h, b) \<in> set t" by auto
      then have "b \<noteq> a" using nreg unfolding registered_iff by metis
      with obj_inv_table(3) [OF assms(1) b] show ?thesis by simp
    qed
  next
    fix b m assume b: "(objs(a \<mapsto> n)) b = Some m"
    show "refs m = ext b + (if registered b (HASH_ADD k a t) then 1 else 0) \<and> 0 < refs m"
    proof (cases "b = a")
      case True with b a assms(5) show ?thesis by (simp add: registered_ADD)
    next
      case False
      with b have "objs b = Some m" by simp
      from obj_inv_refs [OF assms(1) this] False show ?thesis by (simp add: registered_ADD)
    qed
  next
    fix b assume "(objs(a \<mapsto> n)) b = None"
    with obj_inv_table(4) [OF assms(1), of b] show "ext b = 0" by (cases "b = a") simp_all
  qed
qed

text \<open>Unlinking a handle turns the reference of the registry into one held by the caller.\<close>

lemma obj_inv_unlink:
  assumes "obj_inv objs t k hof refs ext" "HASH_FIND h t = Some a"
  shows "obj_inv objs (HASH_DEL h t) k hof refs (ext(a := ext a + 1))"
proof -
  have mem: "(h, a) \<in> set t" using assms(2) by (rule HASH_FIND_Some_in)
  note tab = obj_inv_table [OF assms(1)]
  have reg: "registered b (HASH_DEL h t) \<longleftrightarrow> registered b t \<and> b \<noteq> a" for b
    using registered_DEL [OF tab(2) mem] reg_wf_distinct [OF tab(1)] by blast
  have reg_a: "registered a t" using mem unfolding registered_iff by blast
  show ?thesis
  proof (rule obj_invI)
    fix b n assume b: "objs b = Some n"
    from obj_inv_refs [OF assms(1) b] reg_a
    show "refs n = (ext(a := ext a + 1)) b + (if registered b (HASH_DEL h t) then 1 else 0) \<and> 0 < refs n"
      by (simp add: reg)
  next
    fix b assume "objs b = None"
    with tab(4) [of b] tab(3) [OF mem] show "(ext(a := ext a + 1)) b = 0" by (cases "b = a") simp_all
  next
    fix g b assume "(g, b) \<in> set (HASH_DEL h t)"
    then show "\<exists>n. objs b = Some n \<and> hof n = g" using tab(3) [of g b] by simp
  qed (simp_all add: tab reg_wf_DEL distinct_snd_DEL)
qed

lemma obj_inv_no_leak: "obj_inv objs [] k hof refs (\<lambda>_. 0) \<Longrightarrow> objs a = None"
  using obj_inv_refs [of objs "[]" k hof refs "\<lambda>_. 0" a] by (cases "objs a") (simp_all add: registered_def)

lemma obj_inv_init: "obj_inv (\<lambda>_. None) [] k hof refs (\<lambda>_. 0)"
  by (rule obj_invI) simp_all

end
