(* ===== verification/Knotify.thy ===== *)
theory Knotify
  imports Objects
begin

text \<open>
  Notification objects (src/kernel/subsystems/knotify.c).  Objects live in an explicit store,
  because IPC endpoints and IRQ objects keep pointers to them after their handle is gone; the
  registry maps handles to addresses.  An operation on a dead address, and the endless loop that
  knotify_release enters on a zero count, are the result \<open>None\<close>.  The address argument of
  knotify_create is what kmalloc returns, \<open>None\<close> for out of memory.
\<close>

section \<open>State and operations\<close>

record notify_t =
  n_handle :: u64
  n_references :: nat
  pending :: u64
  n_sem :: nat

record notify_state =
  n_objs :: "addr \<Rightarrow> notify_t option"
  global_notify_table :: "(u64, addr) uthash"
  next_notify_handle :: u64

abbreviation NOTIFY_INVALID_HANDLE :: u64 where "NOTIFY_INVALID_HANDLE \<equiv> UINT64_MAX"

definition knotify_init :: notify_state where
  "knotify_init = \<lparr>n_objs = (\<lambda>_. None), global_notify_table = [], next_notify_handle = 1\<rparr>"

definition knotify_find_locked :: "u64 \<Rightarrow> notify_state \<Rightarrow> addr option" where
  "knotify_find_locked h s = HASH_FIND h (global_notify_table s)"

definition n_update :: "addr \<Rightarrow> (notify_t \<Rightarrow> notify_t) \<Rightarrow> notify_state \<Rightarrow> notify_state" where
  \<comment> \<open>a write through a pointer to a live object\<close>
  "n_update a f s = s\<lparr>n_objs := (n_objs s)(a := map_option f (n_objs s a))\<rparr>"

definition knotify_acquire :: "u64 \<Rightarrow> notify_state \<Rightarrow> addr option \<times> notify_state" where
  "knotify_acquire h s =
     (if h = NOTIFY_INVALID_HANDLE then (None, s)
      else case knotify_find_locked h s of
        None \<Rightarrow> (None, s)
      | Some a \<Rightarrow> (Some a, n_update a (\<lambda>n. n\<lparr>n_references := n_references n + 1\<rparr>) s))"

definition knotify_release :: "addr \<Rightarrow> notify_state \<Rightarrow> notify_state option" where
  "knotify_release a s =
     (case n_objs s a of
        None \<Rightarrow> None
      | Some n \<Rightarrow>
          if n_references n > 0 then
            Some (if n_references n - 1 = 0 then s\<lparr>n_objs := (n_objs s)(a := None)\<rparr>
                  else n_update a (\<lambda>n. n\<lparr>n_references := n_references n - 1\<rparr>) s)
          else None)"

definition notify_insert :: "addr \<Rightarrow> notify_state \<Rightarrow> notify_state" where
  "notify_insert a s = s\<lparr>global_notify_table := HASH_ADD (next_notify_handle s) a (global_notify_table s),
                         next_notify_handle := next_notify_handle s + 1\<rparr>"

definition notify_unlink :: "u64 \<Rightarrow> notify_state \<Rightarrow> notify_state" where
  "notify_unlink h s = s\<lparr>global_notify_table := HASH_DEL h (global_notify_table s)\<rparr>"

definition knotify_create :: "addr option \<Rightarrow> notify_state \<Rightarrow> u64 option \<times> notify_state" where
  "knotify_create mem s =
     (case mem of
        None \<Rightarrow> (None, s)
      | Some a \<Rightarrow>
          if next_notify_handle s = NOTIFY_INVALID_HANDLE then (None, s)
          else (Some (next_notify_handle s),
                notify_insert a
                  (s\<lparr>n_objs := (n_objs s)(a \<mapsto> \<lparr>n_handle = next_notify_handle s, n_references = 1,
                                              pending = 0, n_sem = 0\<rparr>)\<rparr>)))"

definition knotify_destroy :: "u64 \<Rightarrow> notify_state \<Rightarrow> (int \<times> notify_state) option" where
  "knotify_destroy h s =
     (if h = NOTIFY_INVALID_HANDLE then Some (-1, s)
      else case knotify_find_locked h s of
        None \<Rightarrow> Some (-1, s)
      | Some a \<Rightarrow> map_option (Pair 0) (knotify_release a (notify_unlink h s)))"

definition knotify_signal_ref :: "addr \<Rightarrow> u64 \<Rightarrow> notify_state \<Rightarrow> notify_state" where
  "knotify_signal_ref a bits s =
     (if bits = 0 then s
      else n_update a (\<lambda>n. n\<lparr>pending := pending n OR bits, n_sem := n_sem n + 1\<rparr>) s)"

definition knotify_signal :: "u64 \<Rightarrow> u64 \<Rightarrow> notify_state \<Rightarrow> (int \<times> notify_state) option" where
  "knotify_signal h bits s =
     (if h = NOTIFY_INVALID_HANDLE then Some (-1, s)
      else case knotify_acquire h s of
        (None, s) \<Rightarrow> Some (-1, s)
      | (Some a, s) \<Rightarrow> map_option (Pair 0) (knotify_release a (knotify_signal_ref a bits s)))"

definition knotify_poll :: "u64 \<Rightarrow> notify_state \<Rightarrow> (u64 option \<times> notify_state) option" where
  "knotify_poll h s =
     (if h = NOTIFY_INVALID_HANDLE then Some (None, s)
      else case knotify_acquire h s of
        (None, s) \<Rightarrow> Some (None, s)
      | (Some a, s) \<Rightarrow>
          (case n_objs s a of
             None \<Rightarrow> None
           | Some n \<Rightarrow> map_option (Pair (Some (pending n))) (knotify_release a s)))"

definition knotify_ack :: "u64 \<Rightarrow> u64 \<Rightarrow> notify_state \<Rightarrow> (int \<times> notify_state) option" where
  "knotify_ack h bits s =
     (if h = NOTIFY_INVALID_HANDLE then Some (-1, s)
      else case knotify_acquire h s of
        (None, s) \<Rightarrow> Some (-1, s)
      | (Some a, s) \<Rightarrow>
          map_option (Pair 0)
            (knotify_release a (n_update a (\<lambda>n. n\<lparr>pending := pending n AND NOT bits\<rparr>) s)))"

text \<open>
  knotify_wait blocks, so it is a small machine: entry takes the reference, each round of the loop
  tests the pending bits, and a round that finds none waits for the semaphore.
\<close>

datatype wait_pc = WCheck addr u64 | WBlocked addr u64 | WDone int

definition knotify_wait_enter :: "u64 \<Rightarrow> u64 \<Rightarrow> notify_state \<Rightarrow> wait_pc \<times> notify_state" where
  "knotify_wait_enter h bits s =
     (if h = NOTIFY_INVALID_HANDLE \<or> bits = 0 then (WDone (-1), s)
      else case knotify_acquire h s of
        (None, s) \<Rightarrow> (WDone (-1), s)
      | (Some a, s) \<Rightarrow> (WCheck a bits, s))"

fun knotify_wait_step :: "wait_pc \<Rightarrow> notify_state \<Rightarrow> (wait_pc \<times> notify_state) option" where
  "knotify_wait_step (WCheck a bits) s =
     (case n_objs s a of
        None \<Rightarrow> None
      | Some n \<Rightarrow>
          if pending n AND bits \<noteq> 0 then map_option (Pair (WDone 0)) (knotify_release a s)
          else Some (WBlocked a bits, s))"
| "knotify_wait_step (WBlocked a bits) s =
     (case n_objs s a of
        None \<Rightarrow> None
      | Some n \<Rightarrow>
          if n_sem n > 0 then Some (WCheck a bits, n_update a (\<lambda>n. n\<lparr>n_sem := n_sem n - 1\<rparr>) s)
          else None)"
| "knotify_wait_step (WDone r) s = None"

section \<open>Reference counts\<close>

text \<open>
  \<open>ext a\<close> counts the references that other parts of the kernel hold on the object at \<open>a\<close>:
  bindings and operations in progress.
\<close>

definition notify_inv :: "(addr \<Rightarrow> nat) \<Rightarrow> notify_state \<Rightarrow> bool" where
  "notify_inv ext s \<longleftrightarrow>
     obj_inv (n_objs s) (global_notify_table s) (next_notify_handle s) n_handle n_references ext"

interpretation notify_reg: handle_registry global_notify_table next_notify_handle notify_insert notify_unlink
  by unfold_locales (simp_all add: notify_insert_def notify_unlink_def)

primrec release_all :: "(addr \<Rightarrow> 's \<Rightarrow> 's option) \<Rightarrow> (addr \<times> u64) list \<Rightarrow> 's \<Rightarrow> 's option" where
  "release_all release [] s = Some s"
| "release_all release (b # bs) s = Option.bind (release (fst b) s) (release_all release bs)"

text \<open>
  The contract that holders of references rely on, and what it gives them: a list of bindings can be
  signalled and released, one reference each, without ever touching a dead object.
\<close>

locale refcounted =
  fixes inv :: "(addr \<Rightarrow> nat) \<Rightarrow> 's \<Rightarrow> bool"
    and acquire :: "u64 \<Rightarrow> 's \<Rightarrow> addr option \<times> 's"
    and release :: "addr \<Rightarrow> 's \<Rightarrow> 's option"
    and signal :: "addr \<Rightarrow> u64 \<Rightarrow> 's \<Rightarrow> 's"
  assumes acquire_inv: "inv ext s \<Longrightarrow> acquire h s = (Some a, s') \<Longrightarrow> inv (ext(a := ext a + 1)) s'"
    and acquire_None: "acquire h s = (None, s') \<Longrightarrow> s' = s"
    and release_inv: "inv ext s \<Longrightarrow> ext a > 0 \<Longrightarrow> \<exists>s'. release a s = Some s' \<and> inv (ext(a := ext a - 1)) s'"
    and signal_inv: "inv ext s \<Longrightarrow> inv ext (signal a bits s)"
begin

lemma signal_all_inv: "inv ext s \<Longrightarrow> inv ext (fold (\<lambda>b. signal (fst b) (snd b)) bs s)"
  by (induction bs arbitrary: s) (simp_all add: signal_inv)

lemma release_all_inv:
  "inv ext s \<Longrightarrow> \<forall>a. count_list (map fst bs) a \<le> ext a \<Longrightarrow>
   \<exists>s'. release_all release bs s = Some s' \<and> inv (\<lambda>a. ext a - count_list (map fst bs) a) s'"
proof (induction bs arbitrary: s ext)
  case (Cons b bs)
  let ?e = "ext(fst b := ext (fst b) - 1)"
  from Cons.prems(2) have pos: "ext (fst b) > 0"
    by (metis count_list.simps(2) gr0I le_zero_eq list.simps(9) nat.simps(3) Suc_eq_plus1)
  then obtain s1 where s1: "release (fst b) s = Some s1" "inv ?e s1"
    using release_inv [OF Cons.prems(1)] by blast
  have "count_list (map fst bs) a \<le> ?e a" for a
    using Cons.prems(2) [rule_format, of a] pos by auto
  then obtain s2 where "release_all release bs s1 = Some s2" "inv (\<lambda>a. ?e a - count_list (map fst bs) a) s2"
    using Cons.IH [OF s1(2)] by blast
  moreover have "(\<lambda>a. ?e a - count_list (map fst bs) a) = (\<lambda>a. ext a - count_list (map fst (b # bs)) a)"
    by (auto simp: fun_eq_iff)
  ultimately show ?case using s1 by simp
qed simp

end

lemmas notify_inv_table = obj_inv_table [OF iffD1 [OF notify_inv_def]]
lemmas notify_inv_refs = obj_inv_refs [OF iffD1 [OF notify_inv_def]]

lemma notify_inv_live:
  assumes "notify_inv ext s" "knotify_find_locked h s = Some a"
  shows "\<exists>n. n_objs s a = Some n \<and> n_handle n = h" "registered a (global_notify_table s)" "h \<noteq> NOTIFY_INVALID_HANDLE"
  using obj_inv_live [OF assms [unfolded notify_inv_def knotify_find_locked_def]] by auto

lemma notify_inv_soft_upd:
  assumes "notify_inv ext s" "\<And>n. n_handle (f n) = n_handle n" "\<And>n. n_references (f n) = n_references n"
  shows "notify_inv ext (n_update a f s)"
  using obj_inv_soft_upd [OF assms(1) [unfolded notify_inv_def], of a f] assms(2,3)
  by (simp add: notify_inv_def n_update_def)

lemma knotify_acquire_inv:
  assumes "notify_inv ext s" "knotify_acquire h s = (Some a, s')"
  shows "notify_inv (ext(a := ext a + 1)) s'" "\<exists>n. n_objs s' a = Some n \<and> n_handle n = h"
proof -
  from assms(2) have a: "knotify_find_locked h s = Some a"
    and s': "s' = n_update a (\<lambda>n. n\<lparr>n_references := n_references n + 1\<rparr>) s"
    by (auto simp: knotify_acquire_def split: option.splits if_splits)
  from notify_inv_live(1) [OF assms(1) a] obtain n where n: "n_objs s a = Some n" "n_handle n = h" by blast
  from obj_inv_acquire [OF assms(1) [unfolded notify_inv_def] n(1)]
  show "notify_inv (ext(a := ext a + 1)) s'" unfolding s' by (simp add: notify_inv_def n_update_def)
  from n show "\<exists>n. n_objs s' a = Some n \<and> n_handle n = h" unfolding s' by (simp add: n_update_def)
qed

lemma knotify_release_inv:
  assumes "notify_inv ext s" "ext a > 0"
  shows "\<exists>s'. knotify_release a s = Some s' \<and> notify_inv (ext(a := ext a - 1)) s'"
proof -
  note inv = assms(1) [unfolded notify_inv_def]
  from obj_inv_held [OF inv assms(2)] obtain n where n: "n_objs s a = Some n" by blast
  have refs: "n_references n > 0" by (rule obj_inv_refs(2) [OF inv n])
  show ?thesis
  proof (cases "n_references n = 1")
    case True
    then show ?thesis using obj_inv_free [OF inv n True assms(2)] n
      by (simp add: knotify_release_def notify_inv_def)
  next
    case False
    with refs have "1 < n_references n" by linarith
    from obj_inv_release [OF inv assms(2) n this, of "\<lambda>n. n\<lparr>n_references := n_references n - 1\<rparr>"] n refs False
    show ?thesis by (simp add: knotify_release_def notify_inv_def n_update_def)
  qed
qed

lemma knotify_signal_ref_inv: "notify_inv ext s \<Longrightarrow> notify_inv ext (knotify_signal_ref a bits s)"
  by (simp add: knotify_signal_ref_def notify_inv_soft_upd)

interpretation nref: refcounted notify_inv knotify_acquire knotify_release knotify_signal_ref
proof unfold_locales
  show "s' = s" if "knotify_acquire h s = (None, s')" for h s s'
    using that by (auto simp: knotify_acquire_def split: option.splits if_splits)
qed (fact knotify_acquire_inv(1) knotify_release_inv knotify_signal_ref_inv)+

lemma knotify_create_inv:
  assumes "notify_inv ext s" "\<And>a. mem = Some a \<Longrightarrow> n_objs s a = None"
  shows "notify_inv ext (snd (knotify_create mem s))"
proof (cases mem)
  case (Some a)
  with assms(2) have "n_objs s a = None" by simp
  from obj_inv_create [OF assms(1) [unfolded notify_inv_def] this] assms(1) show ?thesis
    by (cases "next_notify_handle s = NOTIFY_INVALID_HANDLE")
      (simp_all add: Some knotify_create_def notify_insert_def notify_inv_def)
qed (simp add: knotify_create_def assms(1))

lemma notify_unlink_inv:
  assumes "notify_inv ext s" "knotify_find_locked h s = Some a"
  shows "notify_inv (ext(a := ext a + 1)) (notify_unlink h s)"
  using obj_inv_unlink [OF assms [unfolded notify_inv_def knotify_find_locked_def]]
  by (simp add: notify_inv_def notify_unlink_def)

lemma knotify_destroy_inv:
  assumes "notify_inv ext s"
  shows "\<exists>r s'. knotify_destroy h s = Some (r, s') \<and> notify_inv ext s'"
proof (cases "knotify_find_locked h s")
  case (Some a)
  from nref.release_inv [OF notify_unlink_inv [OF assms Some], of a]
  obtain s' where "knotify_release a (notify_unlink h s) = Some s'" "notify_inv ext s'" by auto
  with Some assms show ?thesis by (simp add: knotify_destroy_def)
qed (use assms in \<open>simp add: knotify_destroy_def\<close>)

section \<open>Operations as a labelled system\<close>

text \<open>
  A client of the subsystem is a list of operations.  The first component of the state is the list
  of references that clients hold, one entry per successful acquire.  The guards are the
  obligations of the callers: kmalloc returns an address that is not in use, and a reference is
  released once.
\<close>

datatype notify_op =
    NCreate "addr option"
  | NDestroy u64
  | NSignal u64 u64
  | NPoll u64
  | NAck u64 u64
  | NAcquire u64
  | NRelease addr
  | NSignalRef addr u64

fun notify_ok :: "notify_op \<Rightarrow> addr list \<Rightarrow> notify_state \<Rightarrow> bool" where
  "notify_ok (NCreate (Some a)) held s \<longleftrightarrow> n_objs s a = None"
| "notify_ok (NRelease a) held s \<longleftrightarrow> a \<in> set held"
| "notify_ok (NSignalRef a bits) held s \<longleftrightarrow> a \<in> set held"
| "notify_ok _ held s \<longleftrightarrow> True"

fun notify_exec :: "notify_op \<Rightarrow> addr list \<times> notify_state \<Rightarrow> (addr list \<times> notify_state) option" where
  "notify_exec (NCreate mem) (held, s) = Some (held, snd (knotify_create mem s))"
| "notify_exec (NDestroy h) (held, s) = map_option (\<lambda>r. (held, snd r)) (knotify_destroy h s)"
| "notify_exec (NSignal h bits) (held, s) = map_option (\<lambda>r. (held, snd r)) (knotify_signal h bits s)"
| "notify_exec (NPoll h) (held, s) = map_option (\<lambda>r. (held, snd r)) (knotify_poll h s)"
| "notify_exec (NAck h bits) (held, s) = map_option (\<lambda>r. (held, snd r)) (knotify_ack h bits s)"
| "notify_exec (NAcquire h) (held, s) =
     (case knotify_acquire h s of (None, s) \<Rightarrow> Some (held, s) | (Some a, s) \<Rightarrow> Some (a # held, s))"
| "notify_exec (NRelease a) (held, s) = map_option (\<lambda>s. (remove1 a held, s)) (knotify_release a s)"
| "notify_exec (NSignalRef a bits) (held, s) = Some (held, knotify_signal_ref a bits s)"

fun notify_run :: "notify_op list \<Rightarrow> addr list \<times> notify_state \<Rightarrow> (addr list \<times> notify_state) option" where
  "notify_run [] st = Some st"
| "notify_run (op # ops) st =
     (if notify_ok op (fst st) (snd st) then Option.bind (notify_exec op st) (notify_run ops)
      else notify_run ops st)"

lemma acquire_release_inv:
  assumes "notify_inv ext s" "knotify_acquire h s = (Some a, s1)"
    and "\<And>e. notify_inv e s1 \<Longrightarrow> notify_inv e s2"
  shows "\<exists>s'. knotify_release a s2 = Some s' \<and> notify_inv ext s'"
  using knotify_release_inv [OF assms(3) [OF knotify_acquire_inv(1) [OF assms(1,2)]], of a] by simp

lemma notify_inv_acquired:
  assumes "notify_inv ext s" "knotify_acquire h s = (Some a, s1)"
  obtains n where "n_objs s1 a = Some n" "n_handle n = h"
  using knotify_acquire_inv(2) [OF assms] by blast

lemma knotify_signal_inv: "notify_inv ext s \<Longrightarrow> \<exists>r s'. knotify_signal h bits s = Some (r, s') \<and> notify_inv ext s'"
  using nref.acquire_None [of h s] acquire_release_inv [of ext s h, OF _ _ nref.signal_inv]
  by (fastforce simp: knotify_signal_def split: prod.splits option.splits)

lemma knotify_ack_inv: "notify_inv ext s \<Longrightarrow> \<exists>r s'. knotify_ack h bits s = Some (r, s') \<and> notify_inv ext s'"
  using nref.acquire_None [of h s] acquire_release_inv [of ext s h, OF _ _ notify_inv_soft_upd]
  by (fastforce simp: knotify_ack_def split: prod.splits option.splits)

lemma knotify_poll_inv: "notify_inv ext s \<Longrightarrow> \<exists>r s'. knotify_poll h s = Some (r, s') \<and> notify_inv ext s'"
  using nref.acquire_None [of h s] acquire_release_inv [of ext s h] notify_inv_acquired [of ext s h]
  by (fastforce simp: knotify_poll_def split: prod.splits option.splits)

lemma count_list_remove1: "count_list (remove1 a xs) b = (if b = a then count_list xs b - 1 else count_list xs b)"
  by (induction xs) (auto simp: count_list_0_iff Suc_diff_Suc split: if_splits)

lemma count_list_pos: "a \<in> set xs \<Longrightarrow> 0 < count_list xs a"
  using count_list_0_iff [of xs a] by auto

lemma count_list_Nil: "count_list [] = (\<lambda>_. 0)"
  by (rule ext) simp

abbreviation refs_of :: "addr list \<Rightarrow> (addr \<Rightarrow> nat) \<Rightarrow> addr \<Rightarrow> nat" where
  "refs_of held e \<equiv> \<lambda>a. count_list held a + e a"

lemma refs_of_Cons: "refs_of (a # held) e = (refs_of held e)(a := refs_of held e a + 1)"
  by auto

lemma refs_of_remove1: "a \<in> set held \<Longrightarrow>
    refs_of (remove1 a held) e = (refs_of held e)(a := refs_of held e a - 1)"
  using count_list_pos [of a held] by (auto simp: count_list_remove1)

text \<open>Every operation succeeds and keeps the counts exact, whatever other references \<open>e\<close> exist.\<close>

lemma notify_exec_inv:
  assumes inv: "notify_inv (refs_of held e) s" and ok: "notify_ok op held s"
  shows "\<exists>held' s'. notify_exec op (held, s) = Some (held', s') \<and> notify_inv (refs_of held' e) s'"
proof (cases op)
  case (NCreate mem)
  with ok have "\<And>a. mem = Some a \<Longrightarrow> n_objs s a = None" by (cases mem) auto
  then show ?thesis using knotify_create_inv [OF inv] by (simp add: NCreate)
next
  case (NDestroy h) then show ?thesis using knotify_destroy_inv [OF inv, of h] by auto
next
  case (NSignal h b) then show ?thesis using knotify_signal_inv [OF inv, of h b] by auto
next
  case (NPoll h) then show ?thesis using knotify_poll_inv [OF inv, of h] by auto
next
  case (NAck h b) then show ?thesis using knotify_ack_inv [OF inv, of h b] by auto
next
  case (NAcquire h)
  then show ?thesis
    using nref.acquire_None [of h s] nref.acquire_inv [OF inv, of h, folded refs_of_Cons] inv
    by (cases "knotify_acquire h s") (auto split: option.splits)
next
  case (NRelease a)
  with ok have a: "a \<in> set held" "refs_of held e a > 0" using count_list_pos by fastforce+
  from nref.release_inv [OF inv a(2), folded refs_of_remove1 [OF a(1)]] show ?thesis
    unfolding NRelease notify_exec.simps by (metis option.simps(9))
next
  case (NSignalRef a b) then show ?thesis using nref.signal_inv [OF inv] by auto
qed

lemma notify_run_inv:
  "notify_inv (refs_of held e) s \<Longrightarrow>
   \<exists>held' s'. notify_run ops (held, s) = Some (held', s') \<and> notify_inv (refs_of held' e) s'"
proof (induction ops arbitrary: held s)
  case (Cons op ops)
  then show ?case
    using notify_exec_inv [OF Cons.prems, of op] by (cases "notify_ok op held s") fastforce+
qed simp

lemma knotify_init_inv: "notify_inv (\<lambda>_. 0) knotify_init"
  by (simp add: notify_inv_def knotify_init_def obj_inv_init)

lemma notify_inv_no_leak: "notify_inv (\<lambda>_. 0) s \<Longrightarrow> global_notify_table s = [] \<Longrightarrow> n_objs s = (\<lambda>_. None)"
  using obj_inv_no_leak [of "n_objs s"] by (auto simp: notify_inv_def fun_eq_iff)

text \<open>
  Property C9.  Starting from knotify_init, no sequence of creations, destructions, signals, polls,
  acknowledgements, acquisitions and releases ever touches a freed object or releases a zero count
  (the run is defined), reference counts stay exact, and once every handle is destroyed and every
  reference given back, no object is left.
\<close>

theorem notify_refcounts_exact:
  "\<exists>held s. notify_run ops ([], knotify_init) = Some (held, s) \<and> notify_inv (count_list held) s \<and>
     (held = [] \<longrightarrow> global_notify_table s = [] \<longrightarrow> n_objs s = (\<lambda>_. None))"
proof -
  obtain held s where run: "notify_run ops ([], knotify_init) = Some (held, s)" "notify_inv (refs_of held (\<lambda>_. 0)) s"
    using notify_run_inv [of "[]" "\<lambda>_. 0" knotify_init ops] knotify_init_inv by auto
  then have inv: "notify_inv (count_list held) s" by simp
  moreover have "n_objs s = (\<lambda>_. None)" if "held = []" "global_notify_table s = []"
    using notify_inv_no_leak [of s] inv that by (simp add: count_list_Nil)
  ultimately show ?thesis using run(1) by blast
qed

theorem notify_refcounts_exact_witness:
  "\<exists>held s. notify_run [NCreate (Some 7), NAcquire 1, NDestroy 1, NSignalRef 7 4, NRelease 7] ([], knotify_init) =
       Some (held, s) \<and> held = [] \<and> global_notify_table s = [] \<and> n_objs s = (\<lambda>_. None)"
proof -
  have run: "map_option (\<lambda>(held, s). (held, global_notify_table s))
      (notify_run [NCreate (Some 7), NAcquire 1, NDestroy 1, NSignalRef 7 4, NRelease 7] ([], knotify_init)) =
      Some ([], [])"
    by code_simp
  then show ?thesis
    using notify_refcounts_exact [of "[NCreate (Some 7), NAcquire 1, NDestroy 1, NSignalRef 7 4, NRelease 7]"]
    by auto
qed

section \<open>Signal, poll and acknowledge\<close>

definition pending_of :: "u64 \<Rightarrow> notify_state \<Rightarrow> u64 option" where
  "pending_of h s = Option.bind (knotify_find_locked h s) (\<lambda>a. map_option pending (n_objs s a))"

lemma acquire_upd_release:
  assumes "notify_inv ext s" "knotify_find_locked h s = Some a"
    and "\<And>n. n_references (f n) = n_references n" "\<And>n r. f (n\<lparr>n_references := r\<rparr>) = (f n)\<lparr>n_references := r\<rparr>"
  shows "\<exists>s1. knotify_acquire h s = (Some a, s1) \<and> knotify_release a (n_update a f s1) = Some (n_update a f s) \<and>
     (\<exists>n. n_objs s a = Some n \<and> n_objs s1 a = Some (n\<lparr>n_references := n_references n + 1\<rparr>))"
proof -
  obtain n where n: "n_objs s a = Some n" using notify_inv_live [OF assms(1,2)] by blast
  then have "0 < n_references n" by (rule notify_inv_refs(2) [OF assms(1)])
  moreover have eq: "(f n)\<lparr>n_references := n_references n\<rparr> = f n" using assms(4) [of "n_references n" n] by simp
  ultimately show ?thesis using n notify_inv_live(3) [OF assms(1,2)] assms
    by (simp add: knotify_acquire_def knotify_release_def n_update_def eq)
qed

lemma knotify_signal_live:
  assumes "notify_inv ext s" "knotify_find_locked h s = Some a"
  shows "knotify_signal h bits s = Some (0, knotify_signal_ref a bits s)"
proof -
  let ?f = "if bits = 0 then id else (\<lambda>n. n\<lparr>pending := pending n OR bits, n_sem := n_sem n + 1\<rparr>)"
  have upd: "knotify_signal_ref a bits = n_update a ?f"
    by (rule ext) (simp add: knotify_signal_ref_def n_update_def fun_upd_idem option.map_id)
  obtain s1 where "knotify_acquire h s = (Some a, s1)" "knotify_release a (n_update a ?f s1) = Some (n_update a ?f s)"
    using acquire_upd_release [OF assms, of ?f] by (cases "bits = 0") auto
  then show ?thesis
    unfolding upd [symmetric] using notify_inv_live(3) [OF assms] by (simp add: knotify_signal_def)
qed

lemma knotify_ack_live:
  assumes "notify_inv ext s" "knotify_find_locked h s = Some a"
  shows "knotify_ack h bits s = Some (0, n_update a (\<lambda>n. n\<lparr>pending := pending n AND NOT bits\<rparr>) s)"
  using acquire_upd_release [OF assms, of "\<lambda>n. n\<lparr>pending := pending n AND NOT bits\<rparr>"] notify_inv_live(3) [OF assms]
  by (auto simp: knotify_ack_def)

lemma knotify_poll_live:
  assumes "notify_inv ext s" "knotify_find_locked h s = Some a" "n_objs s a = Some n"
  shows "knotify_poll h s = Some (Some (pending n), s)"
proof -
  have "n_update a id s = s" for s by (simp add: n_update_def fun_upd_idem option.map_id)
  then show ?thesis using acquire_upd_release [OF assms(1,2), of id] notify_inv_live(3) [OF assms(1,2)] assms(3)
    by (auto simp: knotify_poll_def)
qed

text \<open>
  Property C11.  On a live handle, signal sets exactly the given bits, poll reads them and changes
  nothing, and ack clears exactly the given bits; each of them leaves every other object alone.
\<close>

theorem notify_signal_poll_ack:
  assumes "notify_inv ext s" "knotify_find_locked h s = Some a" "n_objs s a = Some n"
  shows "\<exists>s1 s2. knotify_signal h bits s = Some (0, s1) \<and>
           knotify_poll h s1 = Some (Some (pending n OR bits), s1) \<and>
           knotify_ack h acked s1 = Some (0, s2) \<and>
           knotify_poll h s2 = Some (Some ((pending n OR bits) AND NOT acked), s2) \<and>
           (\<forall>b. b \<noteq> a \<longrightarrow> n_objs s2 b = n_objs s b)"
proof -
  let ?s1 = "knotify_signal_ref a bits s"
  let ?s2 = "n_update a (\<lambda>n. n\<lparr>pending := pending n AND NOT acked\<rparr>) ?s1"
  have inv1: "notify_inv ext ?s1" using assms(1) by (rule nref.signal_inv)
  have inv2: "notify_inv ext ?s2" by (rule notify_inv_soft_upd [OF inv1]) simp_all
  have find: "knotify_find_locked h ?s1 = Some a" "knotify_find_locked h ?s2 = Some a"
    using assms(2) by (simp_all add: knotify_find_locked_def knotify_signal_ref_def n_update_def)
  obtain n1 where n1: "n_objs ?s1 a = Some n1" "pending n1 = pending n OR bits"
    using assms(3) by (cases "bits = 0") (simp_all add: knotify_signal_ref_def n_update_def)
  then have n2: "n_objs ?s2 a = Some (n1\<lparr>pending := pending n1 AND NOT acked\<rparr>)"
    by (simp add: n_update_def)
  have "n_objs ?s2 b = n_objs s b" if "b \<noteq> a" for b
    using that by (simp add: knotify_signal_ref_def n_update_def)
  then show ?thesis
    using knotify_signal_live [OF assms(1,2)] knotify_poll_live [OF inv1 find(1) n1(1)]
      knotify_ack_live [OF inv1 find(1)] knotify_poll_live [OF inv2 find(2) n2] n1(2)
    by simp
qed

theorem notify_signal_poll_ack_witness:
  "\<exists>s1. knotify_signal 1 6 (snd (knotify_create (Some 7) knotify_init)) = Some (0, s1) \<and>
        knotify_poll 1 s1 = Some (Some 6, s1)"
proof -
  let ?s = "snd (knotify_create (Some 7) knotify_init)"
  have inv: "notify_inv (\<lambda>_. 0) ?s" by (rule knotify_create_inv [OF knotify_init_inv]) (simp add: knotify_init_def)
  have "knotify_find_locked 1 ?s = Some 7" "n_objs ?s 7 = Some \<lparr>n_handle = 1, n_references = 1, pending = 0, n_sem = 0\<rparr>"
    by code_simp+
  from notify_signal_poll_ack [OF inv this, of 6 0] show ?thesis by auto
qed

section \<open>Waiting\<close>

text \<open>
  One thread in knotify_wait beside arbitrary other operations: the state is the waiter's program
  counter, the other references, and the subsystem.
\<close>

fun pc_refs :: "wait_pc \<Rightarrow> addr \<Rightarrow> nat" where
  "pc_refs (WCheck a bits) b = (if b = a then 1 else 0)"
| "pc_refs (WBlocked a bits) b = (if b = a then 1 else 0)"
| "pc_refs (WDone r) b = 0"

inductive wait_step :: "wait_pc \<times> addr list \<times> notify_state \<Rightarrow> wait_pc \<times> addr list \<times> notify_state \<Rightarrow> bool" where
  other: "notify_ok op held s \<Longrightarrow> notify_exec op (held, s) = Some (held', s') \<Longrightarrow> wait_step (pc, held, s) (pc, held', s')"
| enter: "knotify_wait_enter h bits s = (pc', s') \<Longrightarrow> wait_step (WDone r, held, s) (pc', held, s')"
| wait: "knotify_wait_step pc s = Some (pc', s') \<Longrightarrow> wait_step (pc, held, s) (pc', held, s')"

definition wakeup_ok :: "addr \<Rightarrow> u64 \<Rightarrow> notify_state \<Rightarrow> bool" where
  "wakeup_ok a bits s \<longleftrightarrow> (case n_objs s a of None \<Rightarrow> True | Some n \<Rightarrow> pending n AND bits \<noteq> 0 \<longrightarrow> 0 < n_sem n)"

fun pc_ok :: "wait_pc \<Rightarrow> notify_state \<Rightarrow> bool" where
  "pc_ok (WBlocked a bits) s \<longleftrightarrow> wakeup_ok a bits s"
| "pc_ok _ s \<longleftrightarrow> True"

lemma wakeup_ok_upd:
  assumes "wakeup_ok a bits s"
    and "\<And>n. (pending n AND bits \<noteq> 0 \<longrightarrow> 0 < n_sem n) \<Longrightarrow> pending (f n) AND bits \<noteq> 0 \<Longrightarrow> 0 < n_sem (f n)"
  shows "wakeup_ok a bits (n_update b f s)"
proof (cases "n_objs s a")
  case None then show ?thesis by (cases "a = b") (simp_all add: wakeup_ok_def n_update_def)
next
  case (Some n)
  then have "n_objs (n_update b f s) a = Some (if a = b then f n else n)"
    by (cases "a = b") (simp_all add: n_update_def)
  moreover have "pending n AND bits \<noteq> 0 \<longrightarrow> 0 < n_sem n" using assms(1) Some by (simp add: wakeup_ok_def)
  ultimately show ?thesis using assms(2) [of n] by (simp add: wakeup_ok_def)
qed

lemma wakeup_ok_same:
  assumes "wakeup_ok a bits s" "\<And>n. pending (f n) = pending n" "\<And>n. n_sem n \<le> n_sem (f n)"
  shows "wakeup_ok a bits (n_update b f s)"
proof (rule wakeup_ok_upd [OF assms(1)])
  fix n assume "pending n AND bits \<noteq> 0 \<longrightarrow> 0 < n_sem n" "pending (f n) AND bits \<noteq> 0"
  with assms(2) have "0 < n_sem n" by simp
  with assms(3) [of n] show "0 < n_sem (f n)" by linarith
qed

lemma wakeup_ok_acquire: "wakeup_ok a bits s \<Longrightarrow> knotify_acquire h s = (r, s') \<Longrightarrow> wakeup_ok a bits s'"
  using wakeup_ok_same [of a bits s "\<lambda>n. n\<lparr>n_references := n_references n + 1\<rparr>"]
  by (simp add: knotify_acquire_def split: if_splits option.splits) auto

lemma wakeup_ok_free: "wakeup_ok a bits s \<Longrightarrow> wakeup_ok a bits (s\<lparr>n_objs := (n_objs s)(b := None)\<rparr>)"
  by (simp add: wakeup_ok_def)

lemma wakeup_ok_release: "wakeup_ok a bits s \<Longrightarrow> knotify_release b s = Some s' \<Longrightarrow> wakeup_ok a bits s'"
  using wakeup_ok_same [of a bits s "\<lambda>n. n\<lparr>n_references := n_references n - 1\<rparr>" b] wakeup_ok_free [of a bits s b]
  by (auto simp: knotify_release_def split: if_splits option.splits)

lemma wakeup_ok_signal: "wakeup_ok a bits s \<Longrightarrow> wakeup_ok a bits (knotify_signal_ref b bs s)"
  unfolding knotify_signal_ref_def by (cases "bs = 0") (simp_all add: wakeup_ok_upd)

lemma and_not_nonzero: "(p AND NOT q) AND r \<noteq> 0 \<Longrightarrow> p AND r \<noteq> 0" for p q r :: u64
  by (auto simp: bit_eq_iff bit_simps)

lemma wakeup_ok_unlink: "wakeup_ok a bits s \<Longrightarrow> wakeup_ok a bits (notify_unlink h s)"
  by (simp add: wakeup_ok_def notify_unlink_def)

lemma wakeup_ok_create: "wakeup_ok a bits s \<Longrightarrow> wakeup_ok a bits (snd (knotify_create mem s))"
  by (simp add: wakeup_ok_def knotify_create_def notify_insert_def split: option.splits)

lemma wakeup_ok_ack_upd:
  assumes "wakeup_ok a bits s"
  shows "wakeup_ok a bits (n_update b (\<lambda>n. n\<lparr>pending := pending n AND NOT acked\<rparr>) s)"
proof (rule wakeup_ok_upd [OF assms])
  fix n :: notify_t
  assume "pending n AND bits \<noteq> 0 \<longrightarrow> 0 < n_sem n" "pending (n\<lparr>pending := pending n AND NOT acked\<rparr>) AND bits \<noteq> 0"
  with and_not_nonzero [of "pending n" acked bits]
  show "0 < n_sem (n\<lparr>pending := pending n AND NOT acked\<rparr>)" by simp
qed

lemma acquire_release_wakeup:
  assumes "wakeup_ok a bits s" "knotify_acquire h s = (Some b, s1)" "knotify_release b s2 = Some s'"
    and "wakeup_ok a bits s1 \<Longrightarrow> wakeup_ok a bits s2"
  shows "wakeup_ok a bits s'"
  using assms wakeup_ok_acquire wakeup_ok_release by blast

lemma wakeup_ok_exec:
  assumes "wakeup_ok a bits s" "notify_exec op (held, s) = Some (held', s')"
  shows "wakeup_ok a bits s'"
proof (cases op)
  case (NCreate mem) with assms show ?thesis using wakeup_ok_create by auto
next
  case (NDestroy h)
  with assms show ?thesis using wakeup_ok_release [OF wakeup_ok_unlink [OF assms(1)]]
    by (auto simp: knotify_destroy_def split: if_splits option.splits)
next
  case (NSignal h b)
  with assms show ?thesis using acquire_release_wakeup [OF assms(1) _ _ wakeup_ok_signal] nref.acquire_None [of h s]
    by (auto simp: knotify_signal_def split: if_splits prod.splits option.splits)
next
  case (NPoll h)
  with assms show ?thesis using acquire_release_wakeup [OF assms(1)] nref.acquire_None [of h s]
    by (auto simp: knotify_poll_def split: if_splits prod.splits option.splits)
next
  case (NAck h b)
  with assms show ?thesis using acquire_release_wakeup [OF assms(1) _ _ wakeup_ok_ack_upd] nref.acquire_None [of h s]
    by (auto simp: knotify_ack_def split: if_splits prod.splits option.splits)
next
  case (NAcquire h)
  with assms show ?thesis using wakeup_ok_acquire [OF assms(1)]
    by (auto split: prod.splits option.splits)
next
  case (NRelease b) with assms show ?thesis using wakeup_ok_release [OF assms(1)] by auto
next
  case (NSignalRef b bs) with assms show ?thesis using wakeup_ok_signal by auto
qed

text \<open>
  The invariant of the system with one waiter: counts are exact with the waiter's own reference, and
  a waiter that blocks has no pending bit it waits for unless the semaphore is up.
\<close>

definition wait_inv :: "wait_pc \<times> addr list \<times> notify_state \<Rightarrow> bool" where
  "wait_inv st \<longleftrightarrow> (case st of (pc, held, s) \<Rightarrow> notify_inv (refs_of held (pc_refs pc)) s \<and> pc_ok pc s)"

lemma pc_refs_swap: "refs_of held (pc_refs (WBlocked a bits)) = refs_of held (pc_refs (WCheck a bits))"
  by (simp add: fun_eq_iff)

lemma pc_refs_enter: "refs_of held (pc_refs (WCheck a bits)) =
    (refs_of held (pc_refs (WDone r)))(a := refs_of held (pc_refs (WDone r)) a + 1)"
  by (simp add: fun_eq_iff)

lemma pc_refs_leave: "refs_of held (pc_refs (WDone r)) =
    (refs_of held (pc_refs (WCheck a bits)))(a := refs_of held (pc_refs (WCheck a bits)) a - 1)"
  by (simp add: fun_eq_iff)

lemma wait_enter_inv:
  assumes "wait_inv (WDone r, held, s)" "knotify_wait_enter h bits s = (pc', s')"
  shows "wait_inv (pc', held, s')"
proof (cases "h = NOTIFY_INVALID_HANDLE \<or> bits = 0")
  case False
  from assms(1) have inv: "notify_inv (refs_of held (pc_refs (WDone r))) s" by (simp add: wait_inv_def)
  obtain q s1 where acq: "knotify_acquire h s = (q, s1)" by fastforce
  show ?thesis
  proof (cases q)
    case None
    with acq nref.acquire_None [of h s s1] assms False show ?thesis
      by (auto simp: knotify_wait_enter_def wait_inv_def)
  next
    case (Some a)
    with nref.acquire_inv [OF inv, of h a s1] acq
    have "notify_inv (refs_of held (pc_refs (WCheck a bits))) s1" unfolding pc_refs_enter [of held a bits r] by blast
    with Some acq assms False show ?thesis by (auto simp: knotify_wait_enter_def wait_inv_def)
  qed
qed (use assms in \<open>auto simp: knotify_wait_enter_def wait_inv_def\<close>)

lemma wait_step_inv_pc:
  assumes "wait_inv (pc, held, s)" "knotify_wait_step pc s = Some (pc', s')"
  shows "wait_inv (pc', held, s')"
proof (cases pc)
  case (WCheck a bits)
  with assms obtain n where n: "n_objs s a = Some n" by (auto split: option.splits)
  from assms(1) WCheck have inv: "notify_inv (refs_of held (pc_refs (WCheck a bits))) s" by (simp add: wait_inv_def)
  show ?thesis
  proof (cases "pending n AND bits = 0")
    case True
    with assms(2) WCheck n have "pc' = WBlocked a bits" "s' = s" by auto
    with inv True n show ?thesis by (simp only: wait_inv_def prod.case pc_refs_swap pc_ok.simps) (simp add: wakeup_ok_def)
  next
    case False
    with assms(2) WCheck n have "pc' = WDone 0" "knotify_release a s = Some s'" by auto
    moreover have "0 < refs_of held (pc_refs (WCheck a bits)) a" by simp
    ultimately show ?thesis using nref.release_inv [OF inv, of a, folded pc_refs_leave [where r = 0]]
      by (simp add: wait_inv_def)
  qed
next
  case (WBlocked a bits)
  with assms obtain n where n: "n_objs s a = Some n" by (auto split: option.splits)
  with assms(2) WBlocked have "pc' = WCheck a bits" "s' = n_update a (\<lambda>n. n\<lparr>n_sem := n_sem n - 1\<rparr>) s"
    by (auto split: if_splits)
  moreover have "notify_inv (refs_of held (pc_refs (WCheck a bits))) s"
    using assms(1) by (simp only: WBlocked wait_inv_def prod.case pc_refs_swap)
  ultimately show ?thesis using notify_inv_soft_upd [of _ s "\<lambda>n. n\<lparr>n_sem := n_sem n - 1\<rparr>" a]
    by (simp add: wait_inv_def)
qed (use assms in simp)

lemma wait_step_inv: "wait_step st st' \<Longrightarrow> wait_inv st \<Longrightarrow> wait_inv st'"
proof (induction rule: wait_step.induct)
  case (other op held s held' s' pc)
  then have "notify_inv (refs_of held' (pc_refs pc)) s'"
    using notify_exec_inv [of held "pc_refs pc" s op] by (auto simp: wait_inv_def)
  moreover have "pc_ok pc s'" using other wakeup_ok_exec by (cases pc) (auto simp: wait_inv_def)
  ultimately show ?case by (simp add: wait_inv_def)
next
  case (enter h bits s pc' s' r held) then show ?case using wait_enter_inv by blast
next
  case (wait pc s pc' s' held) then show ?case using wait_step_inv_pc by blast
qed

lemma wait_inv_reachable: "wait_step\<^sup>*\<^sup>* st st' \<Longrightarrow> wait_inv st \<Longrightarrow> wait_inv st'"
  by (induction rule: rtranclp_induct) (auto intro: wait_step_inv)


lemma wait_step_others:
  "notify_run ops (held, s) = Some (held', s') \<Longrightarrow> wait_step\<^sup>*\<^sup>* (pc, held, s) (pc, held', s')"
proof (induction ops arbitrary: held s)
  case (Cons op ops)
  show ?case
  proof (cases "notify_ok op held s")
    case True
    with Cons.prems obtain h1 s1 where "notify_exec op (held, s) = Some (h1, s1)" "notify_run ops (h1, s1) = Some (held', s')"
      by (auto simp: bind_eq_Some_conv)
    then show ?thesis using Cons.IH wait_step.other [OF True] by (meson converse_rtranclp_into_rtranclp)
  next
    case False with Cons show ?thesis by simp
  qed
qed simp

definition stolen :: "(notify_state \<times> wait_pc \<times> wait_pc) option" where
  \<comment> \<open>two threads wait for bits 1 and 2; bit 2 is signalled; the first thread takes the post\<close>
  "stolen =
     (let s0 = snd (knotify_create (Some 7) knotify_init);
          (w1, s1) = knotify_wait_enter 1 1 s0;
          (w2, s2) = knotify_wait_enter 1 2 s1 in
      Option.bind (knotify_wait_step w1 s2) (\<lambda>(w1, s3).
      Option.bind (knotify_wait_step w2 s3) (\<lambda>(w2, s4).
      Option.bind (knotify_signal 1 2 s4) (\<lambda>(_, s5).
      Option.bind (knotify_wait_step w1 s5) (\<lambda>(w1, s6).
      map_option (\<lambda>(w1, s7). (s7, w1, w2)) (knotify_wait_step w1 s6))))))"



end
