(* ===== verification/Kipc.thy ===== *)
theory Kipc
  imports Knotify "HOL-Library.Monad_Syntax"
begin

text \<open>
  IPC endpoints (src/kernel/subsystems/kipc.c): the ring buffer of an endpoint, its lifetime, publishers
  and subscribers, notification bindings, and the operations that do not block.  Endpoints live in
  an explicit store, as operations keep pointers to them across kipc_destroy; \<open>None\<close> is a use of a
  freed object.  A section between lock and unlock of an endpoint is one definition, so that the
  blocking operations of \<open>Kipc_Protocol\<close> are built from the same parts.  The field
  \<^verbatim>\<open>owner\<close> is never read or written and is left out.
\<close>

section \<open>Data\<close>

datatype ipc_message_type_t = IPC_MSGTYPE_SEND

record ipc_message_t =
  m_type :: ipc_message_type_t
  sender_tid :: u64
  words :: "u64 list"

datatype ipc_endpoint_type_t = IPC_ENDPOINT_NORMAL | IPC_ENDPOINT_PUBLISHER | IPC_ENDPOINT_SUBSCRIBER

datatype ipc_status_t =
    IPC_OK | IPC_ERR_INVALID | IPC_ERR_NOT_FOUND | IPC_ERR_PERMISSION | IPC_ERR_ENDPOINT_CLOSED
  | IPC_ERR_CALLER_GONE | IPC_ERR_RECEIVER_GONE | IPC_ERR_CANCELLED | IPC_ERR_NO_MEMORY
  | IPC_ERR_FAILED_CAP_CREATE

abbreviation IPC_QUEUE_CAPACITY :: nat where "IPC_QUEUE_CAPACITY \<equiv> 64"
abbreviation IPC_INVALID_HANDLE :: u64 where "IPC_INVALID_HANDLE \<equiv> UINT64_MAX"

type_synonym ipc_notify_binding_t = "addr \<times> u64"

record ipc_endpoint_t =
  e_handle :: u64
  ep_type :: ipc_endpoint_type_t
  queue :: "ipc_message_t list"
  queue_head :: nat
  queue_tail :: nat
  queue_count :: nat
  sender_sem :: nat
  receiver_sem :: nat
  e_references :: nat
  is_shutting_down :: bool
  waiting_senders :: nat
  waiting_receivers :: nat
  subscribers :: "u64 list"
  notify_bindings :: "ipc_notify_binding_t list"

record ipc_state =
  eps :: "addr \<Rightarrow> ipc_endpoint_t option"
  endpoints :: "(u64, addr) uthash"
  next_handle :: u64
  notifications :: notify_state

section \<open>The queue of an endpoint\<close>

definition kipc_queue_push :: "ipc_endpoint_t \<Rightarrow> ipc_message_t \<Rightarrow> ipc_endpoint_t option" where
  "kipc_queue_push ep m =
     (if queue_count ep = IPC_QUEUE_CAPACITY then None
      else Some (ep\<lparr>queue := (queue ep)[queue_tail ep := m],
                    queue_tail := (queue_tail ep + 1) mod IPC_QUEUE_CAPACITY,
                    queue_count := queue_count ep + 1\<rparr>))"

definition kipc_queue_pop :: "ipc_endpoint_t \<Rightarrow> (ipc_message_t \<times> ipc_endpoint_t) option" where
  "kipc_queue_pop ep =
     (if queue_count ep = 0 then None
      else Some (queue ep ! queue_head ep,
                 ep\<lparr>queue_head := (queue_head ep + 1) mod IPC_QUEUE_CAPACITY,
                    queue_count := queue_count ep - 1\<rparr>))"

section \<open>Bindings, references, registry\<close>

definition kipc_signal_notify_bindings_locked :: "ipc_notify_binding_t list \<Rightarrow> notify_state \<Rightarrow> notify_state" where
  "kipc_signal_notify_bindings_locked bs = fold (\<lambda>b. knotify_signal_ref (fst b) (snd b)) bs"

definition kipc_free_notify_bindings :: "ipc_notify_binding_t list \<Rightarrow> ipc_state \<Rightarrow> ipc_state option" where
  "kipc_free_notify_bindings bs s =
     map_option (\<lambda>n. s\<lparr>notifications := n\<rparr>) (release_all knotify_release bs (notifications s))"

definition e_update :: "addr \<Rightarrow> (ipc_endpoint_t \<Rightarrow> ipc_endpoint_t) \<Rightarrow> ipc_state \<Rightarrow> ipc_state" where
  "e_update a f s = s\<lparr>eps := (eps s)(a := map_option f (eps s a))\<rparr>"

definition kipc_acquire :: "u64 \<Rightarrow> ipc_state \<Rightarrow> addr option \<times> ipc_state" where
  "kipc_acquire h s =
     (case HASH_FIND h (endpoints s) of
        None \<Rightarrow> (None, s)
      | Some a \<Rightarrow> (Some a, e_update a (\<lambda>e. e\<lparr>e_references := e_references e + 1\<rparr>) s))"

definition kipc_release :: "addr \<Rightarrow> ipc_state \<Rightarrow> ipc_state option" where
  \<comment> \<open>a count of zero would wrap around: a fault\<close>
  "kipc_release a s =
     (case eps s a of
        None \<Rightarrow> None
      | Some e \<Rightarrow>
          if e_references e = 0 then None
          else if is_shutting_down e \<and> e_references e - 1 = 0 then Some (s\<lparr>eps := (eps s)(a := None)\<rparr>)
          else Some (e_update a (\<lambda>e. e\<lparr>e_references := e_references e - 1\<rparr>) s))"

definition kipc_init :: "notify_state \<Rightarrow> ipc_state" where
  "kipc_init n = \<lparr>eps = (\<lambda>_. None), endpoints = [], next_handle = 1, notifications = n\<rparr>"

definition blank_message :: ipc_message_t where
  "blank_message = \<lparr>m_type = IPC_MSGTYPE_SEND, sender_tid = 0, words = [0, 0, 0, 0, 0]\<rparr>"

definition new_endpoint :: "u64 \<Rightarrow> ipc_endpoint_t" where
  "new_endpoint h =
     \<lparr>e_handle = h, ep_type = IPC_ENDPOINT_NORMAL, queue = replicate IPC_QUEUE_CAPACITY blank_message,
      queue_head = 0, queue_tail = 0, queue_count = 0, sender_sem = 0, receiver_sem = 0,
      e_references = 1, is_shutting_down = False, waiting_senders = 0, waiting_receivers = 0,
      subscribers = [], notify_bindings = []\<rparr>"

definition ipc_insert :: "addr \<Rightarrow> ipc_state \<Rightarrow> ipc_state" where
  "ipc_insert a s = s\<lparr>endpoints := HASH_ADD (next_handle s) a (endpoints s), next_handle := next_handle s + 1\<rparr>"

definition ipc_unlink :: "u64 \<Rightarrow> ipc_state \<Rightarrow> ipc_state" where
  "ipc_unlink h s = s\<lparr>endpoints := HASH_DEL h (endpoints s)\<rparr>"

definition kipc_create :: "addr option \<Rightarrow> ipc_state \<Rightarrow> (ipc_status_t + u64) \<times> ipc_state" where
  "kipc_create mem s =
     (case mem of
        None \<Rightarrow> (Inl IPC_ERR_NO_MEMORY, s)
      | Some a \<Rightarrow> (Inr (next_handle s),
                   ipc_insert a (s\<lparr>eps := (eps s)(a \<mapsto> new_endpoint (next_handle s))\<rparr>)))"

definition kipc_create_publisher :: "addr option \<Rightarrow> ipc_state \<Rightarrow> ((ipc_status_t + u64) \<times> ipc_state) option" where
  "kipc_create_publisher mem s =
     (case kipc_create mem s of
        (Inl e, s) \<Rightarrow> Some (Inl e, s)
      | (Inr h, s) \<Rightarrow>
          (case kipc_acquire h s of
             (None, s) \<Rightarrow> Some (Inl IPC_ERR_INVALID, s)
           | (Some a, s) \<Rightarrow>
               do { s \<leftarrow> kipc_release a (e_update a (\<lambda>e. e\<lparr>ep_type := IPC_ENDPOINT_PUBLISHER\<rparr>) s);
                    Some (Inr h, s) }))"

text \<open>
  kipc_destroy: the section under both locks detaches the endpoint and reads how many waiters to
  wake; the posts, the release of the bindings and the release of the endpoint follow it.
\<close>

definition kipc_destroy_detach ::
  "u64 \<Rightarrow> addr \<Rightarrow> ipc_endpoint_t \<Rightarrow> ipc_state \<Rightarrow> ipc_state" where
  "kipc_destroy_detach h a e s =
     ipc_unlink h (e_update a (\<lambda>e. e\<lparr>is_shutting_down := True, notify_bindings := [],
                                     waiting_senders := 0, waiting_receivers := 0\<rparr>) s)"

definition ksem_post_senders :: "addr \<Rightarrow> nat \<Rightarrow> ipc_state \<Rightarrow> ipc_state" where
  "ksem_post_senders a n = (e_update a (\<lambda>e. e\<lparr>sender_sem := sender_sem e + 1\<rparr>) ^^ n)"

definition ksem_post_receivers :: "addr \<Rightarrow> nat \<Rightarrow> ipc_state \<Rightarrow> ipc_state" where
  "ksem_post_receivers a n = (e_update a (\<lambda>e. e\<lparr>receiver_sem := receiver_sem e + 1\<rparr>) ^^ n)"

definition kipc_destroy :: "u64 \<Rightarrow> ipc_state \<Rightarrow> (ipc_status_t \<times> ipc_state) option" where
  "kipc_destroy h s =
     (if h = 0 then Some (IPC_ERR_INVALID, s)
      else case HASH_FIND h (endpoints s) of
        None \<Rightarrow> Some (IPC_ERR_NOT_FOUND, s)
      | Some a \<Rightarrow>
          do { e \<leftarrow> eps s a;
               let s = kipc_destroy_detach h a e s;
               let s = ksem_post_senders a (waiting_senders e) s;
               let s = ksem_post_receivers a (waiting_receivers e) s;
               s \<leftarrow> kipc_free_notify_bindings (notify_bindings e) s;
               s \<leftarrow> kipc_release a s;
               Some (IPC_OK, s) })"

definition kipc_subscribe_link ::
  "addr \<Rightarrow> u64 \<Rightarrow> addr \<Rightarrow> bool \<Rightarrow> ipc_state \<Rightarrow> ((ipc_status_t + u64) \<times> ipc_state) option" where
  \<comment> \<open>the rest of kipc_subscribe once both endpoints are referenced\<close>
  "kipc_subscribe_link pub h sub sub_ok s =
     (let s = e_update sub (\<lambda>e. e\<lparr>ep_type := IPC_ENDPOINT_SUBSCRIBER\<rparr>) s in
      if \<not> sub_ok then
        do { s \<leftarrow> kipc_release sub s; s \<leftarrow> kipc_release pub s;
             (_, s) \<leftarrow> kipc_destroy h s; Some (Inl IPC_ERR_NO_MEMORY, s) }
      else do { p \<leftarrow> eps s pub;
        if is_shutting_down p then
          do { s \<leftarrow> kipc_release sub s; s \<leftarrow> kipc_release pub s;
               (_, s) \<leftarrow> kipc_destroy h s; Some (Inl IPC_ERR_ENDPOINT_CLOSED, s) }
        else
          do { let s = e_update pub (\<lambda>e. e\<lparr>subscribers := h # subscribers e\<rparr>) s;
               s \<leftarrow> kipc_release sub s; s \<leftarrow> kipc_release pub s;
               Some (Inr h, s) } })"

definition kipc_subscribe ::
  "u64 \<Rightarrow> addr option \<Rightarrow> bool \<Rightarrow> ipc_state \<Rightarrow> ((ipc_status_t + u64) \<times> ipc_state) option" where
  "kipc_subscribe publisher mem sub_ok s =
     (case kipc_acquire publisher s of
        (None, s) \<Rightarrow> Some (Inl IPC_ERR_NOT_FOUND, s)
      | (Some pub, s) \<Rightarrow>
          do { p \<leftarrow> eps s pub;
               if is_shutting_down p then do { s \<leftarrow> kipc_release pub s; Some (Inl IPC_ERR_ENDPOINT_CLOSED, s) }
               else if ep_type p \<noteq> IPC_ENDPOINT_PUBLISHER then do { s \<leftarrow> kipc_release pub s; Some (Inl IPC_ERR_INVALID, s) }
               else case kipc_create mem s of
                 (Inl err, s) \<Rightarrow> do { s \<leftarrow> kipc_release pub s; Some (Inl err, s) }
               | (Inr h, s) \<Rightarrow>
                   (case kipc_acquire h s of
                      (None, s) \<Rightarrow> do { s \<leftarrow> kipc_release pub s; Some (Inl IPC_ERR_INVALID, s) }
                    | (Some sub, s) \<Rightarrow> kipc_subscribe_link pub h sub sub_ok s) })"

section \<open>Notification bindings\<close>

definition signal_if_queued :: "ipc_endpoint_t \<Rightarrow> addr \<Rightarrow> u64 \<Rightarrow> ipc_state \<Rightarrow> ipc_state" where
  "signal_if_queued e n bits s =
     (if queue_count e \<noteq> 0 then s\<lparr>notifications := knotify_signal_ref n bits (notifications s)\<rparr> else s)"

definition notify_release :: "addr \<Rightarrow> ipc_state \<Rightarrow> ipc_state option" where
  "notify_release n s = map_option (\<lambda>m. s\<lparr>notifications := m\<rparr>) (knotify_release n (notifications s))"

definition rebind :: "addr \<Rightarrow> u64 \<Rightarrow> ipc_notify_binding_t list \<Rightarrow> ipc_notify_binding_t list" where
  \<comment> \<open>the loop updates the first binding of the object; there is at most one\<close>
  "rebind n bits bs = map (\<lambda>b. if fst b = n then (n, bits) else b) bs"

definition kipc_bind_notify :: "u64 \<Rightarrow> u64 \<Rightarrow> u64 \<Rightarrow> bool \<Rightarrow> ipc_state \<Rightarrow> (ipc_status_t \<times> ipc_state) option" where
  "kipc_bind_notify h nh bits mem_ok s =
     (if h = 0 \<or> h = IPC_INVALID_HANDLE \<or> nh = NOTIFY_INVALID_HANDLE \<or> bits = 0 then Some (IPC_ERR_INVALID, s)
      else case knotify_acquire nh (notifications s) of
        (None, m) \<Rightarrow> Some (IPC_ERR_NOT_FOUND, s\<lparr>notifications := m\<rparr>)
      | (Some n, m) \<Rightarrow>
          (let s = s\<lparr>notifications := m\<rparr> in
           if \<not> mem_ok then do { s \<leftarrow> notify_release n s; Some (IPC_ERR_NO_MEMORY, s) }
           else case kipc_acquire h s of
             (None, s) \<Rightarrow> do { s \<leftarrow> notify_release n s; Some (IPC_ERR_NOT_FOUND, s) }
           | (Some a, s) \<Rightarrow>
               do { e \<leftarrow> eps s a;
                    if is_shutting_down e then
                      do { s \<leftarrow> kipc_release a s; s \<leftarrow> notify_release n s; Some (IPC_ERR_ENDPOINT_CLOSED, s) }
                    else if n \<in> fst ` set (notify_bindings e) then
                      do { let s = e_update a (\<lambda>e. e\<lparr>notify_bindings := rebind n bits (notify_bindings e)\<rparr>) s;
                           let s = signal_if_queued e n bits s;
                           s \<leftarrow> kipc_release a s; s \<leftarrow> notify_release n s; Some (IPC_OK, s) }
                    else
                      do { let s = e_update a (\<lambda>e. e\<lparr>notify_bindings := (n, bits) # notify_bindings e\<rparr>) s;
                           let s = signal_if_queued e n bits s;
                           s \<leftarrow> kipc_release a s; Some (IPC_OK, s) } }))"

fun find_binding :: "u64 \<Rightarrow> notify_state \<Rightarrow> ipc_notify_binding_t list \<Rightarrow> ipc_notify_binding_t option option" where
  \<comment> \<open>the walk reads the handle of each bound object; the outer None is a read of a freed object\<close>
  "find_binding nh m [] = Some None"
| "find_binding nh m (b # bs) =
     do { n \<leftarrow> n_objs m (fst b); if n_handle n = nh then Some (Some b) else find_binding nh m bs }"

definition kipc_unbind_notify :: "u64 \<Rightarrow> u64 \<Rightarrow> ipc_state \<Rightarrow> (ipc_status_t \<times> ipc_state) option" where
  "kipc_unbind_notify h nh s =
     (if h = 0 \<or> h = IPC_INVALID_HANDLE \<or> nh = NOTIFY_INVALID_HANDLE then Some (IPC_ERR_INVALID, s)
      else case kipc_acquire h s of
        (None, s) \<Rightarrow> Some (IPC_ERR_NOT_FOUND, s)
      | (Some a, s) \<Rightarrow>
          do { e \<leftarrow> eps s a;
               if is_shutting_down e then do { s \<leftarrow> kipc_release a s; Some (IPC_ERR_ENDPOINT_CLOSED, s) }
               else do { found \<leftarrow> find_binding nh (notifications s) (notify_bindings e);
                 case found of
                   None \<Rightarrow> do { s \<leftarrow> kipc_release a s; Some (IPC_ERR_NOT_FOUND, s) }
                 | Some b \<Rightarrow>
                     do { let s = e_update a (\<lambda>e. e\<lparr>notify_bindings := remove1 b (notify_bindings e)\<rparr>) s;
                          s \<leftarrow> notify_release (fst b) s;
                          s \<leftarrow> kipc_release a s;
                          Some (IPC_OK, s) } } })"

section \<open>Sending and receiving\<close>

text \<open>
  The sections under the lock of an endpoint.  \<open>enqueue_locked\<close> and \<open>dequeue_locked\<close> are the parts that
  the blocking and the non-blocking operations share; their result is \<open>None\<close> when the queue is full
  or empty.
\<close>

definition enqueue_locked :: "addr \<Rightarrow> ipc_message_t \<Rightarrow> ipc_endpoint_t \<Rightarrow> ipc_state \<Rightarrow> ipc_state option" where
  "enqueue_locked a m e s =
     do { e \<leftarrow> kipc_queue_push e m;
          let n = kipc_signal_notify_bindings_locked (notify_bindings e) (notifications s);
          let e = (if waiting_receivers e \<noteq> 0
                   then e\<lparr>waiting_receivers := waiting_receivers e - 1, receiver_sem := receiver_sem e + 1\<rparr>
                   else e);
          Some (s\<lparr>eps := (eps s)(a \<mapsto> e), notifications := n\<rparr>) }"

definition dequeue_locked :: "addr \<Rightarrow> ipc_endpoint_t \<Rightarrow> ipc_state \<Rightarrow> (ipc_message_t \<times> ipc_state) option" where
  "dequeue_locked a e s =
     do { (m, e) \<leftarrow> kipc_queue_pop e;
          let e = (if waiting_senders e \<noteq> 0
                   then e\<lparr>waiting_senders := waiting_senders e - 1, sender_sem := sender_sem e + 1\<rparr>
                   else e);
          Some (m, s\<lparr>eps := (eps s)(a \<mapsto> e)\<rparr>) }"

text \<open>
  One round of the loop of kipc_enqueue_blocking up to ksem_wait: the status it returns, or \<open>None\<close>
  when it registered as a waiting sender and goes on to wait.
\<close>

definition kipc_enqueue_blocking :: "addr \<Rightarrow> ipc_message_t \<Rightarrow> ipc_state \<Rightarrow> (ipc_status_t option \<times> ipc_state) option" where
  "kipc_enqueue_blocking a m s =
     do { e \<leftarrow> eps s a;
          if is_shutting_down e then Some (Some IPC_ERR_ENDPOINT_CLOSED, s)
          else case enqueue_locked a m e s of
            Some s' \<Rightarrow> Some (Some IPC_OK, s')
          | None \<Rightarrow> Some (None, e_update a (\<lambda>e. e\<lparr>waiting_senders := waiting_senders e + 1\<rparr>) s) }"

definition kipc_enqueue_nonblocking :: "addr \<Rightarrow> ipc_message_t \<Rightarrow> ipc_state \<Rightarrow> (ipc_status_t \<times> ipc_state) option" where
  "kipc_enqueue_nonblocking a m s =
     do { e \<leftarrow> eps s a;
          if is_shutting_down e then Some (IPC_ERR_ENDPOINT_CLOSED, s)
          else case enqueue_locked a m e s of
            Some s' \<Rightarrow> Some (IPC_OK, s')
          | None \<Rightarrow> Some (IPC_ERR_CANCELLED, s) }"

definition kipc_send_nb :: "u64 \<Rightarrow> u64 \<Rightarrow> ipc_message_t \<Rightarrow> ipc_state \<Rightarrow> (ipc_status_t \<times> ipc_state) option" where
  "kipc_send_nb caller_id h m s =
     (if h = 0 then Some (IPC_ERR_INVALID, s)
      else case kipc_acquire h s of
        (None, s) \<Rightarrow> Some (IPC_ERR_NOT_FOUND, s)
      | (Some a, s) \<Rightarrow>
          do { (st, s) \<leftarrow> kipc_enqueue_nonblocking a (m\<lparr>sender_tid := caller_id\<rparr>) s;
               s \<leftarrow> kipc_release a s;
               Some (st, s) })"

text \<open>One round of the loop of kipc_recv, before the release of the endpoint: the result, or \<open>None\<close> to wait.\<close>

definition kipc_recv_round :: "addr \<Rightarrow> ipc_state \<Rightarrow> ((ipc_status_t + ipc_message_t) option \<times> ipc_state) option" where
  "kipc_recv_round a s =
     do { e \<leftarrow> eps s a;
          if is_shutting_down e then Some (Some (Inl IPC_ERR_ENDPOINT_CLOSED), s)
          else case dequeue_locked a e s of
            Some (m, s') \<Rightarrow> Some (Some (Inr m), s')
          | None \<Rightarrow> Some (None, e_update a (\<lambda>e. e\<lparr>waiting_receivers := waiting_receivers e + 1\<rparr>) s) }"

definition kipc_recv_nb :: "u64 \<Rightarrow> ipc_state \<Rightarrow> ((ipc_status_t + ipc_message_t) \<times> ipc_state) option" where
  "kipc_recv_nb h s =
     (if h = 0 then Some (Inl IPC_ERR_INVALID, s)
      else case kipc_acquire h s of
        (None, s) \<Rightarrow> Some (Inl IPC_ERR_NOT_FOUND, s)
      | (Some a, s) \<Rightarrow>
          do { e \<leftarrow> eps s a;
               if is_shutting_down e then do { s \<leftarrow> kipc_release a s; Some (Inl IPC_ERR_ENDPOINT_CLOSED, s) }
               else case dequeue_locked a e s of
                 None \<Rightarrow> do { s \<leftarrow> kipc_release a s; Some (Inl IPC_ERR_CANCELLED, s) }
               | Some (m, s) \<Rightarrow> do { s \<leftarrow> kipc_release a s; Some (Inr m, s) } })"

section \<open>The ring buffer is a bounded queue\<close>

datatype ('q, 'm) fifo_op = Push 'm | Pop

text \<open>What a client observes: the messages that were accepted and the messages that came out.\<close>

fun fifo_run :: "('q \<Rightarrow> 'm \<Rightarrow> 'q option) \<Rightarrow> ('q \<Rightarrow> ('m \<times> 'q) option) \<Rightarrow> ('q, 'm) fifo_op list \<Rightarrow> 'q \<Rightarrow> 'm list \<times> 'm list \<times> 'q" where
  "fifo_run push pop [] q = ([], [], q)"
| "fifo_run push pop (Push m # ops) q =
     (case push q m of
        None \<Rightarrow> fifo_run push pop ops q
      | Some q' \<Rightarrow> (let (acc, out, r) = fifo_run push pop ops q' in (m # acc, out, r)))"
| "fifo_run push pop (Pop # ops) q =
     (case pop q of
        None \<Rightarrow> fifo_run push pop ops q
      | Some (m, q') \<Rightarrow> (let (acc, out, r) = fifo_run push pop ops q' in (acc, m # out, r)))"

locale bounded_fifo =
  fixes wf :: "'q \<Rightarrow> bool" and contents :: "'q \<Rightarrow> 'm list" and capacity :: nat
    and push :: "'q \<Rightarrow> 'm \<Rightarrow> 'q option" and pop :: "'q \<Rightarrow> ('m \<times> 'q) option"
  assumes bounded: "wf q \<Longrightarrow> length (contents q) \<le> capacity"
    and push_full: "wf q \<Longrightarrow> push q m = None \<longleftrightarrow> length (contents q) = capacity"
    and push_some: "wf q \<Longrightarrow> push q m = Some q' \<Longrightarrow> wf q' \<and> contents q' = contents q @ [m]"
    and pop_empty: "wf q \<Longrightarrow> pop q = None \<longleftrightarrow> contents q = []"
    and pop_some: "wf q \<Longrightarrow> pop q = Some (m, q') \<Longrightarrow> wf q' \<and> contents q = m # contents q'"
begin

lemma run_fifo:
  "wf q \<Longrightarrow> fifo_run push pop ops q = (acc, out, r) \<Longrightarrow> wf r \<and> contents q @ acc = out @ contents r"
proof (induction ops arbitrary: q acc out r)
  case (Cons op ops)
  show ?case
  proof (cases op)
    case (Push m)
    show ?thesis
    proof (cases "push q m")
      case None then show ?thesis using Cons Push by simp
    next
      case (Some q')
      obtain acc' out' r' where run: "fifo_run push pop ops q' = (acc', out', r')" by (metis prod_cases3)
      with Cons.prems Push Some have "acc = m # acc'" "out = out'" "r = r'" by simp_all
      with Cons.IH [OF _ run] push_some [OF Cons.prems(1) Some] show ?thesis by simp
    qed
  next
    case Pop
    show ?thesis
    proof (cases "pop q")
      case None then show ?thesis using Cons Pop by simp
    next
      case (Some mq)
      obtain m q' where mq: "mq = (m, q')" by fastforce
      obtain acc' out' r' where run: "fifo_run push pop ops q' = (acc', out', r')" by (metis prod_cases3)
      with Cons.prems Pop Some mq have "acc = acc'" "out = m # out'" "r = r'" by simp_all
      with Cons.IH [OF _ run] pop_some [OF Cons.prems(1)] Some mq show ?thesis by simp
    qed
  qed
qed simp

end

definition queue_wf :: "ipc_endpoint_t \<Rightarrow> bool" where
  "queue_wf e \<longleftrightarrow> length (queue e) = IPC_QUEUE_CAPACITY \<and> queue_head e < IPC_QUEUE_CAPACITY \<and>
     queue_count e \<le> IPC_QUEUE_CAPACITY \<and> queue_tail e = (queue_head e + queue_count e) mod IPC_QUEUE_CAPACITY"

definition queue_list :: "ipc_endpoint_t \<Rightarrow> ipc_message_t list" where
  "queue_list e = map (\<lambda>i. queue e ! ((queue_head e + i) mod IPC_QUEUE_CAPACITY)) [0..<queue_count e]"

lemma ring_slots_differ: "i < c \<Longrightarrow> c < n \<Longrightarrow> (h + i) mod n \<noteq> (h + c) mod n" for h i c n :: nat
proof
  assume *: "i < c" "c < n" "(h + i) mod n = (h + c) mod n"
  then have "n dvd (h + c) - (h + i)" by (metis mod_eq_dvd_iff_nat add_le_cancel_left less_imp_le)
  then have "n dvd c - i" by simp
  with * show False using dvd_imp_le [of n "c - i"] by linarith
qed

lemma length_queue_list [simp]: "length (queue_list e) = queue_count e"
  by (simp add: queue_list_def)

lemma queue_list_push:
  assumes "queue_wf e" "kipc_queue_push e m = Some e'"
  shows "queue_wf e' \<and> queue_list e' = queue_list e @ [m]"
proof -
  from assms have c: "queue_count e < 64" and len: "length (queue e) = 64"
    and tail: "queue_tail e = (queue_head e + queue_count e) mod 64"
    by (auto simp: queue_wf_def kipc_queue_push_def split: if_splits)
  from assms(2) c have e': "e' = e\<lparr>queue := (queue e)[queue_tail e := m],
      queue_tail := (queue_tail e + 1) mod 64, queue_count := queue_count e + 1\<rparr>"
    by (simp add: kipc_queue_push_def split: if_splits)
  have "queue e' ! ((queue_head e + i) mod 64) = queue e ! ((queue_head e + i) mod 64)" if "i < queue_count e" for i
    using ring_slots_differ [OF that c, of "queue_head e"] tail by (simp add: e')
  moreover have "queue e' ! ((queue_head e + queue_count e) mod 64) = m"
    using len tail by (simp add: e')
  ultimately have "queue_list e' = queue_list e @ [m]"
    by (simp add: queue_list_def e')
  moreover have "queue_wf e'"
    using assms(1) c by (simp add: queue_wf_def e' mod_Suc_eq)
  ultimately show ?thesis by simp
qed

lemma queue_list_pop:
  assumes "queue_wf e" "kipc_queue_pop e = Some (m, e')"
  shows "queue_wf e' \<and> queue_list e = m # queue_list e'"
proof -
  from assms(2) have c: "0 < queue_count e" and m: "m = queue e ! queue_head e"
    and e': "e' = e\<lparr>queue_head := (queue_head e + 1) mod 64, queue_count := queue_count e - 1\<rparr>"
    by (auto simp: kipc_queue_pop_def split: if_splits)
  from assms(1) have hd: "queue_head e < 64" by (simp add: queue_wf_def)
  have "[0..<queue_count e] = 0 # map Suc [0..<queue_count e - 1]"
    using c by (simp add: map_Suc_upt upt_conv_Cons)
  then have "queue_list e = m # map (\<lambda>i. queue e ! ((queue_head e + Suc i) mod 64)) [0..<queue_count e - 1]"
    using hd by (simp add: queue_list_def m comp_def)
  moreover have "queue_list e' = map (\<lambda>i. queue e ! ((queue_head e + Suc i) mod 64)) [0..<queue_count e - 1]"
    by (simp add: queue_list_def e' mod_add_left_eq [of "Suc (queue_head e)" 64, symmetric] del: mod_add_left_eq)
      (simp add: mod_simps)
  moreover have "(queue_head e + queue_count e) mod 64 = ((queue_head e + 1) mod 64 + (queue_count e - 1)) mod 64"
    using c by (simp only: mod_add_left_eq) simp
  then have "queue_wf e'"
    using assms(1) c by (auto simp: queue_wf_def e')
  ultimately show ?thesis by simp
qed

interpretation ring: bounded_fifo queue_wf queue_list IPC_QUEUE_CAPACITY kipc_queue_push kipc_queue_pop
proof unfold_locales
  fix e m e'
  show "kipc_queue_pop e = None \<longleftrightarrow> queue_list e = []" by (simp add: kipc_queue_pop_def queue_list_def)
  assume wf: "queue_wf e"
  then show "length (queue_list e) \<le> 64" by (simp add: queue_wf_def)
  show "kipc_queue_push e m = None \<longleftrightarrow> length (queue_list e) = 64" by (simp add: kipc_queue_push_def)
  show "queue_wf e' \<and> queue_list e' = queue_list e @ [m]" if "kipc_queue_push e m = Some e'"
    using wf that by (rule queue_list_push)
  show "queue_wf e' \<and> queue_list e = m # queue_list e'" if "kipc_queue_pop e = Some (m, e')"
    using wf that by (rule queue_list_pop)
qed

text \<open>
  Property C16.  The ring buffer of an endpoint is a first-in first-out queue: whatever sequence of
  pushes and pops runs on a fresh endpoint, the messages popped, followed by those still queued, are
  exactly the messages accepted, in order, and the queue never holds more than its capacity.
\<close>

theorem kipc_queue_fifo:
  "\<exists>acc out e. fifo_run kipc_queue_push kipc_queue_pop ops (new_endpoint h) = (acc, out, e) \<and>
     acc = out @ queue_list e \<and> length (queue_list e) \<le> IPC_QUEUE_CAPACITY"
proof -
  obtain acc out e where run: "fifo_run kipc_queue_push kipc_queue_pop ops (new_endpoint h) = (acc, out, e)"
    by (metis prod_cases3)
  have "queue_wf (new_endpoint h)" "queue_list (new_endpoint h) = []"
    by (simp_all add: queue_wf_def queue_list_def new_endpoint_def)
  with ring.run_fifo [OF _ run] ring.bounded [of e] run show ?thesis by simp
qed

section \<open>The invariant of the subsystem\<close>

text \<open>
  \<open>hold a\<close> is the number of references that operations in progress have on the endpoint at \<open>a\<close>, and
  \<open>det n\<close> the number of references to the notification object at \<open>n\<close> that no binding accounts for.
\<close>

definition bcount :: "ipc_state \<Rightarrow> addr \<Rightarrow> addr \<Rightarrow> nat" where
  "bcount s n a = (case eps s a of None \<Rightarrow> 0 | Some e \<Rightarrow> count_list (map fst (notify_bindings e)) n)"

definition bind_refs :: "ipc_state \<Rightarrow> addr \<Rightarrow> nat" where
  "bind_refs s n = sum (bcount s n) {a. registered a (endpoints s)}"

definition ep_ok :: "bool \<Rightarrow> ipc_endpoint_t \<Rightarrow> bool" where
  "ep_ok reg e \<longleftrightarrow> queue_wf e \<and> (is_shutting_down e \<longleftrightarrow> \<not> reg) \<and>
     (is_shutting_down e \<longrightarrow> notify_bindings e = []) \<and> distinct (map fst (notify_bindings e))"

definition ipc_inv :: "(addr \<Rightarrow> nat) \<Rightarrow> (addr \<Rightarrow> nat) \<Rightarrow> ipc_state \<Rightarrow> bool" where
  "ipc_inv hold det s \<longleftrightarrow>
     obj_inv (eps s) (endpoints s) (next_handle s) e_handle e_references hold \<and>
     (\<forall>a e. eps s a = Some e \<longrightarrow> ep_ok (registered a (endpoints s)) e) \<and>
     notify_inv (\<lambda>n. det n + bind_refs s n) (notifications s)"

lemma finite_registered [simp]: "finite {a. registered a t}"
  by (simp add: registered_def)

lemma ipc_invD:
  assumes "ipc_inv hold det s"
  shows "obj_inv (eps s) (endpoints s) (next_handle s) e_handle e_references hold"
    "eps s a = Some e \<Longrightarrow> ep_ok (registered a (endpoints s)) e"
    "notify_inv (\<lambda>n. det n + bind_refs s n) (notifications s)"
  using assms unfolding ipc_inv_def by blast+

lemma ipc_invI:
  assumes "obj_inv (eps s) (endpoints s) (next_handle s) e_handle e_references hold"
    "\<And>a e. eps s a = Some e \<Longrightarrow> ep_ok (registered a (endpoints s)) e"
    "notify_inv (\<lambda>n. det n + bind_refs s n) (notifications s)"
  shows "ipc_inv hold det s"
  using assms unfolding ipc_inv_def by blast

lemma bind_refs_cong:
  assumes "endpoints s' = endpoints s"
    "\<And>a. map_option notify_bindings (eps s' a) = map_option notify_bindings (eps s a)"
  shows "bind_refs s' = bind_refs s"
proof -
  have "bcount s' n a = bcount s n a" for n a
    using assms(2) [of a] by (auto simp: bcount_def split: option.splits)
  then show ?thesis by (simp add: bind_refs_def assms(1) fun_eq_iff)
qed

lemma e_update_simps [simp]:
  "endpoints (e_update a f s) = endpoints s" "next_handle (e_update a f s) = next_handle s"
  "notifications (e_update a f s) = notifications s"
  "eps (e_update a f s) = (eps s)(a := map_option f (eps s a))"
  by (simp_all add: e_update_def)

lemma bind_refs_e_update:
  assumes "\<And>e. eps s a = Some e \<Longrightarrow> notify_bindings (f e) = notify_bindings e"
  shows "bind_refs (e_update a f s) = bind_refs s"
proof (rule bind_refs_cong)
  fix b show "map_option notify_bindings (eps (e_update a f s) b) = map_option notify_bindings (eps s b)"
    using assms by (cases "b = a"; cases "eps s a") auto
qed simp

lemma bind_refs_notifications [simp]: "bind_refs (s\<lparr>notifications := m\<rparr>) = bind_refs s"
  by (rule bind_refs_cong) simp_all

text \<open>Writing through a pointer without touching count, handle, life cycle or bindings.\<close>

lemma ipc_inv_soft:
  assumes "ipc_inv hold det s"
    and "\<And>e. eps s a = Some e \<Longrightarrow> queue_wf e \<Longrightarrow> queue_wf (f e) \<and> e_handle (f e) = e_handle e \<and>
       e_references (f e) = e_references e \<and> is_shutting_down (f e) = is_shutting_down e \<and>
       notify_bindings (f e) = notify_bindings e"
  shows "ipc_inv hold det (e_update a f s)"
proof (rule ipc_invI)
  have wf: "queue_wf e" if "eps s a = Some e" for e using ipc_invD(2) [OF assms(1) that] by (simp add: ep_ok_def)
  note f = assms(2) [OF _ wf]
  show "obj_inv (eps (e_update a f s)) (endpoints (e_update a f s)) (next_handle (e_update a f s)) e_handle e_references hold"
    using obj_inv_soft_upd [OF ipc_invD(1) [OF assms(1)], of a f] f by simp
  show "notify_inv (\<lambda>n. det n + bind_refs (e_update a f s) n) (notifications (e_update a f s))"
    using ipc_invD(3) [OF assms(1)] f by (simp add: bind_refs_e_update)
  fix b e assume "eps (e_update a f s) b = Some e"
  then show "ep_ok (registered b (endpoints (e_update a f s))) e"
    using ipc_invD(2) [OF assms(1)] f by (cases "b = a") (auto simp: ep_ok_def)
qed

lemma ipc_inv_notif:
  assumes "ipc_inv hold det s" "notify_inv (\<lambda>n. det' n + bind_refs s n) m"
  shows "ipc_inv hold det' (s\<lparr>notifications := m\<rparr>)"
  using assms unfolding ipc_inv_def by simp

lemma ipc_inv_live:
  assumes "ipc_inv hold det s" "HASH_FIND h (endpoints s) = Some a"
  shows "\<exists>e. eps s a = Some e \<and> e_handle e = h \<and> \<not> is_shutting_down e" "registered a (endpoints s)"
proof -
  note live = obj_inv_live [OF ipc_invD(1) [OF assms(1)] assms(2)]
  show "registered a (endpoints s)" by (rule live(2))
  with live(1) ipc_invD(2) [OF assms(1)] show "\<exists>e. eps s a = Some e \<and> e_handle e = h \<and> \<not> is_shutting_down e"
    by (auto simp: ep_ok_def)
qed

lemma kipc_acquire_inv:
  assumes "ipc_inv hold det s" "kipc_acquire h s = (Some a, s')"
  shows "ipc_inv (hold(a := hold a + 1)) det s'"
    and "\<exists>e. eps s' a = Some e \<and> e_handle e = h \<and> \<not> is_shutting_down e" "endpoints s' = endpoints s"
    and "next_handle s' = next_handle s" "bind_refs s' = bind_refs s" "notifications s' = notifications s"
proof -
  let ?f = "\<lambda>e. e\<lparr>e_references := e_references e + 1\<rparr>"
  from assms(2) have a: "HASH_FIND h (endpoints s) = Some a" and s': "s' = e_update a ?f s"
    by (auto simp: kipc_acquire_def split: option.splits)
  from ipc_inv_live [OF assms(1) a] obtain e where e: "eps s a = Some e" "e_handle e = h" "\<not> is_shutting_down e"
    by blast
  show "ipc_inv (hold(a := hold a + 1)) det s'"
  proof (rule ipc_invI)
    show "obj_inv (eps s') (endpoints s') (next_handle s') e_handle e_references (hold(a := hold a + 1))"
      using obj_inv_acquire [OF ipc_invD(1) [OF assms(1)] e(1), of ?f] by (simp add: s')
    show "notify_inv (\<lambda>n. det n + bind_refs s' n) (notifications s')"
      using ipc_invD(3) [OF assms(1)] by (simp add: s' bind_refs_e_update)
    show "ep_ok (registered b (endpoints s')) e'" if "eps s' b = Some e'" for b e'
      using that ipc_invD(2) [OF assms(1)] by (cases "b = a") (auto simp: s' ep_ok_def queue_wf_def)
  qed
  show "\<exists>e. eps s' a = Some e \<and> e_handle e = h \<and> \<not> is_shutting_down e" using e by (simp add: s')
qed (use assms(2) in \<open>auto simp: kipc_acquire_def bind_refs_e_update split: option.splits\<close>)

lemma kipc_acquire_None: "kipc_acquire h s = (None, s') \<Longrightarrow> s' = s"
  by (auto simp: kipc_acquire_def split: option.splits)

lemma kipc_release_inv:
  assumes "ipc_inv hold det s" "0 < hold a"
  shows "\<exists>s'. kipc_release a s = Some s' \<and> ipc_inv (hold(a := hold a - 1)) det s'"
proof -
  note inv = ipc_invD(1) [OF assms(1)]
  let ?f = "\<lambda>e. e\<lparr>e_references := e_references e - 1\<rparr>"
  obtain e where e: "eps s a = Some e" using obj_inv_held [OF inv assms(2)] by blast
  note refs = obj_inv_refs [OF inv e]
  have ok: "ep_ok (registered a (endpoints s)) e" by (rule ipc_invD(2) [OF assms(1) e])
  show ?thesis
  proof (cases "e_references e = 1")
    case True
    with refs assms(2) have nreg: "\<not> registered a (endpoints s)" by (cases "registered a (endpoints s)") simp_all
    let ?s = "s\<lparr>eps := (eps s)(a := None)\<rparr>"
    from nreg ok True e have rel: "kipc_release a s = Some ?s" by (simp add: kipc_release_def ep_ok_def)
    have "bind_refs ?s = bind_refs s"
      using nreg unfolding bind_refs_def by (auto simp: bcount_def fun_eq_iff intro!: sum.cong)
    then have "ipc_inv (hold(a := hold a - 1)) det ?s"
      using obj_inv_free [OF inv e True assms(2)] ipc_invD(2,3) [OF assms(1)] by (intro ipc_invI) (auto split: if_splits)
    with rel show ?thesis by blast
  next
    case False
    with refs(2) have gt: "1 < e_references e" by linarith
    then have rel: "kipc_release a s = Some (e_update a ?f s)" using e by (simp add: kipc_release_def)
    have "ipc_inv (hold(a := hold a - 1)) det (e_update a ?f s)"
    proof (rule ipc_invI)
      show "obj_inv (eps (e_update a ?f s)) (endpoints (e_update a ?f s)) (next_handle (e_update a ?f s))
          e_handle e_references (hold(a := hold a - 1))"
        using obj_inv_release [OF inv assms(2) e gt, of ?f] by simp
      show "notify_inv (\<lambda>n. det n + bind_refs (e_update a ?f s) n) (notifications (e_update a ?f s))"
        using ipc_invD(3) [OF assms(1)] by (simp add: bind_refs_e_update)
      show "ep_ok (registered b (endpoints (e_update a ?f s))) e'" if "eps (e_update a ?f s) b = Some e'" for b e'
        using that ipc_invD(2) [OF assms(1)] by (cases "b = a") (auto simp: ep_ok_def queue_wf_def)
    qed
    with rel show ?thesis by blast
  qed
qed

text \<open>Endpoints and notifications share the reference discipline of \<open>refcounted\<close>.\<close>

lemma notify_release_inv:
  assumes "ipc_inv hold det s" "0 < det n"
  shows "\<exists>s'. notify_release n s = Some s' \<and> ipc_inv hold (det(n := det n - 1)) s'"
proof -
  have "0 < det n + bind_refs s n" using assms(2) by simp
  from nref.release_inv [OF ipc_invD(3) [OF assms(1)] this] obtain m where
    m: "knotify_release n (notifications s) = Some m"
      "notify_inv ((\<lambda>n. det n + bind_refs s n)(n := det n + bind_refs s n - 1)) m" by blast
  have "(\<lambda>n. det n + bind_refs s n)(n := det n + bind_refs s n - 1) = (\<lambda>k. (det(n := det n - 1)) k + bind_refs s k)"
    using assms(2) by (auto simp: fun_eq_iff)
  with m ipc_inv_notif [OF assms(1)] show ?thesis by (simp add: notify_release_def)
qed

lemma notify_acquire_inv:
  assumes "ipc_inv hold det s" "knotify_acquire nh (notifications s) = (Some n, m)"
  shows "ipc_inv hold (det(n := det n + 1)) (s\<lparr>notifications := m\<rparr>)"
proof -
  have "(\<lambda>n. det n + bind_refs s n)(n := det n + bind_refs s n + 1) = (\<lambda>k. (det(n := det n + 1)) k + bind_refs s k)"
    by (auto simp: fun_eq_iff)
  with nref.acquire_inv [OF ipc_invD(3) [OF assms(1)] assms(2)] ipc_inv_notif [OF assms(1)] show ?thesis by simp
qed

lemma signal_if_queued_inv: "ipc_inv hold det s \<Longrightarrow> ipc_inv hold det (signal_if_queued e n bits s)"
  using ipc_inv_notif [OF _ nref.signal_inv [OF ipc_invD(3)]] by (simp add: signal_if_queued_def)

lemma kipc_create_inv:
  assumes "ipc_inv hold det s" "\<And>a. mem = Some a \<Longrightarrow> eps s a = None" "next_handle s \<noteq> UINT64_MAX"
  shows "ipc_inv hold det (snd (kipc_create mem s))"
proof (cases mem)
  case (Some a)
  let ?s = "snd (kipc_create mem s)"
  have a: "eps s a = None" using assms(2) Some by simp
  have s': "eps ?s = (eps s)(a \<mapsto> new_endpoint (next_handle s))" "endpoints ?s = HASH_ADD (next_handle s) a (endpoints s)"
    "next_handle ?s = next_handle s + 1" "notifications ?s = notifications s"
    by (simp_all add: Some kipc_create_def ipc_insert_def)
  have nreg: "\<not> registered a (endpoints s)"
    using obj_inv_table(3) [OF ipc_invD(1) [OF assms(1)], of _ a] a unfolding registered_iff by (metis option.distinct(1))
  have "{b. registered b (endpoints ?s)} = insert a {b. registered b (endpoints s)}"
    by (auto simp: s' registered_ADD)
  moreover have "sum (bcount ?s n) {b. registered b (endpoints s)} = sum (bcount s n) {b. registered b (endpoints s)}" for n
    by (rule sum.cong) (use nreg in \<open>auto simp: bcount_def s'\<close>)
  ultimately have refs: "bind_refs ?s = bind_refs s"
    using nreg by (simp add: bind_refs_def fun_eq_iff bcount_def s' new_endpoint_def)
  show ?thesis
  proof (rule ipc_invI)
    show "obj_inv (eps ?s) (endpoints ?s) (next_handle ?s) e_handle e_references hold"
      using obj_inv_create [OF ipc_invD(1) [OF assms(1)] a assms(3), of "new_endpoint (next_handle s)"]
      by (simp add: s' new_endpoint_def)
    show "notify_inv (\<lambda>n. det n + bind_refs ?s n) (notifications ?s)" using ipc_invD(3) [OF assms(1)] by (simp add: refs s')
    show "ep_ok (registered b (endpoints ?s)) e" if "eps ?s b = Some e" for b e
      using that ipc_invD(2) [OF assms(1), of b e]
      by (cases "b = a") (auto simp: s' registered_ADD ep_ok_def queue_wf_def new_endpoint_def)
  qed
qed (simp add: kipc_create_def assms(1))

text \<open>Destruction detaches the endpoint and hands its bindings to the caller.\<close>

lemma kipc_destroy_detach_inv:
  assumes "ipc_inv hold det s" "HASH_FIND h (endpoints s) = Some a" "eps s a = Some e"
  shows "ipc_inv (hold(a := hold a + 1)) (\<lambda>n. det n + count_list (map fst (notify_bindings e)) n)
           (kipc_destroy_detach h a e s)"
proof -
  let ?f = "\<lambda>e. e\<lparr>is_shutting_down := True, notify_bindings := [], waiting_senders := 0, waiting_receivers := 0\<rparr>"
  let ?s = "kipc_destroy_detach h a e s"
  have s': "eps ?s = (eps s)(a := map_option ?f (eps s a))" "endpoints ?s = HASH_DEL h (endpoints s)"
    "next_handle ?s = next_handle s" "notifications ?s = notifications s"
    by (simp_all add: kipc_destroy_detach_def ipc_unlink_def)
  note inv = ipc_invD(1) [OF assms(1)]
  have reg: "registered b (endpoints ?s) \<longleftrightarrow> registered b (endpoints s) \<and> b \<noteq> a" for b
    unfolding s' using obj_inv_table(1,2) [OF inv] HASH_FIND_Some_in [OF assms(2)]
    by (intro registered_DEL) (auto dest: reg_wf_distinct)
  have ra: "registered a (endpoints s)" by (rule ipc_inv_live(2) [OF assms(1,2)])
  have "bind_refs s n = count_list (map fst (notify_bindings e)) n + bind_refs ?s n" for n
  proof -
    have "bind_refs s n = bcount s n a + sum (bcount s n) ({b. registered b (endpoints s)} - {a})"
      unfolding bind_refs_def using ra by (intro sum.remove) simp_all
    also have "sum (bcount s n) ({b. registered b (endpoints s)} - {a}) = bind_refs ?s n"
      unfolding bind_refs_def by (rule sum.cong) (auto simp: reg bcount_def s'(1))
    finally show ?thesis using assms(3) by (simp add: bcount_def)
  qed
  then have refs: "(\<lambda>n. det n + count_list (map fst (notify_bindings e)) n + bind_refs ?s n) = (\<lambda>n. det n + bind_refs s n)"
    by (simp add: fun_eq_iff)
  show ?thesis
  proof (rule ipc_invI)
    show "obj_inv (eps ?s) (endpoints ?s) (next_handle ?s) e_handle e_references (hold(a := hold a + 1))"
      unfolding s' by (rule obj_inv_soft_upd [OF obj_inv_unlink [OF inv assms(2)]]) simp_all
    show "notify_inv (\<lambda>n. det n + count_list (map fst (notify_bindings e)) n + bind_refs ?s n) (notifications ?s)"
      unfolding refs s' by (rule ipc_invD(3) [OF assms(1)])
    show "ep_ok (registered b (endpoints ?s)) e'" if "eps ?s b = Some e'" for b e'
      unfolding reg using that ipc_invD(2) [OF assms(1)] by (cases "b = a") (auto simp: s' ep_ok_def queue_wf_def)
  qed
qed

lemma ksem_post_inv:
  "ipc_inv hold det s \<Longrightarrow> ipc_inv hold det (ksem_post_senders a n s)"
  "ipc_inv hold det s \<Longrightarrow> ipc_inv hold det (ksem_post_receivers a n s)"
  unfolding ksem_post_senders_def ksem_post_receivers_def
  by (induction n) (auto intro!: ipc_inv_soft simp: queue_wf_def)

lemma kipc_free_notify_bindings_inv:
  assumes "ipc_inv hold (\<lambda>n. det n + count_list (map fst bs) n) s"
  shows "\<exists>s'. kipc_free_notify_bindings bs s = Some s' \<and> ipc_inv hold det s'"
proof -
  have "count_list (map fst bs) n \<le> det n + count_list (map fst bs) n + bind_refs s n" for n by simp
  from nref.release_all_inv [OF ipc_invD(3) [OF assms], of bs] this obtain m where
    "release_all knotify_release bs (notifications s) = Some m"
    "notify_inv (\<lambda>n. det n + count_list (map fst bs) n + bind_refs s n - count_list (map fst bs) n) m" by blast
  then show ?thesis using ipc_inv_notif [OF assms, of det m] by (simp add: kipc_free_notify_bindings_def)
qed

lemma hold_undo [simp]: "(hold(a := hold a + 1))(a := hold a + 1 - 1) = hold" for hold :: "addr \<Rightarrow> nat"
  by simp

lemma kipc_destroy_inv:
  assumes "ipc_inv hold det s"
  shows "\<exists>r s'. kipc_destroy h s = Some (r, s') \<and> ipc_inv hold det s'"
proof (cases "h = 0 \<or> HASH_FIND h (endpoints s) = None")
  case True then show ?thesis using assms by (auto simp: kipc_destroy_def)
next
  case False
  then obtain a where a: "HASH_FIND h (endpoints s) = Some a" by blast
  obtain e where e: "eps s a = Some e" using ipc_inv_live(1) [OF assms a] by blast
  let ?s = "ksem_post_receivers a (waiting_receivers e) (ksem_post_senders a (waiting_senders e) (kipc_destroy_detach h a e s))"
  have "ipc_inv (hold(a := hold a + 1)) (\<lambda>n. det n + count_list (map fst (notify_bindings e)) n) ?s"
    by (intro ksem_post_inv kipc_destroy_detach_inv assms a e)
  from kipc_free_notify_bindings_inv [OF this] obtain s1 where
    s1: "kipc_free_notify_bindings (notify_bindings e) ?s = Some s1" "ipc_inv (hold(a := hold a + 1)) det s1" by blast
  from kipc_release_inv [OF s1(2), of a] obtain s2 where "kipc_release a s1 = Some s2" "ipc_inv hold det s2"
    by auto
  with False a e s1 show ?thesis by (simp add: kipc_destroy_def Let_def)
qed

lemma enqueue_locked_inv:
  assumes "ipc_inv hold det s" "eps s a = Some e" "enqueue_locked a m e s = Some s'"
  shows "ipc_inv hold det s'"
proof -
  from assms(3) obtain e1 where e1: "kipc_queue_push e m = Some e1" by (auto simp: enqueue_locked_def bind_eq_Some_conv)
  let ?e = "if waiting_receivers e1 \<noteq> 0
      then e1\<lparr>waiting_receivers := waiting_receivers e1 - 1, receiver_sem := receiver_sem e1 + 1\<rparr> else e1"
  let ?n = "kipc_signal_notify_bindings_locked (notify_bindings e1) (notifications s)"
  have "queue_wf e" using ipc_invD(2) [OF assms(1,2)] by (simp add: ep_ok_def)
  with e1 have "queue_wf e1" using ring.push_some by blast
  moreover have "e_handle e1 = e_handle e" "e_references e1 = e_references e" "is_shutting_down e1 = is_shutting_down e"
    "notify_bindings e1 = notify_bindings e"
    using e1 by (auto simp: kipc_queue_push_def split: if_splits)
  ultimately have inv: "ipc_inv hold det (e_update a (\<lambda>_. ?e) s)"
    using assms(2) by (intro ipc_inv_soft [OF assms(1)]) (simp add: queue_wf_def)
  have s': "s' = (e_update a (\<lambda>_. ?e) s)\<lparr>notifications := ?n\<rparr>"
    using assms(2,3) e1 by (simp add: enqueue_locked_def e_update_def Let_def)
  show ?thesis unfolding s' kipc_signal_notify_bindings_locked_def
    using ipc_inv_notif [OF inv nref.signal_all_inv [OF ipc_invD(3) [OF inv]]] by simp
qed

lemma dequeue_locked_inv:
  assumes "ipc_inv hold det s" "eps s a = Some e" "dequeue_locked a e s = Some (m, s')"
  shows "ipc_inv hold det s'"
proof -
  from assms(3) obtain e1 where e1: "kipc_queue_pop e = Some (m, e1)"
    by (auto simp: dequeue_locked_def bind_eq_Some_conv Let_def)
  let ?e = "if waiting_senders e1 \<noteq> 0
      then e1\<lparr>waiting_senders := waiting_senders e1 - 1, sender_sem := sender_sem e1 + 1\<rparr> else e1"
  have "queue_wf e" using ipc_invD(2) [OF assms(1,2)] by (simp add: ep_ok_def)
  with e1 have "queue_wf e1" using ring.pop_some by blast
  moreover have "e_handle e1 = e_handle e" "e_references e1 = e_references e" "is_shutting_down e1 = is_shutting_down e"
    "notify_bindings e1 = notify_bindings e"
    using e1 by (auto simp: kipc_queue_pop_def split: if_splits)
  ultimately have inv: "ipc_inv hold det (e_update a (\<lambda>_. ?e) s)"
    using assms(2) by (intro ipc_inv_soft [OF assms(1)]) (simp add: queue_wf_def)
  have "s' = e_update a (\<lambda>_. ?e) s"
    using assms(2,3) e1 by (simp add: dequeue_locked_def e_update_def Let_def)
  with inv show ?thesis by simp
qed

lemma release_after:
  assumes "ipc_inv hold det s" "kipc_acquire h s = (Some a, s1)"
    and "\<And>hold. ipc_inv hold det s1 \<Longrightarrow> ipc_inv hold det' s2"
  shows "\<exists>s'. kipc_release a s2 = Some s' \<and> ipc_inv hold det' s'"
  using kipc_release_inv [OF assms(3) [OF kipc_acquire_inv(1) [OF assms(1,2)]], of a] by simp

lemma kipc_enqueue_nonblocking_inv:
  assumes "ipc_inv hold det s" "eps s a = Some e"
  shows "\<exists>r s'. kipc_enqueue_nonblocking a m s = Some (r, s') \<and> ipc_inv hold det s'"
  using assms enqueue_locked_inv [OF assms, of m]
  by (cases "enqueue_locked a m e s") (auto simp: kipc_enqueue_nonblocking_def)

lemma kipc_send_nb_inv:
  assumes "ipc_inv hold det s"
  shows "\<exists>r s'. kipc_send_nb c h m s = Some (r, s') \<and> ipc_inv hold det s'"
proof -
  obtain q s1 where acq: "kipc_acquire h s = (q, s1)" by fastforce
  show ?thesis
  proof (cases q)
    case None then show ?thesis using acq kipc_acquire_None [of h s s1] assms by (auto simp: kipc_send_nb_def)
  next
    case (Some a)
    with acq have acq: "kipc_acquire h s = (Some a, s1)" by simp
    obtain e where e: "eps s1 a = Some e" using kipc_acquire_inv(2) [OF assms acq] by blast
    from kipc_enqueue_nonblocking_inv [OF kipc_acquire_inv(1) [OF assms acq] e, of "m\<lparr>sender_tid := c\<rparr>"]
    obtain r s2 where r: "kipc_enqueue_nonblocking a (m\<lparr>sender_tid := c\<rparr>) s1 = Some (r, s2)"
      "ipc_inv (hold(a := hold a + 1)) det s2" by blast
    from kipc_release_inv [OF r(2), of a] r acq assms show ?thesis by (auto simp: kipc_send_nb_def)
  qed
qed

lemma kipc_recv_nb_inv:
  assumes "ipc_inv hold det s"
  shows "\<exists>r s'. kipc_recv_nb h s = Some (r, s') \<and> ipc_inv hold det s'"
proof -
  obtain q s1 where acq: "kipc_acquire h s = (q, s1)" by fastforce
  show ?thesis
  proof (cases q)
    case None then show ?thesis using acq kipc_acquire_None [of h s s1] assms by (auto simp: kipc_recv_nb_def)
  next
    case (Some a)
    with acq have acq: "kipc_acquire h s = (Some a, s1)" by simp
    obtain e where e: "eps s1 a = Some e" "\<not> is_shutting_down e" using kipc_acquire_inv(2) [OF assms acq] by blast
    have inv1: "ipc_inv (hold(a := hold a + 1)) det s1" by (rule kipc_acquire_inv(1) [OF assms acq])
    show ?thesis
    proof (cases "dequeue_locked a e s1")
      case None
      then show ?thesis using kipc_release_inv [OF inv1, of a] acq e assms by (auto simp: kipc_recv_nb_def)
    next
      case (Some ms)
      then show ?thesis using kipc_release_inv [OF dequeue_locked_inv [OF inv1 e(1)], of _ _ a] acq e assms
        by (cases ms) (fastforce simp: kipc_recv_nb_def)
    qed
  qed
qed

lemma ipc_inv_bindings:
  assumes "ipc_inv hold det s" "eps s a = Some e" "\<not> is_shutting_down e" "distinct (map fst (g (notify_bindings e)))"
    and "\<And>n. det' n + count_list (map fst (g (notify_bindings e))) n = det n + count_list (map fst (notify_bindings e)) n"
  shows "ipc_inv hold det' (e_update a (\<lambda>e. e\<lparr>notify_bindings := g (notify_bindings e)\<rparr>) s)"
proof -
  let ?s = "e_update a (\<lambda>e. e\<lparr>notify_bindings := g (notify_bindings e)\<rparr>) s"
  let ?R = "{b. registered b (endpoints s)}"
  have ra: "a \<in> ?R" using ipc_invD(2) [OF assms(1,2)] assms(3) by (simp add: ep_ok_def)
  have "det' n + bind_refs ?s n = det n + bind_refs s n" for n
  proof -
    have "bind_refs s n = bcount s n a + sum (bcount s n) (?R - {a})"
      "bind_refs ?s n = bcount ?s n a + sum (bcount ?s n) (?R - {a})"
      unfolding bind_refs_def e_update_simps using ra by (simp_all add: sum.remove)
    moreover have "sum (bcount ?s n) (?R - {a}) = sum (bcount s n) (?R - {a})"
      by (rule sum.cong) (auto simp: bcount_def)
    moreover have "det' n + bcount ?s n a = det n + bcount s n a" using assms(2,5) by (simp add: bcount_def)
    ultimately show ?thesis by simp
  qed
  then have refs: "(\<lambda>n. det' n + bind_refs ?s n) = (\<lambda>n. det n + bind_refs s n)" by (simp add: fun_eq_iff)
  show ?thesis
  proof (rule ipc_invI)
    show "obj_inv (eps ?s) (endpoints ?s) (next_handle ?s) e_handle e_references hold"
      using obj_inv_soft_upd [OF ipc_invD(1) [OF assms(1)], of a] by simp
    show "notify_inv (\<lambda>n. det' n + bind_refs ?s n) (notifications ?s)"
      unfolding refs using ipc_invD(3) [OF assms(1)] by simp
    show "ep_ok (registered b (endpoints ?s)) e'" if "eps ?s b = Some e'" for b e'
      using that assms(2-4) ipc_invD(2) [OF assms(1), of b] by (cases "b = a") (auto simp: ep_ok_def queue_wf_def)
  qed
qed

lemma kipc_create_Inr:
  assumes "kipc_create mem s = (Inr h, s1)"
  obtains a where "mem = Some a" "h = next_handle s" "endpoints s1 = HASH_ADD h a (endpoints s)"
    "eps s1 = (eps s)(a \<mapsto> new_endpoint h)" "notifications s1 = notifications s"
  using assms by (auto simp: kipc_create_def ipc_insert_def split: option.splits)

lemma ipc_inv_ep_type: "ipc_inv hold det s \<Longrightarrow> ipc_inv hold det (e_update a (\<lambda>e. e\<lparr>ep_type := t\<rparr>) s)"
  by (erule ipc_inv_soft) (simp add: queue_wf_def)

lemma kipc_create_publisher_inv:
  assumes "ipc_inv hold det s" "\<And>a. mem = Some a \<Longrightarrow> eps s a = None" "next_handle s \<noteq> UINT64_MAX"
  shows "\<exists>r s'. kipc_create_publisher mem s = Some (r, s') \<and> ipc_inv hold det s'"
proof -
  obtain r s1 where cr: "kipc_create mem s = (r, s1)" by fastforce
  have inv1: "ipc_inv hold det s1" using kipc_create_inv [OF assms(1) _ assms(3), of mem] assms(2) cr by simp
  show ?thesis
  proof (cases r)
    case (Inl err) then show ?thesis using cr inv1 by (simp add: kipc_create_publisher_def)
  next
    case (Inr h)
    obtain q s2 where acq: "kipc_acquire h s1 = (q, s2)" by fastforce
    show ?thesis
    proof (cases q)
      case None then show ?thesis using acq kipc_acquire_None [of h s1 s2] cr Inr inv1 by (simp add: kipc_create_publisher_def)
    next
      case (Some a)
      with acq have acq: "kipc_acquire h s1 = (Some a, s2)" by simp
      have "\<exists>s'. kipc_release a (e_update a (\<lambda>e. e\<lparr>ep_type := IPC_ENDPOINT_PUBLISHER\<rparr>) s2) = Some s' \<and> ipc_inv hold det s'"
        by (rule release_after [OF inv1 acq]) (rule ipc_inv_ep_type)
      then show ?thesis using acq cr Inr by (auto simp: kipc_create_publisher_def)
    qed
  qed
qed

lemma release_two:
  assumes "ipc_inv (h1(sub := h1 sub + 1)) det s" "h1 = hold(pub := hold pub + 1)"
  shows "\<exists>s1 s2. kipc_release sub s = Some s1 \<and> kipc_release pub s1 = Some s2 \<and> ipc_inv hold det s2"
proof -
  have "(h1(sub := h1 sub + 1))(sub := h1 sub + 1 - 1) = h1" by simp
  with kipc_release_inv [OF assms(1), of sub] obtain s1 where
    s1: "kipc_release sub s = Some s1" "ipc_inv h1 det s1" by auto
  from kipc_release_inv [OF s1(2), of pub] s1(1) assms(2) show ?thesis by auto
qed

lemma kipc_subscribe_link_inv:
  assumes "ipc_inv (h1(sub := h1 sub + 1)) det s" and h1: "h1 = hold(pub := hold pub + 1)"
  shows "\<exists>r s'. kipc_subscribe_link pub h sub sub_ok s = Some (r, s') \<and> ipc_inv hold det s'"
proof -
  let ?s4 = "e_update sub (\<lambda>e. e\<lparr>ep_type := IPC_ENDPOINT_SUBSCRIBER\<rparr>) s"
  have inv4: "ipc_inv (h1(sub := h1 sub + 1)) det ?s4" using assms(1) by (rule ipc_inv_ep_type)
  have "0 < (h1(sub := h1 sub + 1)) pub" by (simp add: h1)
  from obj_inv_held [OF ipc_invD(1) [OF inv4] this] obtain p4 where p4: "eps ?s4 pub = Some p4" by blast
  note drop = release_two [OF _ h1, of sub det]
  show ?thesis
  proof (cases "sub_ok \<and> \<not> is_shutting_down p4")
    case True
    have "ipc_inv (h1(sub := h1 sub + 1)) det (e_update pub (\<lambda>e. e\<lparr>subscribers := h # subscribers e\<rparr>) ?s4)"
      by (rule ipc_inv_soft [OF inv4]) (simp add: queue_wf_def)
    from drop [OF this] show ?thesis using p4 True by (auto simp: kipc_subscribe_link_def Let_def simp del: e_update_simps)
  next
    case False
    from drop [OF inv4] obtain s5 s6 where s6: "kipc_release sub ?s4 = Some s5" "kipc_release pub s5 = Some s6"
      "ipc_inv hold det s6" by blast
    from kipc_destroy_inv [OF s6(3), of h] show ?thesis using p4 False s6
      by (auto simp: kipc_subscribe_link_def Let_def simp del: e_update_simps)
  qed
qed

lemma kipc_subscribe_inv:
  assumes "ipc_inv hold det s" "\<And>a. mem = Some a \<Longrightarrow> eps s a = None" "next_handle s \<noteq> UINT64_MAX"
  shows "\<exists>r s'. kipc_subscribe publisher mem sub_ok s = Some (r, s') \<and> ipc_inv hold det s'"
proof -
  obtain q s1 where acq: "kipc_acquire publisher s = (q, s1)" by fastforce
  show ?thesis
  proof (cases q)
    case None then show ?thesis using acq kipc_acquire_None [of publisher s s1] assms(1) by (simp add: kipc_subscribe_def)
  next
    case (Some pub)
    with acq have acq: "kipc_acquire publisher s = (Some pub, s1)" by simp
    define h1 where "h1 = hold(pub := hold pub + 1)"
    have inv1: "ipc_inv h1 det s1" using kipc_acquire_inv(1) [OF assms(1) acq] by (simp add: h1_def)
    obtain p where p: "eps s1 pub = Some p" "\<not> is_shutting_down p" using kipc_acquire_inv(2) [OF assms(1) acq] by blast
    have rel1: "\<exists>s'. kipc_release pub s = Some s' \<and> ipc_inv hold det s'" if "ipc_inv h1 det s" for s
      using kipc_release_inv [OF that, of pub] by (auto simp: h1_def)
    obtain c s2 where cr: "kipc_create mem s1 = (c, s2)" by fastforce
    have dom: "eps s1 a = None" if "mem = Some a" for a
      using assms(2) [OF that] acq by (auto simp: kipc_acquire_def split: option.splits)
    have inv2: "ipc_inv h1 det s2"
      using kipc_create_inv [OF inv1 dom, of mem] assms(3) kipc_acquire_inv(4) [OF assms(1) acq] cr by simp
    have link: ?thesis if "ep_type p = IPC_ENDPOINT_PUBLISHER" "c = Inr h" for h
    proof -
      obtain q3 s3 where acq3: "kipc_acquire h s2 = (q3, s3)" by fastforce
      show ?thesis using acq p that cr acq3 kipc_acquire_None [of h s2 s3] rel1 [OF inv2]
          kipc_subscribe_link_inv [OF kipc_acquire_inv(1) [OF inv2, of h _ s3] h1_def]
        by (cases q3) (auto simp: kipc_subscribe_def)
    qed
    show ?thesis using acq p cr rel1 [OF inv1] rel1 [OF inv2] link
      by (cases "ep_type p = IPC_ENDPOINT_PUBLISHER"; cases c) (auto simp: kipc_subscribe_def)
  qed
qed

lemma rebind_fst: "map fst (rebind n bits bs) = map fst bs"
  by (induction bs) (auto simp: rebind_def)

lemma bind_existing_inv:
  assumes "ipc_inv hold det s" "eps s a = Some e" "\<not> is_shutting_down e"
  shows "ipc_inv hold det (e_update a (\<lambda>e. e\<lparr>notify_bindings := rebind n bits (notify_bindings e)\<rparr>) s)"
  using ipc_invD(2) [OF assms(1,2)] by (intro ipc_inv_bindings [OF assms]) (simp_all add: rebind_fst ep_ok_def)

lemma bind_new_inv:
  assumes "ipc_inv hold (det(n := det n + 1)) s" "eps s a = Some e" "\<not> is_shutting_down e"
    "n \<notin> fst ` set (notify_bindings e)"
  shows "ipc_inv hold det (e_update a (\<lambda>e. e\<lparr>notify_bindings := (n, bits) # notify_bindings e\<rparr>) s)"
  using ipc_invD(2) [OF assms(1,2)] assms(4)
  by (intro ipc_inv_bindings [OF assms(1-3), of "\<lambda>bs. (n, bits) # bs"]) (simp_all add: ep_ok_def)

lemma release_ep_notify:
  assumes "ipc_inv (hold(a := hold a + 1)) (det(n := det n + 1)) s"
  shows "\<exists>s1 s2. kipc_release a s = Some s1 \<and> notify_release n s1 = Some s2 \<and> ipc_inv hold det s2"
proof -
  from kipc_release_inv [OF assms, of a] obtain s1 where
    s1: "kipc_release a s = Some s1" "ipc_inv hold (det(n := det n + 1)) s1" by auto
  from notify_release_inv [OF s1(2), of n] s1(1) show ?thesis by auto
qed

lemma kipc_bind_locked_inv:
  assumes inv: "ipc_inv (hold(a := hold a + 1)) (det(n := det n + 1)) s" and e: "eps s a = Some e" "\<not> is_shutting_down e"
  shows "n \<in> fst ` set (notify_bindings e) \<Longrightarrow>
      \<exists>s1 s2. kipc_release a (signal_if_queued e n bits
            (e_update a (\<lambda>e. e\<lparr>notify_bindings := rebind n bits (notify_bindings e)\<rparr>) s)) = Some s1 \<and>
          notify_release n s1 = Some s2 \<and> ipc_inv hold det s2"
    "n \<notin> fst ` set (notify_bindings e) \<Longrightarrow>
      \<exists>s1. kipc_release a (signal_if_queued e n bits
            (e_update a (\<lambda>e. e\<lparr>notify_bindings := (n, bits) # notify_bindings e\<rparr>) s)) = Some s1 \<and> ipc_inv hold det s1"
  using release_ep_notify [OF signal_if_queued_inv [OF bind_existing_inv [OF inv e]]]
    kipc_release_inv [OF signal_if_queued_inv [OF bind_new_inv [OF inv e]], of a] by simp_all

lemma kipc_bind_notify_inv:
  assumes "ipc_inv hold det s"
  shows "\<exists>r s'. kipc_bind_notify h nh bits mem_ok s = Some (r, s') \<and> ipc_inv hold det s'"
proof (cases "h = 0 \<or> h = IPC_INVALID_HANDLE \<or> nh = NOTIFY_INVALID_HANDLE \<or> bits = 0")
  case True then show ?thesis using assms by (auto simp: kipc_bind_notify_def)
next
  case args: False
  obtain q m where acq: "knotify_acquire nh (notifications s) = (q, m)" by fastforce
  show ?thesis
  proof (cases q)
    case None
    then show ?thesis using acq nref.acquire_None [of nh "notifications s" m] args assms
      by (auto simp: kipc_bind_notify_def)
  next
    case (Some n)
    with acq have acq: "knotify_acquire nh (notifications s) = (Some n, m)" by simp
    let ?s = "s\<lparr>notifications := m\<rparr>"
    have inv1: "ipc_inv hold (det(n := det n + 1)) ?s" by (rule notify_acquire_inv [OF assms acq])
    note rel = notify_release_inv [OF inv1, of n]
    obtain q2 s2 where acq2: "kipc_acquire h ?s = (q2, s2)" by fastforce
    show ?thesis
    proof (cases "mem_ok \<and> q2 \<noteq> None")
      case False
      then show ?thesis using acq acq2 kipc_acquire_None [of h ?s s2] args rel
        by (cases mem_ok) (auto simp: kipc_bind_notify_def Let_def)
    next
      case True
      then obtain a where acq2: "kipc_acquire h ?s = (Some a, s2)" using acq2 by auto
      have inv2: "ipc_inv (hold(a := hold a + 1)) (det(n := det n + 1)) s2" by (rule kipc_acquire_inv(1) [OF inv1 acq2])
      obtain e where e: "eps s2 a = Some e" "\<not> is_shutting_down e" using kipc_acquire_inv(2) [OF inv1 acq2] by blast
      show ?thesis using args acq acq2 e True kipc_bind_locked_inv [OF inv2 e, of bits]
        by (cases "n \<in> fst ` set (notify_bindings e)") (auto simp: kipc_bind_notify_def Let_def simp del: e_update_simps)
    qed
  qed
qed

lemma find_binding_total:
  assumes "\<And>b. b \<in> set bs \<Longrightarrow> \<exists>n. n_objs m (fst b) = Some n"
  shows "\<exists>r. find_binding nh m bs = Some r \<and> (\<forall>b. r = Some b \<longrightarrow> b \<in> set bs)"
  using assms
proof (induction bs)
  case (Cons b bs)
  from Cons.prems [of b] obtain n where "n_objs m (fst b) = Some n" by auto
  with Cons show ?case by (cases "n_handle n = nh") auto
qed simp

lemma bound_alive:
  assumes "ipc_inv hold det s" "eps s a = Some e" "b \<in> set (notify_bindings e)"
  shows "\<exists>n. n_objs (notifications s) (fst b) = Some n"
proof -
  have "registered a (endpoints s)" using ipc_invD(2) [OF assms(1,2)] assms(3) by (auto simp: ep_ok_def)
  then have "bcount s (fst b) a \<le> bind_refs s (fst b)"
    unfolding bind_refs_def by (intro member_le_sum) simp_all
  moreover have "0 < bcount s (fst b) a" using assms(2,3) by (simp add: bcount_def count_list_pos)
  ultimately show ?thesis
    using obj_inv_held [OF ipc_invD(3) [OF assms(1), unfolded notify_inv_def], of "fst b"] by simp
qed

lemma count_list_remove1_fst:
  "b \<in> set bs \<Longrightarrow> count_list (map fst (remove1 b bs)) n + (if n = fst b then 1 else 0) = count_list (map fst bs) n"
proof (induction bs)
  case (Cons c bs)
  then show ?case by (cases "c = b") simp_all
qed simp

lemma distinct_fst_remove1: "distinct (map fst bs) \<Longrightarrow> distinct (map fst (remove1 b bs))"
  using set_remove1_subset [of b bs] by (auto simp: distinct_map inj_on_def)

lemma unbind_inv:
  assumes "ipc_inv hold det s" "eps s a = Some e" "\<not> is_shutting_down e" "b \<in> set (notify_bindings e)"
  shows "ipc_inv hold (det(fst b := det (fst b) + 1))
           (e_update a (\<lambda>e. e\<lparr>notify_bindings := remove1 b (notify_bindings e)\<rparr>) s)"
proof (rule ipc_inv_bindings [OF assms(1-3)])
  show "distinct (map fst (remove1 b (notify_bindings e)))"
    using ipc_invD(2) [OF assms(1,2)] by (simp add: ep_ok_def distinct_fst_remove1)
  fix n show "(det(fst b := det (fst b) + 1)) n + count_list (map fst (remove1 b (notify_bindings e))) n =
      det n + count_list (map fst (notify_bindings e)) n"
    using count_list_remove1_fst [OF assms(4), of n] by (cases "n = fst b") simp_all
qed

lemma kipc_unbind_notify_inv:
  assumes "ipc_inv hold det s"
  shows "\<exists>r s'. kipc_unbind_notify h nh s = Some (r, s') \<and> ipc_inv hold det s'"
proof (cases "h = 0 \<or> h = IPC_INVALID_HANDLE \<or> nh = NOTIFY_INVALID_HANDLE")
  case True then show ?thesis using assms by (auto simp: kipc_unbind_notify_def)
next
  case args: False
  obtain q s1 where acq: "kipc_acquire h s = (q, s1)" by fastforce
  show ?thesis
  proof (cases q)
    case None then show ?thesis using acq kipc_acquire_None [of h s s1] args assms by (auto simp: kipc_unbind_notify_def)
  next
    case (Some a)
    with acq have acq: "kipc_acquire h s = (Some a, s1)" by simp
    have inv1: "ipc_inv (hold(a := hold a + 1)) det s1" by (rule kipc_acquire_inv(1) [OF assms acq])
    obtain e where e: "eps s1 a = Some e" "\<not> is_shutting_down e" using kipc_acquire_inv(2) [OF assms acq] by blast
    obtain r where r: "find_binding nh (notifications s1) (notify_bindings e) = Some r"
      "\<And>b. r = Some b \<Longrightarrow> b \<in> set (notify_bindings e)"
      using find_binding_total [of "notify_bindings e" "notifications s1" nh] bound_alive [OF inv1 e(1)] by blast
    show ?thesis
    proof (cases r)
      case None
      then show ?thesis using args acq e r kipc_release_inv [OF inv1, of a] by (auto simp: kipc_unbind_notify_def)
    next
      case (Some b)
      let ?s2 = "e_update a (\<lambda>e. e\<lparr>notify_bindings := remove1 b (notify_bindings e)\<rparr>) s1"
      from unbind_inv [OF inv1 e r(2) [OF Some]]
      have "ipc_inv (hold(a := hold a + 1)) (det(fst b := det (fst b) + 1)) ?s2" .
      from notify_release_inv [OF this, of "fst b"] obtain s3 where
        s3: "notify_release (fst b) ?s2 = Some s3" "ipc_inv (hold(a := hold a + 1)) det s3" by auto
      from kipc_release_inv [OF s3(2), of a] show ?thesis using args acq e r Some s3
        by (auto simp: kipc_unbind_notify_def Let_def simp del: e_update_simps)
    qed
  qed
qed

section \<open>Any history of operations that do not block\<close>

datatype ipc_op =
    ICreate "addr option"
  | ICreatePublisher "addr option"
  | ISubscribe u64 "addr option" bool
  | IDestroy u64
  | IBind u64 u64 u64 bool
  | IUnbind u64 u64
  | ISendNb u64 u64 ipc_message_t
  | IRecvNb u64
  | INotify notify_op

fun ipc_ok :: "ipc_op \<Rightarrow> ipc_state \<Rightarrow> bool" where
  "ipc_ok (ICreate mem) s \<longleftrightarrow> (\<forall>a \<in> set_option mem. eps s a = None) \<and> next_handle s \<noteq> UINT64_MAX"
| "ipc_ok (ICreatePublisher mem) s \<longleftrightarrow> (\<forall>a \<in> set_option mem. eps s a = None) \<and> next_handle s \<noteq> UINT64_MAX"
| "ipc_ok (ISubscribe h mem ok) s \<longleftrightarrow> (\<forall>a \<in> set_option mem. eps s a = None) \<and> next_handle s \<noteq> UINT64_MAX"
| "ipc_ok (INotify op) s \<longleftrightarrow> notify_ok op [] (notifications s) \<and> (case op of NAcquire h \<Rightarrow> False | _ \<Rightarrow> True)"
| "ipc_ok _ s \<longleftrightarrow> True"

fun ipc_exec :: "ipc_op \<Rightarrow> ipc_state \<Rightarrow> ipc_state option" where
  "ipc_exec (ICreate mem) s = Some (snd (kipc_create mem s))"
| "ipc_exec (ICreatePublisher mem) s = map_option snd (kipc_create_publisher mem s)"
| "ipc_exec (ISubscribe h mem ok) s = map_option snd (kipc_subscribe h mem ok s)"
| "ipc_exec (IDestroy h) s = map_option snd (kipc_destroy h s)"
| "ipc_exec (IBind h nh bits ok) s = map_option snd (kipc_bind_notify h nh bits ok s)"
| "ipc_exec (IUnbind h nh) s = map_option snd (kipc_unbind_notify h nh s)"
| "ipc_exec (ISendNb c h m) s = map_option snd (kipc_send_nb c h m s)"
| "ipc_exec (IRecvNb h) s = map_option snd (kipc_recv_nb h s)"
| "ipc_exec (INotify op) s = map_option (\<lambda>r. s\<lparr>notifications := snd r\<rparr>) (notify_exec op ([], notifications s))"

fun ipc_run :: "ipc_op list \<Rightarrow> ipc_state \<Rightarrow> ipc_state option" where
  "ipc_run [] s = Some s"
| "ipc_run (op # ops) s = (if ipc_ok op s then Option.bind (ipc_exec op s) (ipc_run ops) else ipc_run ops s)"

lemma ipc_notify_exec_inv:
  assumes "ipc_inv hold det s" "notify_ok op [] (notifications s)" "case op of NAcquire h \<Rightarrow> False | _ \<Rightarrow> True"
  shows "\<exists>s'. ipc_exec (INotify op) s = Some s' \<and> ipc_inv hold det s'"
proof -
  have "notify_inv (refs_of [] (\<lambda>n. det n + bind_refs s n)) (notifications s)" using ipc_invD(3) [OF assms(1)] by simp
  from notify_exec_inv [OF this assms(2)] obtain held m where
    ex: "notify_exec op ([], notifications s) = Some (held, m)"
    and m: "notify_inv (refs_of held (\<lambda>n. det n + bind_refs s n)) m" by blast
  have "held = []" using ex assms(2,3) by (cases op) auto
  with ex m ipc_inv_notif [OF assms(1), of det m] show ?thesis by simp
qed

lemma ipc_exec_inv:
  assumes "ipc_inv hold det s" "ipc_ok op s"
  shows "\<exists>s'. ipc_exec op s = Some s' \<and> ipc_inv hold det s'"
proof (cases op)
  case (ICreate mem) then show ?thesis using kipc_create_inv [OF assms(1), of mem] assms(2) by simp
next
  case (ICreatePublisher mem) then show ?thesis using kipc_create_publisher_inv [OF assms(1), of mem] assms(2) by auto
next
  case (ISubscribe h mem ok) then show ?thesis using kipc_subscribe_inv [OF assms(1), of mem h ok] assms(2) by auto
next
  case (IDestroy h) then show ?thesis using kipc_destroy_inv [OF assms(1), of h] by auto
next
  case (IBind h nh bits ok) then show ?thesis using kipc_bind_notify_inv [OF assms(1), of h nh bits ok] by auto
next
  case (IUnbind h nh) then show ?thesis using kipc_unbind_notify_inv [OF assms(1), of h nh] by auto
next
  case (ISendNb c h m) then show ?thesis using kipc_send_nb_inv [OF assms(1), of c h m] by auto
next
  case (IRecvNb h) then show ?thesis using kipc_recv_nb_inv [OF assms(1), of h] by auto
next
  case (INotify n) then show ?thesis using ipc_notify_exec_inv [OF assms(1), of n] assms(2) by auto
qed

lemma ipc_run_inv: "ipc_inv hold det s \<Longrightarrow> \<exists>s'. ipc_run ops s = Some s' \<and> ipc_inv hold det s'"
proof (induction ops arbitrary: s)
  case (Cons op ops)
  then show ?case using ipc_exec_inv [OF Cons.prems, of op] by (cases "ipc_ok op s") fastforce+
qed simp

lemma kipc_init_inv: "ipc_inv (\<lambda>_. 0) (\<lambda>_. 0) (kipc_init knotify_init)"
  using knotify_init_inv by (intro ipc_invI) (simp_all add: kipc_init_def obj_inv_init bind_refs_def registered_def)

lemma ipc_no_leak:
  assumes "ipc_inv (\<lambda>_. 0) (\<lambda>_. 0) s" "endpoints s = []"
  shows "eps s = (\<lambda>_. None) \<and> notify_inv (\<lambda>_. 0) (notifications s)"
  using obj_inv_no_leak [of "eps s"] ipc_invD(1,3) [OF assms(1)] assms(2)
  by (auto simp: fun_eq_iff bind_refs_def registered_def)



section \<open>What the non-blocking operations do\<close>

lemma kipc_acquire_live:
  assumes "HASH_FIND h (endpoints s) = Some a" "eps s a = Some e"
  obtains s1 where "kipc_acquire h s = (Some a, s1)" "eps s1 a = Some (e\<lparr>e_references := e_references e + 1\<rparr>)"
    "s1 = s\<lparr>eps := (eps s)(a \<mapsto> e\<lparr>e_references := e_references e + 1\<rparr>)\<rparr>"
  using assms by (simp add: kipc_acquire_def e_update_def)

lemma kipc_release_alive:
  assumes "eps s a = Some e" "1 < e_references e"
  shows "kipc_release a s = Some (s\<lparr>eps := (eps s)(a \<mapsto> e\<lparr>e_references := e_references e - 1\<rparr>)\<rparr>)"
  using assms by (simp add: kipc_release_def e_update_def)

lemma queue_list_cong:
  "queue e' = queue e \<Longrightarrow> queue_head e' = queue_head e \<Longrightarrow> queue_count e' = queue_count e \<Longrightarrow> queue_list e' = queue_list e"
  by (simp add: queue_list_def)

definition wake_receiver :: "ipc_endpoint_t \<Rightarrow> ipc_endpoint_t \<Rightarrow> bool" where
  \<comment> \<open>one waiting receiver, if there is any, turned into one post\<close>
  "wake_receiver e e' \<longleftrightarrow> waiting_receivers e' = waiting_receivers e - 1 \<and>
     receiver_sem e' = receiver_sem e + (if waiting_receivers e = 0 then 0 else 1)"

definition wake_sender :: "ipc_endpoint_t \<Rightarrow> ipc_endpoint_t \<Rightarrow> bool" where
  "wake_sender e e' \<longleftrightarrow> waiting_senders e' = waiting_senders e - 1 \<and>
     sender_sem e' = sender_sem e + (if waiting_senders e = 0 then 0 else 1)"

lemma enqueue_locked_cases:
  assumes "queue_wf e"
  shows "length (queue_list e) = 64 \<Longrightarrow> enqueue_locked a m e s = None"
    "length (queue_list e) \<noteq> 64 \<Longrightarrow> \<exists>e' n. enqueue_locked a m e s = Some (s\<lparr>eps := (eps s)(a \<mapsto> e'), notifications := n\<rparr>) \<and>
       queue_list e' = queue_list e @ [m] \<and> wake_receiver e e' \<and> e_references e' = e_references e"
proof -
  assume "length (queue_list e) = 64"
  then show "enqueue_locked a m e s = None" using ring.push_full [OF assms, of m] by (simp add: enqueue_locked_def)
next
  assume "length (queue_list e) \<noteq> 64"
  then obtain e1 where e1: "kipc_queue_push e m = Some e1" using ring.push_full [OF assms, of m] by auto
  then have q: "queue_list e1 = queue_list e @ [m]" using ring.push_some [OF assms] by blast
  have same: "waiting_receivers e1 = waiting_receivers e" "receiver_sem e1 = receiver_sem e" "e_references e1 = e_references e"
    using e1 by (auto simp: kipc_queue_push_def split: if_splits)
  let ?e = "if waiting_receivers e1 \<noteq> 0
      then e1\<lparr>waiting_receivers := waiting_receivers e1 - 1, receiver_sem := receiver_sem e1 + 1\<rparr> else e1"
  have "queue_list ?e = queue_list e @ [m]" unfolding q [symmetric] by (rule queue_list_cong) simp_all
  moreover have "wake_receiver e ?e" "e_references ?e = e_references e" using same by (simp_all add: wake_receiver_def)
  moreover have "enqueue_locked a m e s = Some (s\<lparr>eps := (eps s)(a \<mapsto> ?e),
      notifications := kipc_signal_notify_bindings_locked (notify_bindings e1) (notifications s)\<rparr>)"
    using e1 by (simp add: enqueue_locked_def)
  ultimately show "\<exists>e' n. enqueue_locked a m e s = Some (s\<lparr>eps := (eps s)(a \<mapsto> e'), notifications := n\<rparr>) \<and>
      queue_list e' = queue_list e @ [m] \<and> wake_receiver e e' \<and> e_references e' = e_references e" by blast
qed

lemma dequeue_locked_cases:
  assumes "queue_wf e"
  shows "queue_list e = [] \<Longrightarrow> dequeue_locked a e s = None"
    "queue_list e = m # ms \<Longrightarrow> \<exists>e'. dequeue_locked a e s = Some (m, s\<lparr>eps := (eps s)(a \<mapsto> e')\<rparr>) \<and>
       queue_list e' = ms \<and> wake_sender e e' \<and> e_references e' = e_references e"
proof -
  assume "queue_list e = []"
  then show "dequeue_locked a e s = None" using ring.pop_empty [OF assms] by (simp add: dequeue_locked_def)
next
  assume ml: "queue_list e = m # ms"
  then obtain m1 e1 where e1: "kipc_queue_pop e = Some (m1, e1)" using ring.pop_empty [OF assms]
    by (cases "kipc_queue_pop e") auto
  then have q: "m1 = m" "queue_list e1 = ms" using ring.pop_some [OF assms] ml by auto
  have same: "waiting_senders e1 = waiting_senders e" "sender_sem e1 = sender_sem e" "e_references e1 = e_references e"
    using e1 by (auto simp: kipc_queue_pop_def split: if_splits)
  let ?e = "if waiting_senders e1 \<noteq> 0
      then e1\<lparr>waiting_senders := waiting_senders e1 - 1, sender_sem := sender_sem e1 + 1\<rparr> else e1"
  have "queue_list ?e = ms" unfolding q(2) [symmetric] by (rule queue_list_cong) simp_all
  moreover have "wake_sender e ?e" "e_references ?e = e_references e" using same by (simp_all add: wake_sender_def)
  moreover have "dequeue_locked a e s = Some (m, s\<lparr>eps := (eps s)(a \<mapsto> ?e)\<rparr>)"
    using e1 q(1) by (simp add: dequeue_locked_def)
  ultimately show "\<exists>e'. dequeue_locked a e s = Some (m, s\<lparr>eps := (eps s)(a \<mapsto> e')\<rparr>) \<and>
      queue_list e' = ms \<and> wake_sender e e' \<and> e_references e' = e_references e" by blast
qed

lemma kipc_send_nb_live:
  assumes "ipc_inv hold det s" "HASH_FIND h (endpoints s) = Some a" "h \<noteq> 0" "eps s a = Some e"
  shows "length (queue_list e) = 64 \<Longrightarrow> kipc_send_nb c h m s = Some (IPC_ERR_CANCELLED, s)"
    "length (queue_list e) \<noteq> 64 \<Longrightarrow> \<exists>s' e'. kipc_send_nb c h m s = Some (IPC_OK, s') \<and> eps s' a = Some e' \<and>
       queue_list e' = queue_list e @ [m\<lparr>sender_tid := c\<rparr>] \<and> wake_receiver e e' \<and> endpoints s' = endpoints s"
proof -
  let ?e = "e\<lparr>e_references := e_references e + 1\<rparr>"
  obtain s1 where s1: "kipc_acquire h s = (Some a, s1)" "eps s1 a = Some ?e" "s1 = s\<lparr>eps := (eps s)(a \<mapsto> ?e)\<rparr>"
    using kipc_acquire_live [OF assms(2,4)] by blast
  have open_e: "\<not> is_shutting_down ?e" "queue_wf ?e" "0 < e_references e"
    using ipc_inv_live(1) [OF assms(1,2)] ipc_invD(2) [OF assms(1,4)] obj_inv_refs(2) [OF ipc_invD(1) [OF assms(1)] assms(4)] assms(4)
    by (auto simp: ep_ok_def queue_wf_def)
  have ql: "queue_list ?e = queue_list e" by (rule queue_list_cong) simp_all
  note enq = enqueue_locked_cases [OF open_e(2), unfolded ql]
  {
    assume "length (queue_list e) = 64"
    then have "kipc_enqueue_nonblocking a (m\<lparr>sender_tid := c\<rparr>) s1 = Some (IPC_ERR_CANCELLED, s1)"
      using enq(1) s1(2) open_e(1) by (simp add: kipc_enqueue_nonblocking_def)
    moreover have "kipc_release a s1 = Some s"
      using kipc_release_alive [OF s1(2)] open_e(3) s1(3) assms(4) by (simp add: fun_upd_idem)
    ultimately show "kipc_send_nb c h m s = Some (IPC_ERR_CANCELLED, s)" using assms(3) s1(1) by (simp add: kipc_send_nb_def)
  }
  assume "length (queue_list e) \<noteq> 64"
  from enq(2) [OF this, of a "m\<lparr>sender_tid := c\<rparr>" s1] obtain e1 n where
    e1: "enqueue_locked a (m\<lparr>sender_tid := c\<rparr>) ?e s1 = Some (s1\<lparr>eps := (eps s1)(a \<mapsto> e1), notifications := n\<rparr>)"
      "queue_list e1 = queue_list e @ [m\<lparr>sender_tid := c\<rparr>]" "wake_receiver ?e e1" "e_references e1 = e_references ?e" by blast
  let ?s2 = "s1\<lparr>eps := (eps s1)(a \<mapsto> e1), notifications := n\<rparr>"
  let ?e2 = "e1\<lparr>e_references := e_references e1 - 1\<rparr>"
  have "kipc_release a ?s2 = Some (?s2\<lparr>eps := (eps ?s2)(a \<mapsto> ?e2)\<rparr>)"
    using open_e(3) e1(4) by (intro kipc_release_alive) simp_all
  then have "kipc_send_nb c h m s = Some (IPC_OK, ?s2\<lparr>eps := (eps ?s2)(a \<mapsto> ?e2)\<rparr>)"
    using assms(3) s1(1,2) open_e(1) e1(1) by (simp add: kipc_send_nb_def kipc_enqueue_nonblocking_def)
  moreover have "queue_list ?e2 = queue_list e @ [m\<lparr>sender_tid := c\<rparr>]"
    unfolding e1(2) [symmetric] by (rule queue_list_cong) simp_all
  moreover have "wake_receiver e ?e2" using e1(3) by (simp add: wake_receiver_def)
  ultimately show "\<exists>s' e'. kipc_send_nb c h m s = Some (IPC_OK, s') \<and> eps s' a = Some e' \<and>
       queue_list e' = queue_list e @ [m\<lparr>sender_tid := c\<rparr>] \<and> wake_receiver e e' \<and> endpoints s' = endpoints s"
    using s1(3) by simp
qed

lemma kipc_recv_nb_live:
  assumes "ipc_inv hold det s" "HASH_FIND h (endpoints s) = Some a" "h \<noteq> 0" "eps s a = Some e"
  shows "queue_list e = [] \<Longrightarrow> kipc_recv_nb h s = Some (Inl IPC_ERR_CANCELLED, s)"
    "queue_list e = m # ms \<Longrightarrow> \<exists>s' e'. kipc_recv_nb h s = Some (Inr m, s') \<and> eps s' a = Some e' \<and>
       queue_list e' = ms \<and> wake_sender e e' \<and> endpoints s' = endpoints s"
proof -
  let ?e = "e\<lparr>e_references := e_references e + 1\<rparr>"
  obtain s1 where s1: "kipc_acquire h s = (Some a, s1)" "eps s1 a = Some ?e" "s1 = s\<lparr>eps := (eps s)(a \<mapsto> ?e)\<rparr>"
    using kipc_acquire_live [OF assms(2,4)] by blast
  have open_e: "\<not> is_shutting_down ?e" "queue_wf ?e" "0 < e_references e"
    using ipc_inv_live(1) [OF assms(1,2)] ipc_invD(2) [OF assms(1,4)] obj_inv_refs(2) [OF ipc_invD(1) [OF assms(1)] assms(4)] assms(4)
    by (auto simp: ep_ok_def queue_wf_def)
  have ql: "queue_list ?e = queue_list e" by (rule queue_list_cong) simp_all
  note deq = dequeue_locked_cases [OF open_e(2), unfolded ql]
  {
    assume "queue_list e = []"
    moreover have "kipc_release a s1 = Some s"
      using kipc_release_alive [OF s1(2)] open_e(3) s1(3) assms(4) by (simp add: fun_upd_idem)
    ultimately show "kipc_recv_nb h s = Some (Inl IPC_ERR_CANCELLED, s)"
      using assms(3) s1(1,2) deq(1) open_e(1) by (simp add: kipc_recv_nb_def)
  }
  assume "queue_list e = m # ms"
  from deq(2) [OF this, of a s1] obtain e1 where
    e1: "dequeue_locked a ?e s1 = Some (m, s1\<lparr>eps := (eps s1)(a \<mapsto> e1)\<rparr>)"
      "queue_list e1 = ms" "wake_sender ?e e1" "e_references e1 = e_references ?e" by blast
  let ?s2 = "s1\<lparr>eps := (eps s1)(a \<mapsto> e1)\<rparr>"
  let ?e2 = "e1\<lparr>e_references := e_references e1 - 1\<rparr>"
  have "kipc_release a ?s2 = Some (?s2\<lparr>eps := (eps ?s2)(a \<mapsto> ?e2)\<rparr>)"
    using open_e(3) e1(4) by (intro kipc_release_alive) simp_all
  then have "kipc_recv_nb h s = Some (Inr m, ?s2\<lparr>eps := (eps ?s2)(a \<mapsto> ?e2)\<rparr>)"
    using assms(3) s1(1,2) open_e(1) e1(1) by (simp add: kipc_recv_nb_def)
  moreover have "queue_list ?e2 = ms" unfolding e1(2) [symmetric] by (rule queue_list_cong) simp_all
  moreover have "wake_sender e ?e2" using e1(3) by (simp add: wake_sender_def)
  ultimately show "\<exists>s' e'. kipc_recv_nb h s = Some (Inr m, s') \<and> eps s' a = Some e' \<and>
       queue_list e' = ms \<and> wake_sender e e' \<and> endpoints s' = endpoints s"
    using s1(3) by simp
qed

text \<open>
  Property C17.  On a live endpoint a non-blocking send appends the message, stamped with the caller's
  thread id, or fails with IPC_ERR_CANCELLED and changes nothing exactly when the queue holds 64
  messages; a non-blocking receive takes the oldest message, or fails with IPC_ERR_CANCELLED and
  changes nothing exactly when the queue is empty.  A success turns one waiting thread of the other
  side, if there is one, into one semaphore post.
\<close>

theorem kipc_nonblocking_queue:
  assumes "ipc_inv hold det s" "HASH_FIND h (endpoints s) = Some a" "h \<noteq> 0" "eps s a = Some e"
  shows "(if length (queue_list e) = IPC_QUEUE_CAPACITY then kipc_send_nb c h m s = Some (IPC_ERR_CANCELLED, s)
          else \<exists>s' e'. kipc_send_nb c h m s = Some (IPC_OK, s') \<and> eps s' a = Some e' \<and> wake_receiver e e' \<and>
                 queue_list e' = queue_list e @ [m\<lparr>sender_tid := c\<rparr>]) \<and>
         (case queue_list e of
            [] \<Rightarrow> kipc_recv_nb h s = Some (Inl IPC_ERR_CANCELLED, s)
          | m # ms \<Rightarrow> \<exists>s' e'. kipc_recv_nb h s = Some (Inr m, s') \<and> eps s' a = Some e' \<and> wake_sender e e' \<and>
                 queue_list e' = ms)"
  using kipc_send_nb_live [OF assms, of c m] kipc_recv_nb_live [OF assms] by (cases "queue_list e") auto

theorem kipc_nonblocking_queue_witness:
  "\<exists>s. kipc_send_nb 9 1 blank_message (snd (kipc_create (Some 7) (kipc_init knotify_init))) = Some (IPC_OK, s)"
proof -
  let ?s = "snd (kipc_create (Some 7) (kipc_init knotify_init))"
  have inv: "ipc_inv (\<lambda>_. 0) (\<lambda>_. 0) ?s"
    by (rule kipc_create_inv [OF kipc_init_inv]) (simp_all add: kipc_init_def)
  have s: "HASH_FIND 1 (endpoints ?s) = Some 7" "(1 :: u64) \<noteq> 0" "eps ?s 7 = Some (new_endpoint 1)"
    by (simp_all add: kipc_create_def ipc_insert_def kipc_init_def HASH_FIND_def HASH_ADD_def)
  have "length (queue_list (new_endpoint 1)) = 0" by (simp add: new_endpoint_def)
  then show ?thesis using kipc_nonblocking_queue [OF inv s, of 9 blank_message] by auto
qed

end
