(* ===== verification/Kipc_Protocol.thy ===== *)
theory Kipc_Protocol
  imports Kipc "HOL-Library.Multiset"
begin

text \<open>
  The blocking operations of src/kernel/subsystems/kipc.c as threads that interleave.  A program counter
  is a point between two critical sections; a step runs one section, one semaphore operation, or one
  reference operation.  The system is a multiset of program counters beside the state of the
  subsystem.  The result of a step tells a blocked thread from a fault (a use of a freed object).
\<close>

section \<open>Program counters and steps\<close>

text \<open>
  Where a queueing sender goes on: back to the caller of kipc_send, or to the loop of kipc_publish
  with the publisher, the message and the subscriptions still to visit.  Links of the list are only
  prepended and never freed, so the rest of the list after a link never changes.
\<close>

datatype send_ctx = Direct | Fanout addr ipc_message_t "u64 list"

datatype pc =
    Ret "ipc_status_t + ipc_message_t"
  | Send addr ipc_message_t send_ctx
  | SendWait addr ipc_message_t send_ctx
  | SendRel addr ipc_status_t send_ctx
  | Publish addr ipc_message_t "u64 list option"
  | PublishGet addr ipc_message_t u64 "u64 list"
  | Recv addr
  | RecvWait addr
  | RecvRel addr "ipc_status_t + ipc_message_t"
  | Destroy addr nat nat "ipc_notify_binding_t list"

datatype outcome = Step pc ipc_state | Blocked | Fault

datatype call = CSend u64 u64 ipc_message_t | CRecv u64 | CDestroy u64

fun kipc_call :: "call \<Rightarrow> ipc_state \<Rightarrow> outcome" where
  "kipc_call (CSend caller_id h m) s =
     (if h = 0 then Step (Ret (Inl IPC_ERR_INVALID)) s
      else case kipc_acquire h s of
        (None, s) \<Rightarrow> Step (Ret (Inl IPC_ERR_NOT_FOUND)) s
      | (Some a, s) \<Rightarrow>
          (case eps s a of
             None \<Rightarrow> Fault
           | Some e \<Rightarrow>
               (let m = m\<lparr>sender_tid := caller_id\<rparr> in
                case ep_type e of
                  IPC_ENDPOINT_SUBSCRIBER \<Rightarrow> Step (SendRel a IPC_ERR_INVALID Direct) s
                | IPC_ENDPOINT_PUBLISHER \<Rightarrow> Step (Publish a m None) s
                | IPC_ENDPOINT_NORMAL \<Rightarrow> Step (Send a m Direct) s)))"
| "kipc_call (CRecv h) s =
     (if h = 0 then Step (Ret (Inl IPC_ERR_INVALID)) s
      else case kipc_acquire h s of
        (None, s) \<Rightarrow> Step (Ret (Inl IPC_ERR_NOT_FOUND)) s
      | (Some a, s) \<Rightarrow> Step (Recv a) s)"
| "kipc_call (CDestroy h) s =
     (if h = 0 then Step (Ret (Inl IPC_ERR_INVALID)) s
      else case HASH_FIND h (endpoints s) of
        None \<Rightarrow> Step (Ret (Inl IPC_ERR_NOT_FOUND)) s
      | Some a \<Rightarrow>
          (case eps s a of
             None \<Rightarrow> Fault
           | Some e \<Rightarrow> Step (Destroy a (waiting_senders e) (waiting_receivers e) (notify_bindings e))
                            (kipc_destroy_detach h a e s)))"

definition after_release :: "addr \<Rightarrow> pc \<Rightarrow> ipc_state \<Rightarrow> outcome" where
  "after_release a pc s = (case kipc_release a s of None \<Rightarrow> Fault | Some s' \<Rightarrow> Step pc s')"

fun after_send :: "ipc_status_t \<Rightarrow> send_ctx \<Rightarrow> pc" where
  "after_send st Direct = Ret (Inl st)"
| "after_send st (Fanout p m rest) = Publish p m (Some rest)"

definition kipc_publish :: "addr \<Rightarrow> ipc_message_t \<Rightarrow> u64 list option \<Rightarrow> ipc_state \<Rightarrow> outcome" where
  \<comment> \<open>the section under the lock of the publisher: find the next subscription\<close>
  "kipc_publish p m cur s =
     (case eps s p of
        None \<Rightarrow> Fault
      | Some e \<Rightarrow>
          if is_shutting_down e then Step (SendRel p IPC_ERR_ENDPOINT_CLOSED Direct) s
          else case (case cur of None \<Rightarrow> subscribers e | Some rest \<Rightarrow> rest) of
            [] \<Rightarrow> Step (SendRel p IPC_OK Direct) s
          | h # rest \<Rightarrow> Step (PublishGet p m h rest) s)"

definition kipc_publish_get :: "addr \<Rightarrow> ipc_message_t \<Rightarrow> u64 \<Rightarrow> u64 list \<Rightarrow> ipc_state \<Rightarrow> outcome" where
  "kipc_publish_get p m h rest s =
     (case kipc_acquire h s of
        (None, s) \<Rightarrow> Step (Publish p m (Some rest)) s
      | (Some a, s) \<Rightarrow>
          (case eps s a of
             None \<Rightarrow> Fault
           | Some e \<Rightarrow> if ep_type e = IPC_ENDPOINT_SUBSCRIBER then Step (Send a m (Fanout p m rest)) s
                       else Step (SendRel a IPC_OK (Fanout p m rest)) s))"

fun thread_step :: "pc \<Rightarrow> ipc_state \<Rightarrow> outcome" where
  "thread_step (Ret r) s = Blocked"
| "thread_step (Send a m k) s =
     (case kipc_enqueue_blocking a m s of
        None \<Rightarrow> Fault
      | Some (Some st, s') \<Rightarrow> Step (SendRel a st k) s'
      | Some (None, s') \<Rightarrow> Step (SendWait a m k) s')"
| "thread_step (SendWait a m k) s =
     (case eps s a of
        None \<Rightarrow> Fault
      | Some e \<Rightarrow> if sender_sem e = 0 then Blocked
                  else Step (Send a m k) (e_update a (\<lambda>e. e\<lparr>sender_sem := sender_sem e - 1\<rparr>) s))"
| "thread_step (SendRel a st k) s = after_release a (after_send st k) s"
| "thread_step (Publish p m cur) s = kipc_publish p m cur s"
| "thread_step (PublishGet p m h rest) s = kipc_publish_get p m h rest s"
| "thread_step (Recv a) s =
     (case kipc_recv_round a s of
        None \<Rightarrow> Fault
      | Some (Some r, s') \<Rightarrow> Step (RecvRel a r) s'
      | Some (None, s') \<Rightarrow> Step (RecvWait a) s')"
| "thread_step (RecvWait a) s =
     (case eps s a of
        None \<Rightarrow> Fault
      | Some e \<Rightarrow> if receiver_sem e = 0 then Blocked
                  else Step (Recv a) (e_update a (\<lambda>e. e\<lparr>receiver_sem := receiver_sem e - 1\<rparr>) s))"
| "thread_step (RecvRel a r) s = after_release a (Ret r) s"
| "thread_step (Destroy a ns nr bs) s =
     (if ns > 0 then Step (Destroy a (ns - 1) nr bs) (ksem_post_senders a 1 s)
      else if nr > 0 then Step (Destroy a 0 (nr - 1) bs) (ksem_post_receivers a 1 s)
      else case kipc_free_notify_bindings bs s of
        None \<Rightarrow> Fault
      | Some s' \<Rightarrow> after_release a (Ret (Inl IPC_OK)) s')"

fun interleaved :: "ipc_op \<Rightarrow> bool" where
  \<comment> \<open>destruction is the call above, so is the failing path of kipc_subscribe; the rest runs as one step\<close>
  "interleaved (IDestroy h) \<longleftrightarrow> False"
| "interleaved (ISubscribe h mem ok) \<longleftrightarrow> ok"
| "interleaved _ \<longleftrightarrow> True"

inductive sys_step :: "pc multiset \<times> ipc_state \<Rightarrow> pc multiset \<times> ipc_state \<Rightarrow> bool" where
  call: "kipc_call c s = Step pc' s' \<Longrightarrow> sys_step (add_mset (Ret r) M, s) (add_mset pc' M, s')"
| run: "thread_step pc s = Step pc' s' \<Longrightarrow> sys_step (add_mset pc M, s) (add_mset pc' M, s')"
| other: "interleaved op \<Longrightarrow> ipc_ok op s \<Longrightarrow> ipc_exec op s = Some s' \<Longrightarrow> sys_step (M, s) (M, s')"

section \<open>Counting threads\<close>

fun ctx_hold :: "send_ctx \<Rightarrow> addr \<Rightarrow> nat" where
  "ctx_hold Direct b = 0"
| "ctx_hold (Fanout p m rest) b = of_bool (p = b)"

fun pc_hold :: "pc \<Rightarrow> addr \<Rightarrow> nat" where
  "pc_hold (Ret r) b = 0"
| "pc_hold (Send a m k) b = of_bool (a = b) + ctx_hold k b"
| "pc_hold (SendWait a m k) b = of_bool (a = b) + ctx_hold k b"
| "pc_hold (SendRel a st k) b = of_bool (a = b) + ctx_hold k b"
| "pc_hold (Publish p m cur) b = of_bool (p = b)"
| "pc_hold (PublishGet p m h rest) b = of_bool (p = b)"
| "pc_hold (Recv a) b = of_bool (a = b)"
| "pc_hold (RecvWait a) b = of_bool (a = b)"
| "pc_hold (RecvRel a r) b = of_bool (a = b)"
| "pc_hold (Destroy a ns nr bs) b = of_bool (a = b)"

fun pc_det :: "pc \<Rightarrow> addr \<Rightarrow> nat" where
  "pc_det (Destroy a ns nr bs) n = count_list (map fst bs) n"
| "pc_det _ n = 0"

text \<open>Per endpoint: threads about to retry, threads in ksem_wait, posts still to come from a destroyer.\<close>

fun try_send :: "pc \<Rightarrow> addr \<Rightarrow> nat" where
  "try_send (Send a m k) b = of_bool (a = b)" | "try_send _ b = 0"

fun wait_send :: "pc \<Rightarrow> addr \<Rightarrow> nat" where
  "wait_send (SendWait a m k) b = of_bool (a = b)" | "wait_send _ b = 0"

fun post_send :: "pc \<Rightarrow> addr \<Rightarrow> nat" where
  "post_send (Destroy a ns nr bs) b = (if a = b then ns else 0)" | "post_send _ b = 0"

fun try_recv :: "pc \<Rightarrow> addr \<Rightarrow> nat" where
  "try_recv (Recv a) b = of_bool (a = b)" | "try_recv _ b = 0"

fun wait_recv :: "pc \<Rightarrow> addr \<Rightarrow> nat" where
  "wait_recv (RecvWait a) b = of_bool (a = b)" | "wait_recv _ b = 0"

fun post_recv :: "pc \<Rightarrow> addr \<Rightarrow> nat" where
  "post_recv (Destroy a ns nr bs) b = (if a = b then nr else 0)" | "post_recv _ b = 0"

definition total :: "('a \<Rightarrow> addr \<Rightarrow> nat) \<Rightarrow> 'a multiset \<Rightarrow> addr \<Rightarrow> nat" where
  "total f M b = (\<Sum>pc\<in>#M. f pc b)"

lemma total_simps [simp]: "total f {#} b = 0" "total f (add_mset pc M) b = f pc b + total f M b"
  by (simp_all add: total_def)

text \<open>
  The account of an endpoint.  A blocked thread is registered, or its post is in the semaphore, or
  the destroyer owes it.  While a sender is registered, every free slot is claimed by a post or by a
  thread about to retry; while a receiver is registered, so is every queued message.
\<close>

definition acct :: "pc multiset \<Rightarrow> addr \<Rightarrow> ipc_endpoint_t \<Rightarrow> bool" where
  "acct M b e \<longleftrightarrow>
     total wait_send M b = waiting_senders e + sender_sem e + total post_send M b \<and>
     total wait_recv M b = waiting_receivers e + receiver_sem e + total post_recv M b \<and>
     (waiting_senders e > 0 \<longrightarrow> IPC_QUEUE_CAPACITY \<le> queue_count e + sender_sem e + total try_send M b) \<and>
     (waiting_receivers e > 0 \<longrightarrow> queue_count e \<le> receiver_sem e + total try_recv M b) \<and>
     (is_shutting_down e \<longrightarrow> waiting_senders e = 0 \<and> waiting_receivers e = 0)"

definition sys_inv :: "pc multiset \<times> ipc_state \<Rightarrow> bool" where
  "sys_inv st \<longleftrightarrow> (case st of (M, s) \<Rightarrow>
     ipc_inv (total pc_hold M) (total pc_det M) s \<and> (\<forall>b e. eps s b = Some e \<longrightarrow> acct M b e))"

section \<open>Operations that leave the accounts alone\<close>

definition same_acct :: "ipc_endpoint_t \<Rightarrow> ipc_endpoint_t \<Rightarrow> bool" where
  "same_acct e e' \<longleftrightarrow> queue_count e' = queue_count e \<and> waiting_senders e' = waiting_senders e \<and>
     waiting_receivers e' = waiting_receivers e \<and> sender_sem e' = sender_sem e \<and>
     receiver_sem e' = receiver_sem e \<and> is_shutting_down e' = is_shutting_down e"

definition keeps :: "ipc_state \<Rightarrow> ipc_state \<Rightarrow> bool" where
  "keeps s s' \<longleftrightarrow> (\<forall>b e'. eps s' b = Some e' \<longrightarrow> (\<exists>e. eps s b = Some e \<and> same_acct e e'))"

lemma acct_same: "acct M b e \<Longrightarrow> same_acct e e' \<Longrightarrow> acct M b e'"
  by (simp add: acct_def same_acct_def)

lemma same_acct_trans: "same_acct a b \<Longrightarrow> same_acct b c \<Longrightarrow> same_acct a c"
  by (simp add: same_acct_def)

lemma keeps_refl [simp]: "keeps s s"
  by (simp add: keeps_def same_acct_def)

lemma keeps_trans [trans]: "keeps s s1 \<Longrightarrow> keeps s1 s2 \<Longrightarrow> keeps s s2"
  unfolding keeps_def using same_acct_trans by blast

lemma keeps_e_update: "(\<And>e. same_acct e (f e)) \<Longrightarrow> keeps s (e_update a f s)"
  by (auto simp: keeps_def same_acct_def split: if_splits)

lemma keeps_eps: "eps s' = eps s \<Longrightarrow> keeps s s'"
  by (simp add: keeps_def same_acct_def)

lemma keeps_acquire: "kipc_acquire h s = (q, s') \<Longrightarrow> keeps s s'"
  by (auto simp: kipc_acquire_def same_acct_def split: option.splits intro!: keeps_e_update)

lemma keeps_release:
  assumes "kipc_release a s = Some s'"
  shows "keeps s s'"
proof -
  have "s' = s\<lparr>eps := (eps s)(a := None)\<rparr> \<or> s' = e_update a (\<lambda>e. e\<lparr>e_references := e_references e - 1\<rparr>) s"
    using assms by (auto simp: kipc_release_def split: option.splits if_splits)
  then show ?thesis
  proof
    assume "s' = s\<lparr>eps := (eps s)(a := None)\<rparr>"
    then show ?thesis by (simp add: keeps_def same_acct_def)
  next
    assume "s' = e_update a (\<lambda>e. e\<lparr>e_references := e_references e - 1\<rparr>) s"
    then show ?thesis by (simp add: keeps_e_update same_acct_def del: e_update_simps)
  qed
qed

lemma keeps_notify_release: "notify_release n s = Some s' \<Longrightarrow> keeps s s'"
  by (auto simp: notify_release_def intro!: keeps_eps)

lemma keeps_bindings: "keeps s (e_update a (\<lambda>e. e\<lparr>notify_bindings := g (notify_bindings e)\<rparr>) s)"
  by (rule keeps_e_update) (simp add: same_acct_def)

lemma keeps_signal_if_queued: "keeps s (signal_if_queued e n bits s)"
  by (rule keeps_eps) (simp add: signal_if_queued_def)

lemma keeps_ep_type: "keeps s (e_update a (\<lambda>e. e\<lparr>ep_type := t\<rparr>) s)"
  by (rule keeps_e_update) (simp add: same_acct_def)

lemma keeps_unbind:
  assumes "kipc_unbind_notify h nh s = Some (r, s')"
  shows "keeps s s'"
proof (cases "h = 0 \<or> h = IPC_INVALID_HANDLE \<or> nh = NOTIFY_INVALID_HANDLE")
  case True with assms show ?thesis by (auto simp: kipc_unbind_notify_def)
next
  case args: False
  obtain q s1 where acq: "kipc_acquire h s = (q, s1)" by fastforce
  then have k1: "keeps s s1" by (rule keeps_acquire)
  show ?thesis
  proof (cases q)
    case None with assms args acq k1 show ?thesis by (auto simp: kipc_unbind_notify_def)
  next
    case (Some a)
    with assms args acq consider "kipc_release a s1 = Some s'"
      | b s3 where "notify_release (fst b) (e_update a (\<lambda>e. e\<lparr>notify_bindings := remove1 b (notify_bindings e)\<rparr>) s1) = Some s3"
          "kipc_release a s3 = Some s'"
      by (fastforce simp: kipc_unbind_notify_def bind_eq_Some_conv Let_def split: if_splits option.splits)
    then show ?thesis
    proof cases
      case 1 then show ?thesis using k1 keeps_release keeps_trans by blast
    next
      case 2 then show ?thesis using k1 keeps_release keeps_trans keeps_notify_release keeps_bindings by meson
    qed
  qed
qed

lemma keeps_bind:
  assumes "kipc_bind_notify h nh bits ok s = Some (r, s')"
  shows "keeps s s'"
proof (cases "h = 0 \<or> h = IPC_INVALID_HANDLE \<or> nh = NOTIFY_INVALID_HANDLE \<or> bits = 0")
  case True with assms show ?thesis by (auto simp: kipc_bind_notify_def)
next
  case args: False
  obtain q m where acq: "knotify_acquire nh (notifications s) = (q, m)" by fastforce
  let ?s = "s\<lparr>notifications := m\<rparr>"
  obtain q2 s2 where acq2: "kipc_acquire h ?s = (q2, s2)" by fastforce
  have k: "keeps s ?s" by (rule keeps_eps) simp
  have k2: "keeps s s2" by (rule keeps_trans [OF k keeps_acquire [OF acq2]])
  note chain = keeps_trans [OF k2] keeps_trans [OF k] keeps_trans keeps_notify_release keeps_release
    keeps_bindings keeps_signal_if_queued
  show ?thesis
  proof (cases "q = None \<or> \<not> ok \<or> q2 = None")
    case True
    then have "s' = ?s \<or> (\<exists>n. notify_release n ?s = Some s') \<or> (\<exists>n. notify_release n s2 = Some s')"
      using assms args acq acq2 by (cases q; cases ok; cases q2)
        (simp_all add: kipc_bind_notify_def Let_def bind_eq_Some_conv, auto)
    then show ?thesis using k chain by blast
  next
    case False
    then obtain n a where na: "q = Some n" "q2 = Some a" "ok" by (cases q; cases q2) auto
    with assms args acq acq2 obtain e where e: "eps s2 a = Some e" by (auto simp: kipc_bind_notify_def bind_eq_Some_conv Let_def)
    let ?t = "\<lambda>g. signal_if_queued e n bits (e_update a (\<lambda>e. e\<lparr>notify_bindings := g (notify_bindings e)\<rparr>) s2)"
    have kt: "keeps s (?t g)" for g using chain by meson
    from assms args acq acq2 na e consider s3 where "kipc_release a s2 = Some s3" "notify_release n s3 = Some s'"
      | s3 where "kipc_release a (?t (rebind n bits)) = Some s3" "notify_release n s3 = Some s'"
      | "kipc_release a (?t ((#) (n, bits))) = Some s'"
      by (auto simp: kipc_bind_notify_def Let_def bind_eq_Some_conv simp del: e_update_simps split: if_splits)
    then show ?thesis
    proof cases
      case 1 then show ?thesis using keeps_trans [OF keeps_trans [OF k2 keeps_release] keeps_notify_release] by blast
    next
      case 2 then show ?thesis using keeps_trans [OF keeps_trans [OF kt keeps_release] keeps_notify_release] by blast
    next
      case 3 then show ?thesis using keeps_trans [OF kt keeps_release] by blast
    qed
  qed
qed

text \<open>Operations that may add one endpoint, at an address that was free.\<close>

definition grows :: "ipc_state \<Rightarrow> ipc_state \<Rightarrow> bool" where
  "grows s s' \<longleftrightarrow> (\<forall>b e'. eps s' b = Some e' \<longrightarrow>
     (case eps s b of Some e \<Rightarrow> same_acct e e' | None \<Rightarrow> same_acct (new_endpoint 0) e'))"

lemma keeps_grows: "keeps s s' \<Longrightarrow> grows s s'"
  by (force simp: keeps_def grows_def)

lemma grows_keeps: "grows s s1 \<Longrightarrow> keeps s1 s2 \<Longrightarrow> grows s s2"
  unfolding grows_def keeps_def using same_acct_trans by (fastforce split: option.splits)

lemma keeps_grows_trans:
  "keeps s s1 \<Longrightarrow> (\<And>b. eps s1 b = None \<Longrightarrow> eps s b = None) \<Longrightarrow> grows s1 s2 \<Longrightarrow> grows s s2"
  unfolding grows_def keeps_def using same_acct_trans by (fastforce split: option.splits)

lemma grows_create:
  assumes "\<forall>a \<in> set_option mem. eps s a = None" "kipc_create mem s = (r, s')"
  shows "grows s s'"
  using assms by (cases mem) (auto simp: kipc_create_def ipc_insert_def grows_def same_acct_def new_endpoint_def
    split: option.splits if_splits)

lemma grows_create_publisher:
  assumes "\<forall>a \<in> set_option mem. eps s a = None" "kipc_create_publisher mem s = Some (r, s')"
  shows "grows s s'"
proof -
  obtain c s1 where cr: "kipc_create mem s = (c, s1)" by fastforce
  note g = grows_create [OF assms(1) cr]
  show ?thesis
  proof (cases c)
    case (Inl err) with assms(2) cr g show ?thesis by (simp add: kipc_create_publisher_def)
  next
    case (Inr h)
    obtain q s2 where acq: "kipc_acquire h s1 = (q, s2)" by fastforce
    then have k: "keeps s1 s2" by (rule keeps_acquire)
    show ?thesis using assms(2) cr Inr acq grows_keeps [OF g k]
        grows_keeps [OF g keeps_trans [OF k keeps_trans [OF keeps_ep_type keeps_release]]]
      by (cases q) (auto simp: kipc_create_publisher_def bind_eq_Some_conv simp del: e_update_simps)
  qed
qed

lemma keeps_subscribe_link:
  assumes "kipc_subscribe_link pub h sub True s = Some (r, s')" "\<not> is_shutting_down p" "eps s pub = Some p"
  shows "keeps s s'"
proof -
  let ?s = "e_update sub (\<lambda>e. e\<lparr>ep_type := IPC_ENDPOINT_SUBSCRIBER\<rparr>) s"
  obtain p1 where "eps ?s pub = Some p1" "\<not> is_shutting_down p1" using assms(2,3) by (cases "pub = sub") auto
  with assms(1) obtain s1 where
    "kipc_release sub (e_update pub (\<lambda>e. e\<lparr>subscribers := h # subscribers e\<rparr>) ?s) = Some s1" "kipc_release pub s1 = Some s'"
    by (auto simp: kipc_subscribe_link_def Let_def bind_eq_Some_conv simp del: e_update_simps split: if_splits)
  moreover have "keeps ?s (e_update pub (\<lambda>e. e\<lparr>subscribers := h # subscribers e\<rparr>) ?s)"
    by (rule keeps_e_update) (simp add: same_acct_def)
  ultimately show ?thesis using keeps_ep_type keeps_trans keeps_release by meson
qed

lemma acquire_dom: "kipc_acquire h s = (q, s') \<Longrightarrow> eps s' b = None \<Longrightarrow> eps s b = None"
  by (auto simp: kipc_acquire_def split: option.splits if_splits)

lemma create_eps: "kipc_create mem s = (r, s') \<Longrightarrow> \<forall>a \<in> set_option mem. eps s a = None \<Longrightarrow> eps s b = Some e \<Longrightarrow> eps s' b = Some e"
  by (auto simp: kipc_create_def ipc_insert_def split: option.splits)

lemma acquire_eps:
  "kipc_acquire h s = (q, s') \<Longrightarrow> eps s b = Some e \<Longrightarrow> \<exists>e'. eps s' b = Some e' \<and> is_shutting_down e' = is_shutting_down e"
  by (auto simp: kipc_acquire_def split: option.splits)

lemma grows_subscribe:
  assumes "\<forall>a \<in> set_option mem. eps s a = None" "kipc_subscribe ph mem True s = Some (r, s')"
  shows "grows s s'"
proof -
  obtain q s1 where acq: "kipc_acquire ph s = (q, s1)" by fastforce
  note k1 = keeps_acquire [OF acq]
  show ?thesis
  proof (cases q)
    case None with acq assms(2) k1 show ?thesis by (simp add: kipc_subscribe_def keeps_grows)
  next
    case (Some pub)
    with acq assms(2) obtain p where p: "eps s1 pub = Some p" by (auto simp: kipc_subscribe_def bind_eq_Some_conv)
    show ?thesis
    proof (cases "is_shutting_down p \<or> ep_type p \<noteq> IPC_ENDPOINT_PUBLISHER")
      case True
      with Some acq assms(2) p have "kipc_release pub s1 = Some s'"
        by (auto simp: kipc_subscribe_def bind_eq_Some_conv split: if_splits)
      then show ?thesis using keeps_grows keeps_trans [OF k1 keeps_release] by blast
    next
      case False
      obtain c s2 where cr: "kipc_create mem s1 = (c, s2)" by fastforce
      have mem: "\<forall>a \<in> set_option mem. eps s1 a = None"
        using assms(1) acq by (auto simp: kipc_acquire_def split: option.splits)
      have g: "grows s s2" using keeps_grows_trans [OF k1 acquire_dom [OF acq] grows_create [OF mem cr]] .
      show ?thesis
      proof (cases c)
        case (Inl err)
        with Some acq assms(2) p False cr show ?thesis
          using grows_keeps [OF g keeps_release] by (auto simp: kipc_subscribe_def bind_eq_Some_conv)
      next
        case (Inr h)
        obtain q3 s3 where acq3: "kipc_acquire h s2 = (q3, s3)" by fastforce
        obtain p3 where "eps s3 pub = Some p3" "\<not> is_shutting_down p3"
          using acquire_eps [OF acq3 create_eps [OF cr mem p]] False by blast
        with Some acq assms(2) p False cr Inr acq3 show ?thesis
          using grows_keeps [OF g keeps_trans [OF keeps_acquire [OF acq3] keeps_subscribe_link]]
            grows_keeps [OF g keeps_trans [OF keeps_acquire [OF acq3] keeps_release]]
          by (cases q3) (auto simp: kipc_subscribe_def bind_eq_Some_conv)
      qed
    qed
  qed
qed

section \<open>Accounts under queueing\<close>

lemma enqueue_locked_frame:
  assumes "enqueue_locked a m e s = Some s'"
  shows "\<exists>e'. eps s' = (eps s)(a \<mapsto> e') \<and> queue_count e' = queue_count e + 1 \<and> queue_count e \<noteq> IPC_QUEUE_CAPACITY \<and>
     waiting_senders e' = waiting_senders e \<and> sender_sem e' = sender_sem e \<and> is_shutting_down e' = is_shutting_down e \<and>
     wake_receiver e e'"
  using assms by (auto simp: enqueue_locked_def kipc_queue_push_def Let_def wake_receiver_def bind_eq_Some_conv split: if_splits)

lemma dequeue_locked_frame:
  assumes "dequeue_locked a e s = Some (m, s')"
  shows "\<exists>e'. eps s' = (eps s)(a \<mapsto> e') \<and> queue_count e' = queue_count e - 1 \<and> queue_count e \<noteq> 0 \<and>
     waiting_receivers e' = waiting_receivers e \<and> receiver_sem e' = receiver_sem e \<and> is_shutting_down e' = is_shutting_down e \<and>
     wake_sender e e'"
  using assms by (auto simp: dequeue_locked_def kipc_queue_pop_def Let_def wake_sender_def bind_eq_Some_conv split: if_splits)

lemma acct_push:
  assumes "acct M b e" "queue_count e' = queue_count e + 1" "waiting_senders e' = waiting_senders e"
    "sender_sem e' = sender_sem e" "is_shutting_down e' = is_shutting_down e" "wake_receiver e e'"
  shows "acct M b e'"
  using assms unfolding acct_def wake_receiver_def by (auto split: if_splits)

lemma acct_pop:
  assumes "acct M b e" "queue_count e' = queue_count e - 1" "waiting_receivers e' = waiting_receivers e"
    "receiver_sem e' = receiver_sem e" "is_shutting_down e' = is_shutting_down e" "wake_sender e e'"
  shows "acct M b e'"
  using assms unfolding acct_def wake_sender_def by (auto split: if_splits)

abbreviation accts :: "pc multiset \<Rightarrow> ipc_state \<Rightarrow> bool" where
  "accts M s \<equiv> \<forall>b e. eps s b = Some e \<longrightarrow> acct M b e"

lemma accts_keeps: "accts M s \<Longrightarrow> keeps s s' \<Longrightarrow> accts M s'"
  unfolding keeps_def using acct_same by blast

lemma accts_at:
  assumes "accts M s" "\<And>b. b \<noteq> a \<Longrightarrow> eps s' b = eps s b" "\<And>e. eps s' a = Some e \<Longrightarrow> acct M a e"
  shows "accts M s'"
proof (intro allI impI)
  fix b e assume "eps s' b = Some e"
  then show "acct M b e" using assms by (cases "b = a") simp_all
qed

lemma accts_enqueue:
  assumes "accts M s" "eps s a = Some e" "enqueue_locked a m e s = Some s'"
  shows "accts M s'"
proof -
  obtain e' where e': "eps s' = (eps s)(a \<mapsto> e')" "queue_count e' = queue_count e + 1" "waiting_senders e' = waiting_senders e"
    "sender_sem e' = sender_sem e" "is_shutting_down e' = is_shutting_down e" "wake_receiver e e'"
    using enqueue_locked_frame [OF assms(3)] by blast
  have "acct M a e'" using assms(1,2) by (intro acct_push [OF _ e'(2-6)]) blast
  then show ?thesis by (intro accts_at [OF assms(1), of a]) (simp_all add: e'(1))
qed

lemma accts_dequeue:
  assumes "accts M s" "eps s a = Some e" "dequeue_locked a e s = Some (m, s')"
  shows "accts M s'"
proof -
  obtain e' where e': "eps s' = (eps s)(a \<mapsto> e')" "queue_count e' = queue_count e - 1" "waiting_receivers e' = waiting_receivers e"
    "receiver_sem e' = receiver_sem e" "is_shutting_down e' = is_shutting_down e" "wake_sender e e'"
    using dequeue_locked_frame [OF assms(3)] by blast
  have "acct M a e'" using assms(1,2) by (intro acct_pop [OF _ e'(2-6)]) blast
  then show ?thesis by (intro accts_at [OF assms(1), of a]) (simp_all add: e'(1))
qed

lemma accts_send_nb:
  assumes "accts M s" "kipc_send_nb c h m s = Some (r, s')"
  shows "accts M s'"
proof -
  obtain q s1 where acq: "kipc_acquire h s = (q, s1)" by fastforce
  have a1: "accts M s1" using accts_keeps [OF assms(1) keeps_acquire [OF acq]] .
  show ?thesis
  proof (cases "h = 0 \<or> q = None")
    case True with assms acq a1 show ?thesis by (auto simp: kipc_send_nb_def split: if_splits)
  next
    case False
    then obtain a where a: "q = Some a" by blast
    with False assms(2) acq obtain s2 where s2: "kipc_enqueue_nonblocking a (m\<lparr>sender_tid := c\<rparr>) s1 = Some (r, s2)"
      "kipc_release a s2 = Some s'" by (auto simp: kipc_send_nb_def bind_eq_Some_conv)
    have "accts M s2" using s2(1) a1 accts_enqueue [OF a1]
      by (auto simp: kipc_enqueue_nonblocking_def bind_eq_Some_conv split: if_splits option.splits)
    then show ?thesis using accts_keeps keeps_release [OF s2(2)] by blast
  qed
qed

lemma accts_recv_nb:
  assumes "accts M s" "kipc_recv_nb h s = Some (r, s')"
  shows "accts M s'"
proof -
  obtain q s1 where acq: "kipc_acquire h s = (q, s1)" by fastforce
  have a1: "accts M s1" using accts_keeps [OF assms(1) keeps_acquire [OF acq]] .
  show ?thesis
  proof (cases "h = 0 \<or> q = None")
    case True with assms acq a1 show ?thesis by (auto simp: kipc_recv_nb_def split: if_splits)
  next
    case False
    then obtain a where a: "q = Some a" by blast
    with False assms(2) acq obtain e where e: "eps s1 a = Some e" by (auto simp: kipc_recv_nb_def bind_eq_Some_conv)
    with a False assms(2) acq obtain s2 where s2: "kipc_release a s2 = Some s'" "s2 = s1 \<or> (\<exists>m. dequeue_locked a e s1 = Some (m, s2))"
      by (auto simp: kipc_recv_nb_def bind_eq_Some_conv split: if_splits option.splits)
    then have "accts M s2" using a1 accts_dequeue [OF a1 e] by blast
    then show ?thesis using accts_keeps keeps_release [OF s2(1)] by blast
  qed
qed

lemma count_le_hold:
  "total try_send M b \<le> total pc_hold M b" "total wait_send M b \<le> total pc_hold M b"
  "total try_recv M b \<le> total pc_hold M b" "total wait_recv M b \<le> total pc_hold M b"
proof -
  have *: "try_send pc b \<le> pc_hold pc b" "wait_send pc b \<le> pc_hold pc b" "try_recv pc b \<le> pc_hold pc b"
    "wait_recv pc b \<le> pc_hold pc b" for pc
    by (cases pc; simp)+
  show "total try_send M b \<le> total pc_hold M b" "total wait_send M b \<le> total pc_hold M b"
    "total try_recv M b \<le> total pc_hold M b" "total wait_recv M b \<le> total pc_hold M b"
    by (induction M) (use * in \<open>auto intro: add_mono\<close>)
qed

lemma no_hold_no_posts: "total pc_hold M b = 0 \<Longrightarrow> total post_send M b = 0 \<and> total post_recv M b = 0"
proof (induction M)
  case (add pc M) then show ?case by (cases pc) (auto split: if_splits)
qed simp

lemma acct_fresh:
  assumes "total pc_hold M b = 0" "same_acct (new_endpoint 0) e"
  shows "acct M b e"
  using count_le_hold [of M b] no_hold_no_posts [OF assms(1)] assms
  by (simp add: acct_def same_acct_def new_endpoint_def)

lemma accts_grows:
  assumes "accts M s" "ipc_inv (total pc_hold M) det s" "grows s s'"
  shows "accts M s'"
proof (intro allI impI)
  fix b e assume e: "eps s' b = Some e"
  show "acct M b e"
  proof (cases "eps s b")
    case None
    then have "total pc_hold M b = 0" using obj_inv_table(4) [OF ipc_invD(1) [OF assms(2)]] by blast
    moreover have "same_acct (new_endpoint 0) e" using assms(3) e None unfolding grows_def by (metis option.simps(4))
    ultimately show ?thesis by (rule acct_fresh)
  next
    case (Some e0)
    then have "same_acct e0 e" using assms(3) e unfolding grows_def by (metis option.simps(5))
    then show ?thesis using assms(1) Some acct_same by blast
  qed
qed

lemma accts_exec:
  assumes "accts M s" "ipc_inv (total pc_hold M) det s" "interleaved op" "ipc_ok op s" "ipc_exec op s = Some s'"
  shows "accts M s'"
proof (cases op)
  case (ICreate mem)
  then show ?thesis using accts_grows [OF assms(1,2) grows_create [of mem s]] assms by (cases "kipc_create mem s") auto
next
  case (ICreatePublisher mem)
  then show ?thesis using accts_grows [OF assms(1,2) grows_create_publisher [of mem s]] assms by auto
next
  case (ISubscribe h mem ok)
  then show ?thesis using accts_grows [OF assms(1,2) grows_subscribe [of mem s h]] assms by auto
next
  case (IBind h nh bits ok) then show ?thesis using accts_keeps [OF assms(1) keeps_bind] assms(5) by auto
next
  case (IUnbind h nh) then show ?thesis using accts_keeps [OF assms(1) keeps_unbind] assms(5) by auto
next
  case (ISendNb c h m) then show ?thesis using accts_send_nb [OF assms(1)] assms(5) by auto
next
  case (IRecvNb h) then show ?thesis using accts_recv_nb [OF assms(1)] assms(5) by auto
next
  case (INotify n) then show ?thesis using accts_keeps [OF assms(1) keeps_eps, of s'] assms(5) by auto
qed (use assms(3) in simp)

section \<open>Steps of threads\<close>

definition same_counts :: "pc \<Rightarrow> pc \<Rightarrow> addr \<Rightarrow> bool" where
  "same_counts p q b \<longleftrightarrow> try_send p b = try_send q b \<and> wait_send p b = wait_send q b \<and> post_send p b = post_send q b \<and>
     try_recv p b = try_recv q b \<and> wait_recv p b = wait_recv q b \<and> post_recv p b = post_recv q b"

lemma acct_same_counts: "same_counts p q b \<Longrightarrow> acct (add_mset q M) b e = acct (add_mset p M) b e"
  by (simp add: acct_def same_counts_def)

lemma accts_same_counts: "accts (add_mset p M) s \<Longrightarrow> (\<And>b. same_counts p q b) \<Longrightarrow> accts (add_mset q M) s"
  using acct_same_counts by blast

lemma accts_step_at:
  assumes "accts (add_mset p M) s" "\<And>b. b \<noteq> a \<Longrightarrow> same_counts p q b" "eps s' = (eps s)(a \<mapsto> e')"
    and "acct (add_mset q M) a e'"
  shows "accts (add_mset q M) s'"
proof (intro allI impI)
  fix b e assume "eps s' b = Some e"
  then show "acct (add_mset q M) b e" using assms acct_same_counts [OF assms(2)] by (cases "b = a") auto
qed

lemma sys_invD: "sys_inv (M, s) \<Longrightarrow> ipc_inv (total pc_hold M) (total pc_det M) s" "sys_inv (M, s) \<Longrightarrow> accts M s"
  by (simp_all add: sys_inv_def)

lemma held_alive: "sys_inv (add_mset p M, s) \<Longrightarrow> 0 < pc_hold p a \<Longrightarrow> \<exists>e. eps s a = Some e"
  using obj_inv_held [OF ipc_invD(1) [OF sys_invD(1)], of "add_mset p M" s a] by simp

text \<open>A step that keeps all references of the thread.\<close>

lemma sys_inv_soft:
  assumes "ipc_inv (total pc_hold (add_mset p M)) (total pc_det (add_mset p M)) s'"
    "\<And>b. pc_hold q b = pc_hold p b" "\<And>b. pc_det q b = pc_det p b" "accts (add_mset q M) s'"
  shows "sys_inv (add_mset q M, s')"
proof -
  have "total pc_hold (add_mset q M) = total pc_hold (add_mset p M)" "total pc_det (add_mset q M) = total pc_det (add_mset p M)"
    using assms(2,3) by (simp_all add: fun_eq_iff)
  with assms(1,4) show ?thesis by (simp add: sys_inv_def)
qed

lemma sys_inv_release:
  assumes "ipc_inv (total pc_hold (add_mset p M)) (total pc_det (add_mset q M)) s" "accts (add_mset p M) s"
    "\<And>b. pc_hold p b = pc_hold q b + of_bool (a = b)" "\<And>b. same_counts p q b"
  shows "\<exists>s'. after_release a q s = Step q s' \<and> sys_inv (add_mset q M, s')"
proof -
  let ?h = "total pc_hold (add_mset p M)"
  have "0 < ?h a" using assms(3) [of a] by simp
  from kipc_release_inv [OF assms(1) this] obtain s' where
    s': "kipc_release a s = Some s'" "ipc_inv (?h(a := ?h a - 1)) (total pc_det (add_mset q M)) s'" by blast
  have "?h(a := ?h a - 1) = total pc_hold (add_mset q M)" using assms(3) by (auto simp: fun_eq_iff)
  moreover have "accts (add_mset q M) s'"
    using accts_same_counts [OF accts_keeps [OF assms(2) keeps_release [OF s'(1)]] assms(4)] .
  ultimately show ?thesis using s' by (simp add: after_release_def sys_inv_def)
qed

definition good :: "outcome \<Rightarrow> pc multiset \<Rightarrow> bool" where
  "good out M \<longleftrightarrow> out \<noteq> Fault \<and> (\<forall>q s'. out = Step q s' \<longrightarrow> sys_inv (add_mset q M, s'))"

lemma good_Step [simp]: "good (Step q s') M \<longleftrightarrow> sys_inv (add_mset q M, s')"
  by (simp add: good_def)

lemma good_Blocked [simp]: "good Blocked M"
  by (simp add: good_def)

lemma good_release:
  "\<exists>s'. after_release a q s = Step q s' \<and> sys_inv (add_mset q M, s') \<Longrightarrow> good (after_release a q s) M"
  by auto

lemma step_SendRel:
  assumes "sys_inv (add_mset (SendRel a st k) M, s)"
  shows "good (thread_step (SendRel a st k) s) M"
proof -
  have "total pc_det (add_mset (SendRel a st k) M) = total pc_det (add_mset (after_send st k) M)"
    by (cases k) (simp_all add: fun_eq_iff)
  then show ?thesis unfolding thread_step.simps using sys_invD [OF assms]
    by (intro good_release sys_inv_release [of "SendRel a st k"]) (cases k; simp add: same_counts_def)+
qed

lemma step_RecvRel:
  assumes "sys_inv (add_mset (RecvRel a r) M, s)"
  shows "good (thread_step (RecvRel a r) s) M"
proof -
  have "total pc_det (add_mset (RecvRel a r) M) = total pc_det (add_mset (Ret r) M)" by (simp add: fun_eq_iff)
  then show ?thesis unfolding thread_step.simps using sys_invD [OF assms]
    by (intro good_release sys_inv_release [of "RecvRel a r"]) (simp_all add: same_counts_def)
qed

lemma step_Send:
  assumes inv: "sys_inv (add_mset (Send a m k) M, s)"
  shows "good (thread_step (Send a m k) s) M"
proof -
  note I = sys_invD [OF inv]
  obtain e where e: "eps s a = Some e" using held_alive [OF inv, of a] by auto
  have ac: "acct (add_mset (Send a m k) M) a e" using I(2) e by blast
  show ?thesis
  proof (cases "is_shutting_down e")
    case True
    have "acct (add_mset (SendRel a IPC_ERR_ENDPOINT_CLOSED k) M) a e" using ac True by (simp add: acct_def)
    then have "accts (add_mset (SendRel a IPC_ERR_ENDPOINT_CLOSED k) M) s"
      by (intro accts_step_at [OF I(2), of a]) (simp_all add: same_counts_def e fun_upd_idem)
    with e True show ?thesis
      by (auto simp: kipc_enqueue_blocking_def intro!: sys_inv_soft [OF I(1)])
  next
    case False
    show ?thesis
    proof (cases "enqueue_locked a m e s")
      case None
      let ?s = "e_update a (\<lambda>e. e\<lparr>waiting_senders := waiting_senders e + 1\<rparr>) s"
      have full: "queue_count e = 64" using None by (simp add: enqueue_locked_def kipc_queue_push_def split: if_splits)
      have "acct (add_mset (SendWait a m k) M) a (e\<lparr>waiting_senders := waiting_senders e + 1\<rparr>)"
        using ac full False by (simp add: acct_def)
      then have "accts (add_mset (SendWait a m k) M) ?s"
        by (intro accts_step_at [OF I(2), of a]) (simp_all add: same_counts_def e)
      moreover have "ipc_inv (total pc_hold (add_mset (Send a m k) M)) (total pc_det (add_mset (Send a m k) M)) ?s"
        by (rule ipc_inv_soft [OF I(1)]) (simp add: queue_wf_def)
      ultimately show ?thesis using e False None
        by (auto simp: kipc_enqueue_blocking_def intro!: sys_inv_soft simp del: e_update_simps)
    next
      case (Some s')
      obtain e' where e': "eps s' = (eps s)(a \<mapsto> e')" "queue_count e' = queue_count e + 1" "waiting_senders e' = waiting_senders e"
        "sender_sem e' = sender_sem e" "is_shutting_down e' = is_shutting_down e" "wake_receiver e e'"
        using enqueue_locked_frame [OF Some] by blast
      have "acct (add_mset (SendRel a IPC_OK k) M) a e'"
        using acct_push [OF ac e'(2-6)] ac e'(2-4) by (simp add: acct_def)
      then have "accts (add_mset (SendRel a IPC_OK k) M) s'"
        by (intro accts_step_at [OF I(2) _ e'(1)]) (simp_all add: same_counts_def)
      with enqueue_locked_inv [OF I(1) e Some] e False Some show ?thesis
        by (auto simp: kipc_enqueue_blocking_def intro!: sys_inv_soft)
    qed
  qed
qed

lemma step_Recv:
  assumes inv: "sys_inv (add_mset (Recv a) M, s)"
  shows "good (thread_step (Recv a) s) M"
proof -
  note I = sys_invD [OF inv]
  obtain e where e: "eps s a = Some e" using held_alive [OF inv, of a] by auto
  have ac: "acct (add_mset (Recv a) M) a e" using I(2) e by blast
  show ?thesis
  proof (cases "is_shutting_down e")
    case True
    have "acct (add_mset (RecvRel a (Inl IPC_ERR_ENDPOINT_CLOSED)) M) a e" using ac True by (simp add: acct_def)
    then have "accts (add_mset (RecvRel a (Inl IPC_ERR_ENDPOINT_CLOSED)) M) s"
      by (intro accts_step_at [OF I(2), of a]) (simp_all add: same_counts_def e fun_upd_idem)
    with e True show ?thesis
      by (auto simp: kipc_recv_round_def intro!: sys_inv_soft [OF I(1)])
  next
    case False
    show ?thesis
    proof (cases "dequeue_locked a e s")
      case None
      let ?s = "e_update a (\<lambda>e. e\<lparr>waiting_receivers := waiting_receivers e + 1\<rparr>) s"
      have empty: "queue_count e = 0"
        using None by (simp add: dequeue_locked_def kipc_queue_pop_def Let_def split: if_splits)
      have "acct (add_mset (RecvWait a) M) a (e\<lparr>waiting_receivers := waiting_receivers e + 1\<rparr>)"
        using ac empty False by (simp add: acct_def)
      then have "accts (add_mset (RecvWait a) M) ?s"
        by (intro accts_step_at [OF I(2), of a]) (simp_all add: same_counts_def e)
      moreover have "ipc_inv (total pc_hold (add_mset (Recv a) M)) (total pc_det (add_mset (Recv a) M)) ?s"
        by (rule ipc_inv_soft [OF I(1)]) (simp add: queue_wf_def)
      ultimately show ?thesis using e False None
        by (auto simp: kipc_recv_round_def intro!: sys_inv_soft simp del: e_update_simps)
    next
      case (Some ms)
      obtain m s' where ms: "ms = (m, s')" by fastforce
      note Some = Some [unfolded ms]
      obtain e' where e': "eps s' = (eps s)(a \<mapsto> e')" "queue_count e' = queue_count e - 1" "waiting_receivers e' = waiting_receivers e"
        "receiver_sem e' = receiver_sem e" "is_shutting_down e' = is_shutting_down e" "wake_sender e e'" "queue_count e \<noteq> 0"
        using dequeue_locked_frame [OF Some] by blast
      have "acct (add_mset (RecvRel a (Inr m)) M) a e'"
        using acct_pop [OF ac e'(2-6)] ac e'(2-4,7) by (simp add: acct_def) linarith
      then have "accts (add_mset (RecvRel a (Inr m)) M) s'"
        by (intro accts_step_at [OF I(2) _ e'(1)]) (simp_all add: same_counts_def)
      with dequeue_locked_inv [OF I(1) e Some] e False Some show ?thesis
        by (auto simp: kipc_recv_round_def intro!: sys_inv_soft)
    qed
  qed
qed

lemma step_SendWait:
  assumes inv: "sys_inv (add_mset (SendWait a m k) M, s)"
  shows "good (thread_step (SendWait a m k) s) M"
proof -
  note I = sys_invD [OF inv]
  obtain e where e: "eps s a = Some e" using held_alive [OF inv, of a] by auto
  have ac: "acct (add_mset (SendWait a m k) M) a e" using I(2) e by blast
  show ?thesis
  proof (cases "sender_sem e = 0")
    case False
    let ?s = "e_update a (\<lambda>e. e\<lparr>sender_sem := sender_sem e - 1\<rparr>) s"
    have "acct (add_mset (Send a m k) M) a (e\<lparr>sender_sem := sender_sem e - 1\<rparr>)" using ac False by (auto simp: acct_def)
    then have "accts (add_mset (Send a m k) M) ?s"
      by (intro accts_step_at [OF I(2), of a]) (simp_all add: same_counts_def e)
    moreover have "ipc_inv (total pc_hold (add_mset (SendWait a m k) M)) (total pc_det (add_mset (SendWait a m k) M)) ?s"
      by (rule ipc_inv_soft [OF I(1)]) (simp add: queue_wf_def)
    ultimately show ?thesis using e False by (auto intro!: sys_inv_soft simp del: e_update_simps)
  qed (use e in simp)
qed

lemma step_RecvWait:
  assumes inv: "sys_inv (add_mset (RecvWait a) M, s)"
  shows "good (thread_step (RecvWait a) s) M"
proof -
  note I = sys_invD [OF inv]
  obtain e where e: "eps s a = Some e" using held_alive [OF inv, of a] by auto
  have ac: "acct (add_mset (RecvWait a) M) a e" using I(2) e by blast
  show ?thesis
  proof (cases "receiver_sem e = 0")
    case False
    let ?s = "e_update a (\<lambda>e. e\<lparr>receiver_sem := receiver_sem e - 1\<rparr>) s"
    have "acct (add_mset (Recv a) M) a (e\<lparr>receiver_sem := receiver_sem e - 1\<rparr>)" using ac False by (auto simp: acct_def)
    then have "accts (add_mset (Recv a) M) ?s"
      by (intro accts_step_at [OF I(2), of a]) (simp_all add: same_counts_def e)
    moreover have "ipc_inv (total pc_hold (add_mset (RecvWait a) M)) (total pc_det (add_mset (RecvWait a) M)) ?s"
      by (rule ipc_inv_soft [OF I(1)]) (simp add: queue_wf_def)
    ultimately show ?thesis using e False by (auto intro!: sys_inv_soft simp del: e_update_simps)
  qed (use e in simp)
qed

text \<open>A step that takes one more reference.\<close>

lemma sys_inv_acquire:
  assumes "sys_inv (add_mset p M, s)" "kipc_acquire h s = (Some a, s')"
    "\<And>b. pc_hold q b = pc_hold p b + of_bool (a = b)" "\<And>b. pc_det q b = pc_det p b"
    "\<And>b. b \<noteq> a \<Longrightarrow> same_counts p q b" "\<And>e. acct (add_mset p M) a e \<Longrightarrow> acct (add_mset q M) a e"
  shows "sys_inv (add_mset q M, s')"
proof -
  note I = sys_invD [OF assms(1)]
  have "total pc_hold (add_mset q M) = (total pc_hold (add_mset p M))(a := total pc_hold (add_mset p M) a + 1)"
    "total pc_det (add_mset q M) = total pc_det (add_mset p M)"
    using assms(3,4) by (auto simp: fun_eq_iff)
  then have "ipc_inv (total pc_hold (add_mset q M)) (total pc_det (add_mset q M)) s'"
    using kipc_acquire_inv(1) [OF I(1) assms(2)] by simp
  moreover have "acct (add_mset q M) b e" if "eps s' b = Some e" for b e
    using accts_keeps [OF I(2) keeps_acquire [OF assms(2)]] that assms(5,6) acct_same_counts by (cases "b = a") blast+
  ultimately show ?thesis by (simp add: sys_inv_def)
qed

lemma acquired: "sys_inv (M, s) \<Longrightarrow> kipc_acquire h s = (Some a, s') \<Longrightarrow> \<exists>e. eps s' a = Some e"
  using kipc_acquire_inv(2) [OF sys_invD(1)] by blast

lemma step_Publish:
  assumes inv: "sys_inv (add_mset (Publish p m cur) M, s)"
  shows "good (thread_step (Publish p m cur) s) M"
proof -
  note I = sys_invD [OF inv]
  obtain e where e: "eps s p = Some e" using held_alive [OF inv, of p] by auto
  have soft: "sys_inv (add_mset q M, s)" if "\<And>b. pc_hold q b = of_bool (p = b)" "\<And>b. pc_det q b = 0"
      "\<And>b. same_counts (Publish p m cur) q b" for q
    using that accts_same_counts [OF I(2), of q] by (intro sys_inv_soft [OF I(1)]) simp_all
  show ?thesis using e by (auto simp: kipc_publish_def same_counts_def split: list.splits intro!: soft)
qed

lemma step_PublishGet:
  assumes inv: "sys_inv (add_mset (PublishGet p m h rest) M, s)"
  shows "good (thread_step (PublishGet p m h rest) s) M"
proof -
  note I = sys_invD [OF inv]
  obtain q s' where acq: "kipc_acquire h s = (q, s')" by fastforce
  show ?thesis
  proof (cases q)
    case None
    have "sys_inv (add_mset (Publish p m (Some rest)) M, s)"
      using accts_same_counts [OF I(2), of "Publish p m (Some rest)"]
      by (intro sys_inv_soft [OF I(1)]) (simp_all add: same_counts_def)
    with None acq kipc_acquire_None [of h s s'] show ?thesis by (simp add: kipc_publish_get_def)
  next
    case (Some a)
    with acq have acq: "kipc_acquire h s = (Some a, s')" by simp
    obtain e where e: "eps s' a = Some e" using acquired [OF inv acq] by blast
    have "sys_inv (add_mset (Send a m (Fanout p m rest)) M, s')"
      by (rule sys_inv_acquire [OF inv acq]) (auto simp: same_counts_def acct_def)
    moreover have "sys_inv (add_mset (SendRel a IPC_OK (Fanout p m rest)) M, s')"
      by (rule sys_inv_acquire [OF inv acq]) (auto simp: same_counts_def acct_def)
    ultimately show ?thesis using acq e by (simp add: kipc_publish_get_def)
  qed
qed

lemma ksem_post_1 [simp]:
  "ksem_post_senders a (Suc 0) s = e_update a (\<lambda>e. e\<lparr>sender_sem := sender_sem e + 1\<rparr>) s"
  "ksem_post_receivers a (Suc 0) s = e_update a (\<lambda>e. e\<lparr>receiver_sem := receiver_sem e + 1\<rparr>) s"
  by (simp_all add: ksem_post_senders_def ksem_post_receivers_def)

lemma step_Destroy_post:
  assumes inv: "sys_inv (add_mset (Destroy a ns nr bs) M, s)"
  shows "0 < ns \<Longrightarrow> sys_inv (add_mset (Destroy a (ns - 1) nr bs) M, ksem_post_senders a 1 s)"
    "0 < nr \<Longrightarrow> sys_inv (add_mset (Destroy a ns (nr - 1) bs) M, ksem_post_receivers a 1 s)"
proof -
  note I = sys_invD [OF inv]
  obtain e where e: "eps s a = Some e" using held_alive [OF inv, of a] by auto
  have ac: "acct (add_mset (Destroy a ns nr bs) M) a e" using I(2) e by blast
  {
    assume "0 < ns"
    then have "acct (add_mset (Destroy a (ns - 1) nr bs) M) a (e\<lparr>sender_sem := sender_sem e + 1\<rparr>)" using ac by (auto simp: acct_def)
    then have "accts (add_mset (Destroy a (ns - 1) nr bs) M) (ksem_post_senders a 1 s)"
      by (intro accts_step_at [OF I(2), of a]) (simp_all add: same_counts_def e)
    then show "sys_inv (add_mset (Destroy a (ns - 1) nr bs) M, ksem_post_senders a 1 s)"
      by (intro sys_inv_soft [OF ksem_post_inv(1) [OF I(1)]]) simp_all
  }
  assume "0 < nr"
  then have "acct (add_mset (Destroy a ns (nr - 1) bs) M) a (e\<lparr>receiver_sem := receiver_sem e + 1\<rparr>)" using ac by (auto simp: acct_def)
  then have "accts (add_mset (Destroy a ns (nr - 1) bs) M) (ksem_post_receivers a 1 s)"
    by (intro accts_step_at [OF I(2), of a]) (simp_all add: same_counts_def e)
  then show "sys_inv (add_mset (Destroy a ns (nr - 1) bs) M, ksem_post_receivers a 1 s)"
    by (intro sys_inv_soft [OF ksem_post_inv(2) [OF I(1)]]) simp_all
qed

lemma step_Destroy:
  assumes inv: "sys_inv (add_mset (Destroy a ns nr bs) M, s)"
  shows "good (thread_step (Destroy a ns nr bs) s) M"
proof (cases "ns = 0 \<and> nr = 0")
  case True
  note I = sys_invD [OF inv]
  let ?q = "Ret (Inl IPC_OK)"
  have "total pc_det (add_mset (Destroy a ns nr bs) M) = (\<lambda>n. total pc_det (add_mset ?q M) n + count_list (map fst bs) n)"
    by (simp add: fun_eq_iff)
  with I(1) have "ipc_inv (total pc_hold (add_mset (Destroy a ns nr bs) M))
      (\<lambda>n. total pc_det (add_mset ?q M) n + count_list (map fst bs) n) s" by simp
  from kipc_free_notify_bindings_inv [OF this] obtain s1 where s1: "kipc_free_notify_bindings bs s = Some s1"
    "ipc_inv (total pc_hold (add_mset (Destroy a ns nr bs) M)) (total pc_det (add_mset ?q M)) s1" by blast
  have "keeps s s1" using s1(1) by (auto simp: kipc_free_notify_bindings_def intro: keeps_eps)
  with I(2) have "accts (add_mset (Destroy a ns nr bs) M) s1" by (rule accts_keeps)
  with s1(2) have "\<exists>s'. after_release a ?q s1 = Step ?q s' \<and> sys_inv (add_mset ?q M, s')"
    by (rule sys_inv_release) (simp_all add: same_counts_def True)
  with s1(1) True show ?thesis by auto
next
  case False
  then show ?thesis using step_Destroy_post [OF inv] by (cases "ns = 0") (simp_all del: ksem_post_1)
qed

lemma thread_step_good:
  assumes "sys_inv (add_mset p M, s)"
  shows "good (thread_step p s) M"
  by (cases p) (use assms step_Send step_SendWait step_SendRel step_Publish step_PublishGet step_Recv
    step_RecvWait step_RecvRel step_Destroy in simp_all)

lemma call_CDestroy:
  assumes inv: "sys_inv (add_mset (Ret r) M, s)" and a: "HASH_FIND h (endpoints s) = Some a" and e: "eps s a = Some e"
  shows "sys_inv (add_mset (Destroy a (waiting_senders e) (waiting_receivers e) (notify_bindings e)) M, kipc_destroy_detach h a e s)"
    (is "sys_inv (add_mset ?q M, ?s)")
proof -
  note I = sys_invD [OF inv]
  have "total pc_hold (add_mset ?q M) = (total pc_hold (add_mset (Ret r) M))(a := total pc_hold (add_mset (Ret r) M) a + 1)"
    "total pc_det (add_mset ?q M) = (\<lambda>n. total pc_det (add_mset (Ret r) M) n + count_list (map fst (notify_bindings e)) n)"
    by (auto simp: fun_eq_iff)
  then have "ipc_inv (total pc_hold (add_mset ?q M)) (total pc_det (add_mset ?q M)) ?s"
    using kipc_destroy_detach_inv [OF I(1) a e] by simp
  moreover have "acct (add_mset (Ret r) M) a e" using I(2) e by blast
  then have "acct (add_mset ?q M) a (e\<lparr>is_shutting_down := True, notify_bindings := [], waiting_senders := 0, waiting_receivers := 0\<rparr>)"
    by (simp add: acct_def)
  then have "accts (add_mset ?q M) ?s"
    by (intro accts_step_at [OF I(2), of a]) (simp_all add: same_counts_def e kipc_destroy_detach_def ipc_unlink_def)
  ultimately show ?thesis by (simp add: sys_inv_def)
qed

lemma sys_inv_Ret: "sys_inv (add_mset (Ret r) M, s) \<Longrightarrow> sys_inv (add_mset (Ret r') M, s)"
  using sys_inv_soft [OF sys_invD(1), of "Ret r" M s "Ret r'"] accts_same_counts [OF sys_invD(2), of "Ret r" M s "Ret r'"]
  by (simp add: same_counts_def)

lemma kipc_call_good:
  assumes inv: "sys_inv (add_mset (Ret r) M, s)"
  shows "good (kipc_call c s) M"
proof (cases c)
  case (CSend cid h m)
  obtain q s' where acq: "kipc_acquire h s = (q, s')" by fastforce
  show ?thesis
  proof (cases q)
    case None
    with acq kipc_acquire_None [of h s s'] sys_inv_Ret [OF inv] CSend show ?thesis by simp
  next
    case (Some a)
    with acq have acq: "kipc_acquire h s = (Some a, s')" by simp
    obtain e where e: "eps s' a = Some e" using acquired [OF inv acq] by blast
    have "sys_inv (add_mset (SendRel a st Direct) M, s')" "sys_inv (add_mset (Publish a m1 None) M, s')"
      "sys_inv (add_mset (Send a m1 Direct) M, s')" for st m1
      by (rule sys_inv_acquire [OF inv acq]; auto simp: same_counts_def acct_def)+
    then show ?thesis using acq e CSend sys_inv_Ret [OF inv] by (cases "ep_type e") (simp_all add: Let_def)
  qed
next
  case (CRecv h)
  obtain q s' where acq: "kipc_acquire h s = (q, s')" by fastforce
  have "sys_inv (add_mset (Recv a) M, s')" if "q = Some a" for a
    by (rule sys_inv_acquire [OF inv acq [unfolded that]]) (auto simp: same_counts_def acct_def)
  then show ?thesis using acq CRecv kipc_acquire_None [of h s s'] sys_inv_Ret [OF inv] by (cases q) simp_all
next
  case (CDestroy h)
  show ?thesis
  proof (cases "HASH_FIND h (endpoints s)")
    case None with CDestroy sys_inv_Ret [OF inv] show ?thesis by simp
  next
    case (Some a)
    obtain e where e: "eps s a = Some e" using ipc_inv_live(1) [OF sys_invD(1) [OF inv] Some] by blast
    with Some CDestroy call_CDestroy [OF inv Some e] sys_inv_Ret [OF inv] show ?thesis by simp
  qed
qed

lemma sys_step_inv: "sys_step st st' \<Longrightarrow> sys_inv st \<Longrightarrow> sys_inv st'"
proof (induction rule: sys_step.induct)
  case (call c s pc' s' r M) then show ?case using kipc_call_good [of r M s c] by simp
next
  case (run pc s pc' s' M) then show ?case using thread_step_good [of pc M s] by simp
next
  case (other op s s' M)
  from other have I: "ipc_inv (total pc_hold M) (total pc_det M) s" "accts M s" by (auto dest: sys_invD)
  then show ?case using ipc_exec_inv [OF I(1) other(2)] accts_exec [OF I(2,1) other(1,2,3)] other(3) by (simp add: sys_inv_def)
qed

definition sys_start :: "nat \<Rightarrow> pc multiset \<times> ipc_state" where
  "sys_start n = (replicate_mset n (Ret (Inl IPC_OK)), kipc_init knotify_init)"

lemma sys_start_inv: "sys_inv (sys_start n)"
proof -
  have "total f (replicate_mset n (Ret (Inl IPC_OK))) = (\<lambda>_. 0)" if "\<And>b. f (Ret (Inl IPC_OK)) b = 0" for f
    using that by (induction n) (auto simp: fun_eq_iff)
  then show ?thesis using kipc_init_inv by (simp add: sys_start_def sys_inv_def) (simp add: kipc_init_def)
qed

lemma sys_reachable_inv: "sys_step\<^sup>*\<^sup>* (sys_start n) st \<Longrightarrow> sys_inv st"
  by (induction rule: rtranclp_induct) (auto intro: sys_start_inv sys_step_inv)


section \<open>No wakeup is lost\<close>

definition stuck :: "pc multiset \<Rightarrow> ipc_state \<Rightarrow> bool" where
  "stuck M s \<longleftrightarrow> (\<forall>p \<in># M. thread_step p s = Blocked)"

lemma total_member: "p \<in># M \<Longrightarrow> f p b \<le> total f M b"
  by (metis insert_DiffM le_add1 total_simps(2))

lemma total_zero: "(\<And>p. p \<in># M \<Longrightarrow> f p b = 0) \<Longrightarrow> total f M b = 0"
  by (induction M) simp_all

lemma blocked_cases:
  "thread_step p s = Blocked \<Longrightarrow>
   (\<exists>r. p = Ret r) \<or> (\<exists>a m k e. p = SendWait a m k \<and> eps s a = Some e \<and> sender_sem e = 0) \<or>
   (\<exists>a e. p = RecvWait a \<and> eps s a = Some e \<and> receiver_sem e = 0)"
  by (cases p) (auto simp: after_release_def kipc_publish_def kipc_publish_get_def
      split: option.splits if_splits prod.splits list.splits)

lemma stuck_counts:
  assumes "stuck M s"
  shows "total try_send M b = 0" "total try_recv M b = 0" "total post_send M b = 0" "total post_recv M b = 0"
  using assms blocked_cases unfolding stuck_def by (intro total_zero; fastforce)+

text \<open>
  Property C13.  No wakeup is lost: when no thread of the system can take a step, a thread that sleeps
  in kipc_send sleeps on an endpoint that is open and full, and a thread that sleeps in kipc_recv
  sleeps on an endpoint that is open and empty.  In particular kipc_destroy leaves no thread asleep.
\<close>

theorem ipc_no_lost_wakeup:
  assumes "sys_step\<^sup>*\<^sup>* (sys_start n) (M, s)" "stuck M s"
  shows "(\<forall>a m k. SendWait a m k \<in># M \<longrightarrow>
            (\<exists>e. eps s a = Some e \<and> \<not> is_shutting_down e \<and> length (queue_list e) = IPC_QUEUE_CAPACITY)) \<and>
         (\<forall>a. RecvWait a \<in># M \<longrightarrow> (\<exists>e. eps s a = Some e \<and> \<not> is_shutting_down e \<and> queue_list e = []))"
proof -
  have inv: "sys_inv (M, s)" by (rule sys_reachable_inv [OF assms(1)])
  note I = sys_invD [OF inv]
  note none = stuck_counts [OF assms(2)]
  have "\<exists>e. eps s a = Some e \<and> \<not> is_shutting_down e \<and> length (queue_list e) = 64" if p: "SendWait a m k \<in># M" for a m k
  proof -
    obtain e where e: "eps s a = Some e" "sender_sem e = 0"
      using assms(2) p blocked_cases unfolding stuck_def by fastforce
    have ac: "acct M a e" "ep_ok (registered a (endpoints s)) e" using I e ipc_invD(2) [OF I(1)] by blast+
    have "0 < total wait_send M a" using total_member [OF p, of wait_send a] by simp
    then have "0 < waiting_senders e" using ac(1) none e(2) by (simp add: acct_def)
    with ac none e have "\<not> is_shutting_down e" "64 \<le> queue_count e" "queue_count e \<le> 64"
      by (auto simp: acct_def ep_ok_def queue_wf_def)
    with e(1) show ?thesis by auto
  qed
  moreover have "\<exists>e. eps s a = Some e \<and> \<not> is_shutting_down e \<and> queue_list e = []" if p: "RecvWait a \<in># M" for a
  proof -
    obtain e where e: "eps s a = Some e" "receiver_sem e = 0"
      using assms(2) p blocked_cases unfolding stuck_def by fastforce
    have ac: "acct M a e" using I e by blast
    have "0 < total wait_recv M a" using total_member [OF p, of wait_recv a] by simp
    then have "0 < waiting_receivers e" using ac none e(2) by (simp add: acct_def)
    with ac none e have "\<not> is_shutting_down e" "queue_count e = 0" by (auto simp: acct_def)
    with e(1) show ?thesis by (auto simp: queue_list_def)
  qed
  ultimately show ?thesis by blast
qed

text \<open>A concrete run for the witnesses: one thread receives on an empty endpoint.\<close>

lemma receiver_run:
  "\<exists>s. sys_step\<^sup>*\<^sup>* (sys_start 1) ({#RecvWait 7#}, s) \<and> stuck {#RecvWait 7#} s"
proof -
  let ?s0 = "kipc_init knotify_init"
  let ?s1 = "snd (kipc_create (Some 7) ?s0)"
  let ?e = "(new_endpoint 1)\<lparr>e_references := Suc (Suc 0)\<rparr>"
  let ?s2 = "?s1\<lparr>eps := (eps ?s1)(7 \<mapsto> ?e)\<rparr>"
  let ?s3 = "?s2\<lparr>eps := (eps ?s2)(7 \<mapsto> ?e\<lparr>waiting_receivers := 1\<rparr>)\<rparr>"
  have e1: "eps ?s1 7 = Some (new_endpoint 1)" "endpoints ?s1 = [(1, 7)]"
    by (simp_all add: kipc_create_def ipc_insert_def kipc_init_def HASH_ADD_def)
  have "ipc_ok (ICreate (Some 7)) ?s0" by (simp add: kipc_init_def)
  then have r1: "sys_step (sys_start 1) ({#Ret (Inl IPC_OK)#}, ?s1)"
    using sys_step.other [of "ICreate (Some 7)" ?s0 ?s1] by (simp add: sys_start_def)
  have "e_update 7 (\<lambda>e. e\<lparr>e_references := e_references e + 1\<rparr>) ?s1 = ?s2"
    using e1(1) by (simp add: e_update_def new_endpoint_def)
  then have "kipc_acquire 1 ?s1 = (Some 7, ?s2)" using e1(2) by (simp add: kipc_acquire_def HASH_FIND_def)
  then have "kipc_call (CRecv 1) ?s1 = Step (Recv 7) ?s2" by simp
  then have r2: "sys_step ({#Ret (Inl IPC_OK)#}, ?s1) ({#Recv 7#}, ?s2)" by (rule sys_step.call)
  have "kipc_recv_round 7 ?s2 = Some (None, ?s3)"
    by (simp add: kipc_recv_round_def dequeue_locked_def kipc_queue_pop_def new_endpoint_def e_update_def)
  then have "thread_step (Recv 7) ?s2 = Step (RecvWait 7) ?s3" by simp
  then have r3: "sys_step ({#Recv 7#}, ?s2) ({#RecvWait 7#}, ?s3)" by (rule sys_step.run)
  have "sys_step\<^sup>*\<^sup>* (sys_start 1) ({#RecvWait 7#}, ?s3)"
    using r1 r2 r3 by (meson rtranclp.rtrancl_into_rtrancl rtranclp.rtrancl_refl)
  moreover have "stuck {#RecvWait 7#} ?s3" by (simp add: stuck_def new_endpoint_def)
  ultimately show ?thesis by blast
qed


theorem ipc_no_lost_wakeup_witness:
  "\<exists>s e. sys_step\<^sup>*\<^sup>* (sys_start 1) ({#RecvWait 7#}, s) \<and> eps s 7 = Some e \<and> queue_list e = []"
  using receiver_run ipc_no_lost_wakeup [of 1 "{#RecvWait 7#}"] by (metis union_single_eq_member add_mset_add_single)

end
