(* ===== verification/Kportio.thy ===== *)
theory Kportio
  imports Prelude
begin

text \<open>
  Port I/O objects (src/kernel/subsystems/kportio.c): ranges of I/O ports behind handles.  Reading a
  port is a parameter (what the hardware answers); a write is the instruction executed, as a value.
  A failed call is \<open>None\<close>.  Whether kmalloc succeeds is an argument.
\<close>

record portio_t =
  po_base :: u16
  po_length :: u32

record portio_state =
  global_portio_table :: "(u64, portio_t) uthash"
  next_portio_handle :: u64

abbreviation PORTIO_INVALID_HANDLE :: u64 where "PORTIO_INVALID_HANDLE \<equiv> UINT64_MAX"

datatype port_write = outb u8 u16 | outw u16 u16 | outl u32 u16

definition kportio_init :: portio_state where
  "kportio_init = \<lparr>global_portio_table = [], next_portio_handle = 1\<rparr>"

definition kportio_find_locked :: "u64 \<Rightarrow> portio_state \<Rightarrow> portio_t option" where
  "kportio_find_locked h s = HASH_FIND h (global_portio_table s)"

definition portio_insert :: "portio_t \<Rightarrow> portio_state \<Rightarrow> portio_state" where
  "portio_insert p s = s\<lparr>global_portio_table := HASH_ADD (next_portio_handle s) p (global_portio_table s),
                         next_portio_handle := next_portio_handle s + 1\<rparr>"

definition portio_unlink :: "u64 \<Rightarrow> portio_state \<Rightarrow> portio_state" where
  "portio_unlink h s = s\<lparr>global_portio_table := HASH_DEL h (global_portio_table s)\<rparr>"

definition kportio_insert_locked :: "portio_t \<Rightarrow> portio_state \<Rightarrow> (u64 \<times> portio_state) option" where
  "kportio_insert_locked p s =
     (if next_portio_handle s = PORTIO_INVALID_HANDLE then None
      else Some (next_portio_handle s, portio_insert p s))"

definition kportio_resolve_port_locked :: "u64 \<Rightarrow> u32 \<Rightarrow> u32 \<Rightarrow> portio_state \<Rightarrow> u16 option" where
  "kportio_resolve_port_locked h offset width s =
     (case kportio_find_locked h s of
        None \<Rightarrow> None
      | Some p \<Rightarrow>
          if offset > po_length p \<or> width > po_length p - offset then None
          else Some (ucast ((ucast (po_base p) :: u32) + offset)))"

definition kportio_create :: "bool \<Rightarrow> u16 \<Rightarrow> u32 \<Rightarrow> portio_state \<Rightarrow> u64 option \<times> portio_state" where
  "kportio_create mem_ok base len s =
     (if len = 0 \<or> len > 0x10000 - ucast base then (None, s)
      else if \<not> mem_ok then (None, s)
      else case kportio_insert_locked \<lparr>po_base = base, po_length = len\<rparr> s of
        None \<Rightarrow> (None, s)
      | Some (h, s') \<Rightarrow> (Some h, s'))"

definition kportio_get :: "u64 \<Rightarrow> portio_state \<Rightarrow> (u64 \<times> portio_t) option" where
  "kportio_get h s =
     (if h = PORTIO_INVALID_HANDLE then None else map_option (Pair h) (kportio_find_locked h s))"

definition kportio_destroy :: "u64 \<Rightarrow> portio_state \<Rightarrow> int \<times> portio_state" where
  "kportio_destroy h s =
     (if h = PORTIO_INVALID_HANDLE then (-1, s)
      else case kportio_find_locked h s of
        None \<Rightarrow> (-1, s)
      | Some p \<Rightarrow> (0, portio_unlink h s))"

definition kportio_inb :: "(u16 \<Rightarrow> u8) \<Rightarrow> u64 \<Rightarrow> u32 \<Rightarrow> portio_state \<Rightarrow> u8 option" where
  "kportio_inb hw h offset s = map_option hw (kportio_resolve_port_locked h offset 1 s)"

definition kportio_inw :: "(u16 \<Rightarrow> u16) \<Rightarrow> u64 \<Rightarrow> u32 \<Rightarrow> portio_state \<Rightarrow> u16 option" where
  "kportio_inw hw h offset s = map_option hw (kportio_resolve_port_locked h offset 2 s)"

definition kportio_inl :: "(u16 \<Rightarrow> u32) \<Rightarrow> u64 \<Rightarrow> u32 \<Rightarrow> portio_state \<Rightarrow> u32 option" where
  "kportio_inl hw h offset s = map_option hw (kportio_resolve_port_locked h offset 4 s)"

definition kportio_outb :: "u64 \<Rightarrow> u32 \<Rightarrow> u8 \<Rightarrow> portio_state \<Rightarrow> port_write option" where
  "kportio_outb h offset v s = map_option (outb v) (kportio_resolve_port_locked h offset 1 s)"

definition kportio_outw :: "u64 \<Rightarrow> u32 \<Rightarrow> u16 \<Rightarrow> portio_state \<Rightarrow> port_write option" where
  "kportio_outw h offset v s = map_option (outw v) (kportio_resolve_port_locked h offset 2 s)"

definition kportio_outl :: "u64 \<Rightarrow> u32 \<Rightarrow> u32 \<Rightarrow> portio_state \<Rightarrow> port_write option" where
  "kportio_outl h offset v s = map_option (outl v) (kportio_resolve_port_locked h offset 4 s)"

section \<open>Well-formed tables\<close>

interpretation portio_reg: handle_registry global_portio_table next_portio_handle portio_insert portio_unlink
  by unfold_locales (simp_all add: portio_insert_def portio_unlink_def)

definition ports :: "portio_t \<Rightarrow> nat set" where
  "ports p = {unat (po_base p) ..< unat (po_base p) + unat (po_length p)}"

definition portio_wf :: "portio_state \<Rightarrow> bool" where
  "portio_wf s \<longleftrightarrow> reg_wf (global_portio_table s) (next_portio_handle s) \<and>
     (\<forall>h p. (h, p) \<in> set (global_portio_table s) \<longrightarrow> 0 < unat (po_length p) \<and> unat (po_base p) + unat (po_length p) \<le> 65536)"

lemma create_check_iff:
  "\<not> (len = 0 \<or> len > 0x10000 - ucast base) \<longleftrightarrow> 0 < unat len \<and> unat base + unat len \<le> 65536"
  for base :: u16 and len :: u32
proof -
  have b: "unat base < 65536" using unsigned_less [of base] by simp
  have u: "unat (ucast base :: u32) = unat base"
    using b by (simp add: unsigned_ucast_eq take_bit_nat_eq_self)
  then have "(ucast base :: u32) \<le> 0x10000" using b by (simp add: word_le_nat_alt)
  then have "unat (0x10000 - ucast base :: u32) = 65536 - unat base" using u by (simp add: unat_sub)
  then show ?thesis using b by (auto simp: word_less_nat_alt unat_gt_0 not_less)
qed

datatype portio_op = POCreate bool u16 u32 | PODestroy u64

fun portio_exec :: "portio_op \<Rightarrow> portio_state \<Rightarrow> portio_state" where
  "portio_exec (POCreate ok base len) s = snd (kportio_create ok base len s)"
| "portio_exec (PODestroy h) s = snd (kportio_destroy h s)"

lemma portio_wf_create: "portio_wf s \<Longrightarrow> portio_wf (snd (kportio_create ok base len s))"
  using portio_reg.wf_ins [of s "\<lparr>po_base = base, po_length = len\<rparr>"] create_check_iff [of len base]
  by (auto simp: kportio_create_def kportio_insert_locked_def portio_wf_def portio_insert_def)

lemma portio_wf_destroy: "portio_wf s \<Longrightarrow> portio_wf (snd (kportio_destroy h s))"
  using portio_reg.wf_del [of s h]
  by (auto simp: kportio_destroy_def portio_wf_def portio_unlink_def split: option.splits)

lemma portio_reachable_wf: "portio_wf (fold portio_exec ops kportio_init)"
proof -
  have "portio_wf s \<Longrightarrow> portio_wf (fold portio_exec ops s)" for s
  proof (induction ops arbitrary: s)
    case (Cons op ops)
    then show ?case using portio_wf_create portio_wf_destroy by (cases op) auto
  qed simp
  moreover have "portio_wf kportio_init" by (simp add: portio_wf_def kportio_init_def)
  ultimately show ?thesis .
qed

lemma resolve_iff:
  assumes "portio_wf s" "kportio_find_locked h s = Some p"
  shows "kportio_resolve_port_locked h offset width s =
     (if unat offset + unat width \<le> unat (po_length p) then Some (po_base p + ucast offset) else None)"
proof -
  have bounds: "unat (po_base p) + unat (po_length p) \<le> 65536"
    using assms HASH_FIND_Some_in unfolding portio_wf_def kportio_find_locked_def by metis
  have "width \<le> po_length p - offset \<longleftrightarrow> unat width \<le> unat (po_length p) - unat offset" if "offset \<le> po_length p"
    using that by (simp add: word_le_nat_alt unat_sub)
  then have chk: "(offset > po_length p \<or> width > po_length p - offset) \<longleftrightarrow> \<not> unat offset + unat width \<le> unat (po_length p)"
    by (auto simp: not_le [symmetric] word_le_nat_alt)
  have "ucast ((ucast (po_base p) :: u32) + offset) = po_base p + ucast offset"
    by (simp add: word_unat_eq_iff unsigned_ucast_eq unsigned_of_nat take_bit_eq_mod unat_word_ariths mod_mod_cancel mod_simps)
  then show ?thesis using assms(2) chk by (auto simp: kportio_resolve_port_locked_def)
qed



end
