(* ===== verification/Kirq.thy ===== *)
theory Kirq
  imports Kipc Kportio
begin

text \<open>
  Interrupt objects (src/kernel/subsystems/kirq.c): one object per hardware line, the listener list
  of each line, notification bindings, delivery, and the end-of-interrupt writes to the PICs through
  port I/O objects.  Objects are never freed, so a handle stands for the pointer to its object.
  The spin lock and the table mutex are held around whole updates.  \<open>None\<close> is a fault: a use of a
  freed notification, or the endless loop kirq_init enters when it cannot get its ports.
  kirq_detach_hwirq_locked is never called and is left out.
\<close>

section \<open>State and operations\<close>

record irq_t =
  hwirq :: u32
  i_sem :: nat
  i_bindings :: "ipc_notify_binding_t list"

record irq_state =
  global_irq_table :: "(u64, irq_t) uthash"
  next_irq_handle :: u64
  hwirq_table :: "u64 list list"
  irq_notifications :: notify_state
  irq_ports :: portio_state
  pio_master_pic :: u64
  pio_slave_pic :: u64
  irq_subsys_ready :: bool

abbreviation IRQ_INVALID_HANDLE :: u64 where "IRQ_INVALID_HANDLE \<equiv> UINT64_MAX"
abbreviation IRQ_COUNT :: nat where "IRQ_COUNT \<equiv> 16"

definition kirq_find_locked :: "u64 \<Rightarrow> irq_state \<Rightarrow> irq_t option" where
  "kirq_find_locked h s = HASH_FIND h (global_irq_table s)"

definition irq_insert :: "irq_t \<Rightarrow> irq_state \<Rightarrow> irq_state" where
  "irq_insert i s = s\<lparr>global_irq_table := HASH_ADD (next_irq_handle s) i (global_irq_table s),
                      next_irq_handle := next_irq_handle s + 1\<rparr>"

definition kirq_insert_locked :: "irq_t \<Rightarrow> irq_state \<Rightarrow> (u64 \<times> irq_state) option" where
  "kirq_insert_locked i s =
     (if next_irq_handle s = IRQ_INVALID_HANDLE then None else Some (next_irq_handle s, irq_insert i s))"

definition kirq_attach_hwirq_locked :: "u64 \<Rightarrow> nat \<Rightarrow> irq_state \<Rightarrow> irq_state" where
  "kirq_attach_hwirq_locked h k s = s\<lparr>hwirq_table := (hwirq_table s)[k := h # hwirq_table s ! k]\<rparr>"

definition kirq_free_notify_bindings :: "ipc_notify_binding_t list \<Rightarrow> irq_state \<Rightarrow> irq_state option" where
  "kirq_free_notify_bindings bs s =
     map_option (\<lambda>n. s\<lparr>irq_notifications := n\<rparr>) (release_all knotify_release bs (irq_notifications s))"

definition kirq_init :: "bool \<Rightarrow> notify_state \<Rightarrow> portio_state \<Rightarrow> irq_state option" where
  "kirq_init mem_ok n p =
     (case kportio_create mem_ok 0x20 2 p of
        (None, p) \<Rightarrow> None
      | (Some master, p) \<Rightarrow>
          (case kportio_create mem_ok 0xA0 2 p of
             (None, p) \<Rightarrow> None
           | (Some slave, p) \<Rightarrow>
               Some \<lparr>global_irq_table = [], next_irq_handle = 1, hwirq_table = replicate IRQ_COUNT [],
                     irq_notifications = n, irq_ports = p, pio_master_pic = master, pio_slave_pic = slave,
                     irq_subsys_ready = True\<rparr>))"

definition kirq_find_by_hwirq :: "u32 \<Rightarrow> irq_state \<Rightarrow> u64 option" where
  "kirq_find_by_hwirq k s =
     (if unat k \<ge> IRQ_COUNT then None
      else map_option fst (find (\<lambda>e. hwirq (snd e) = k) (global_irq_table s)))"

definition kirq_create :: "bool \<Rightarrow> u32 \<Rightarrow> irq_state \<Rightarrow> u64 option \<times> irq_state" where
  "kirq_create mem_ok k s =
     (if unat k \<ge> IRQ_COUNT then (None, s)
      else case kirq_find_by_hwirq k s of
        Some h \<Rightarrow> (Some h, s)
      | None \<Rightarrow>
          if \<not> mem_ok then (None, s)
          else case kirq_insert_locked \<lparr>hwirq = k, i_sem = 0, i_bindings = []\<rparr> s of
            None \<Rightarrow> (None, s)
          | Some (h, s) \<Rightarrow> (Some h, kirq_attach_hwirq_locked h (unat k) s))"

definition kirq_get :: "u64 \<Rightarrow> irq_state \<Rightarrow> (u64 \<times> u32) option" where
  "kirq_get h s =
     (if h = IRQ_INVALID_HANDLE then None else map_option (\<lambda>i. (h, hwirq i)) (kirq_find_locked h s))"

datatype wait_result = IrqWaits | IrqReturns int

definition kirq_wait :: "u64 \<Rightarrow> irq_state \<Rightarrow> wait_result \<times> irq_state" where
  \<comment> \<open>one attempt: ksem_wait takes a count, or goes on waiting while there is none\<close>
  "kirq_wait h s =
     (if h = IRQ_INVALID_HANDLE then (IrqReturns (-1), s)
      else case kirq_find_locked h s of
        None \<Rightarrow> (IrqReturns (-1), s)
      | Some i \<Rightarrow>
          if i_sem i = 0 then (IrqWaits, s)
          else (IrqReturns 0, s\<lparr>global_irq_table := HASH_UPD h (\<lambda>i. i\<lparr>i_sem := i_sem i - 1\<rparr>) (global_irq_table s)\<rparr>))"

definition set_bindings :: "u64 \<Rightarrow> ipc_notify_binding_t list \<Rightarrow> irq_state \<Rightarrow> irq_state" where
  "set_bindings h bs s = s\<lparr>global_irq_table := HASH_UPD h (\<lambda>i. i\<lparr>i_bindings := bs\<rparr>) (global_irq_table s)\<rparr>"

definition kirq_destroy :: "u64 \<Rightarrow> irq_state \<Rightarrow> (int \<times> irq_state) option" where
  "kirq_destroy h s =
     (if h = IRQ_INVALID_HANDLE then Some (-1, s)
      else case kirq_find_locked h s of
        None \<Rightarrow> Some (-1, s)
      | Some i \<Rightarrow> map_option (Pair 0) (kirq_free_notify_bindings (i_bindings i) (set_bindings h [] s)))"

definition kirq_deliver :: "u64 \<Rightarrow> irq_state \<Rightarrow> irq_state" where
  \<comment> \<open>one turn of the loop over the listeners: post, then signal every binding\<close>
  "kirq_deliver h s =
     (case kirq_find_locked h s of
        None \<Rightarrow> s
      | Some i \<Rightarrow>
          s\<lparr>global_irq_table := HASH_UPD h (\<lambda>i. i\<lparr>i_sem := i_sem i + 1\<rparr>) (global_irq_table s),
            irq_notifications := kipc_signal_notify_bindings_locked (i_bindings i) (irq_notifications s)\<rparr>)"

definition kirq_handle :: "u64 \<Rightarrow> irq_state \<Rightarrow> irq_state" where
  "kirq_handle k s = (if unat k \<ge> IRQ_COUNT then s else fold kirq_deliver (hwirq_table s ! unat k) s)"

definition kirq_handler :: "u64 \<Rightarrow> irq_state \<Rightarrow> irq_state" where
  "kirq_handler k s = (if irq_subsys_ready s then kirq_handle k s else s)"

definition irq_notify_release :: "addr \<Rightarrow> irq_state \<Rightarrow> irq_state option" where
  "irq_notify_release n s = map_option (\<lambda>m. s\<lparr>irq_notifications := m\<rparr>) (knotify_release n (irq_notifications s))"

definition kirq_bind_notify :: "u64 \<Rightarrow> u64 \<Rightarrow> u64 \<Rightarrow> bool \<Rightarrow> irq_state \<Rightarrow> (int \<times> irq_state) option" where
  "kirq_bind_notify h nh bits mem_ok s =
     (if h = IRQ_INVALID_HANDLE \<or> nh = NOTIFY_INVALID_HANDLE \<or> bits = 0 then Some (-1, s)
      else case knotify_acquire nh (irq_notifications s) of
        (None, m) \<Rightarrow> Some (-1, s\<lparr>irq_notifications := m\<rparr>)
      | (Some n, m) \<Rightarrow>
          (let s = s\<lparr>irq_notifications := m\<rparr> in
           if \<not> mem_ok then map_option (Pair (-1)) (irq_notify_release n s)
           else case kirq_find_locked h s of
             None \<Rightarrow> map_option (Pair (-1)) (irq_notify_release n s)
           | Some i \<Rightarrow>
               if n \<in> fst ` set (i_bindings i)
               then map_option (Pair 0) (irq_notify_release n (set_bindings h (rebind n bits (i_bindings i)) s))
               else Some (0, set_bindings h ((n, bits) # i_bindings i) s)))"

definition kirq_unbind_notify :: "u64 \<Rightarrow> u64 \<Rightarrow> irq_state \<Rightarrow> (int \<times> irq_state) option" where
  "kirq_unbind_notify h nh s =
     (if h = IRQ_INVALID_HANDLE \<or> nh = NOTIFY_INVALID_HANDLE then Some (-1, s)
      else case kirq_find_locked h s of
        None \<Rightarrow> Some (-1, s)
      | Some i \<Rightarrow>
          do { found \<leftarrow> find_binding nh (irq_notifications s) (i_bindings i);
               case found of
                 None \<Rightarrow> Some (-1, s)
               | Some b \<Rightarrow> map_option (Pair 0)
                   (kirq_free_notify_bindings [b] (set_bindings h (remove1 b (i_bindings i)) s)) })"

definition pic_eoi :: "u32 \<Rightarrow> irq_state \<Rightarrow> port_write list \<times> int" where
  \<comment> \<open>the writes that were executed, and the status\<close>
  "pic_eoi k s =
     (let master = kportio_outb (pio_master_pic s) 0 0x20 (irq_ports s);
          slave = kportio_outb (pio_slave_pic s) 0 0x20 (irq_ports s) in
      if unat k \<ge> 8 then
        (case slave of
           None \<Rightarrow> ([], -1)
         | Some w \<Rightarrow> (case master of None \<Rightarrow> ([w], -1) | Some v \<Rightarrow> ([w, v], 0)))
      else (case master of None \<Rightarrow> ([], -1) | Some v \<Rightarrow> ([v], 0)))"

definition kirq_ack :: "u64 \<Rightarrow> irq_state \<Rightarrow> port_write list \<times> int" where
  "kirq_ack h s =
     (if h = IRQ_INVALID_HANDLE then ([], -1)
      else case kirq_find_locked h s of
        None \<Rightarrow> ([], -1)
      | Some i \<Rightarrow> pic_eoi (hwirq i) s)"

section \<open>The invariant\<close>

definition irq_refs :: "(u64, irq_t) uthash \<Rightarrow> addr \<Rightarrow> nat" where
  "irq_refs t n = (\<Sum>e \<leftarrow> t. count_list (map fst (i_bindings (snd e))) n)"

text \<open>
  \<open>ext\<close> counts references to notification objects from outside.  Every line has at most one object,
  and its listener list holds exactly the handles of the objects on that line.
\<close>

definition irq_inv :: "(addr \<Rightarrow> nat) \<Rightarrow> irq_state \<Rightarrow> bool" where
  "irq_inv ext s \<longleftrightarrow>
     reg_wf (global_irq_table s) (next_irq_handle s) \<and>
     length (hwirq_table s) = IRQ_COUNT \<and>
     (\<forall>e \<in> set (global_irq_table s). unat (hwirq (snd e)) < IRQ_COUNT \<and> distinct (map fst (i_bindings (snd e)))) \<and>
     distinct (map (\<lambda>e. hwirq (snd e)) (global_irq_table s)) \<and>
     (\<forall>k < IRQ_COUNT. hwirq_table s ! k = map fst (filter (\<lambda>e. unat (hwirq (snd e)) = k) (global_irq_table s))) \<and>
     notify_inv (\<lambda>n. ext n + irq_refs (global_irq_table s) n) (irq_notifications s)"

lemma irq_invD:
  assumes "irq_inv ext s"
  shows "reg_wf (global_irq_table s) (next_irq_handle s)" "length (hwirq_table s) = IRQ_COUNT"
    "e \<in> set (global_irq_table s) \<Longrightarrow> unat (hwirq (snd e)) < IRQ_COUNT \<and> distinct (map fst (i_bindings (snd e)))"
    "distinct (map (\<lambda>e. hwirq (snd e)) (global_irq_table s))"
    "k < IRQ_COUNT \<Longrightarrow> hwirq_table s ! k = map fst (filter (\<lambda>e. unat (hwirq (snd e)) = k) (global_irq_table s))"
    "notify_inv (\<lambda>n. ext n + irq_refs (global_irq_table s) n) (irq_notifications s)"
  using assms unfolding irq_inv_def by blast+

lemma irq_invI:
  assumes "reg_wf (global_irq_table s) (next_irq_handle s)" "length (hwirq_table s) = IRQ_COUNT"
    "\<And>e. e \<in> set (global_irq_table s) \<Longrightarrow> unat (hwirq (snd e)) < IRQ_COUNT \<and> distinct (map fst (i_bindings (snd e)))"
    "distinct (map (\<lambda>e. hwirq (snd e)) (global_irq_table s))"
    "\<And>k. k < IRQ_COUNT \<Longrightarrow> hwirq_table s ! k = map fst (filter (\<lambda>e. unat (hwirq (snd e)) = k) (global_irq_table s))"
    "notify_inv (\<lambda>n. ext n + irq_refs (global_irq_table s) n) (irq_notifications s)"
  shows "irq_inv ext s"
  unfolding irq_inv_def using assms by blast

lemma UPD_absent: "h \<notin> set (keys t) \<Longrightarrow> HASH_UPD h f t = t"
  by (induction t) (auto simp: HASH_UPD_def)

lemma UPD_Cons: "HASH_UPD h f (e # t) = (if fst e = h then (h, f (snd e)) else e) # HASH_UPD h f t"
  by (cases e) (auto simp: HASH_UPD_def)

lemma irq_refs_UPD:
  "distinct (keys t) \<Longrightarrow> HASH_FIND h t = Some i \<Longrightarrow>
   irq_refs (HASH_UPD h f t) n + count_list (map fst (i_bindings i)) n =
   irq_refs t n + count_list (map fst (i_bindings (f i))) n"
proof (induction t)
  case (Cons e t)
  show ?case
  proof (cases "fst e = h")
    case True
    with Cons.prems have "snd e = i" "h \<notin> set (keys t)" by (auto simp: HASH_FIND_def)
    with True show ?thesis by (simp add: UPD_Cons UPD_absent irq_refs_def)
  next
    case False
    with Cons.prems have "HASH_FIND h t = Some i" "distinct (keys t)" by (auto simp: HASH_FIND_def)
    from Cons.IH [OF this(2,1)] False show ?thesis by (simp add: UPD_Cons irq_refs_def)
  qed
qed simp

lemma UPD_hwirq:
  assumes "\<And>i. hwirq (f i) = hwirq i"
  shows "map (\<lambda>e. hwirq (snd e)) (HASH_UPD h f t) = map (\<lambda>e. hwirq (snd e)) t"
    "map fst (filter (\<lambda>e. unat (hwirq (snd e)) = k) (HASH_UPD h f t)) = map fst (filter (\<lambda>e. unat (hwirq (snd e)) = k) t)"
  by (induction t) (auto simp: HASH_UPD_def assms)

lemma irq_inv_upd:
  assumes inv: "irq_inv ext s" and h: "HASH_FIND h (global_irq_table s) = Some i"
    and f: "\<And>i. hwirq (f i) = hwirq i" "distinct (map fst (i_bindings (f i)))"
    and ext: "\<And>n. ext' n + count_list (map fst (i_bindings (f i))) n = ext n + count_list (map fst (i_bindings i)) n"
    and m: "notify_inv (\<lambda>n. ext n + irq_refs (global_irq_table s) n) m"
  shows "irq_inv ext' (s\<lparr>global_irq_table := HASH_UPD h f (global_irq_table s), irq_notifications := m\<rparr>)" (is "irq_inv _ ?s")
proof (rule irq_invI)
  note I = irq_invD [OF inv]
  let ?t = "global_irq_table s"
  have dist: "distinct (keys ?t)" by (rule reg_wf_distinct [OF I(1)])
  show "reg_wf (global_irq_table ?s) (next_irq_handle ?s)" using reg_wf_UPD [OF I(1)] by simp
  show "length (hwirq_table ?s) = IRQ_COUNT" using I(2) by simp
  show "distinct (map (\<lambda>e. hwirq (snd e)) (global_irq_table ?s))" using I(4) by (simp add: UPD_hwirq [OF f(1)])
  show "hwirq_table ?s ! k = map fst (filter (\<lambda>e. unat (hwirq (snd e)) = k) (global_irq_table ?s))" if "k < IRQ_COUNT" for k
    using I(5) [OF that] by (simp add: UPD_hwirq [OF f(1)])
  show "unat (hwirq (snd e)) < IRQ_COUNT \<and> distinct (map fst (i_bindings (snd e)))" if e: "e \<in> set (global_irq_table ?s)" for e
  proof -
    have "e \<in> (\<lambda>e. if fst e = h then (fst e, f (snd e)) else e) ` set ?t" using e by (simp add: set_UPD)
    then obtain e0 where e0: "e0 \<in> set ?t" "e = (if fst e0 = h then (fst e0, f (snd e0)) else e0)" by blast
    have "snd e0 = i" if "fst e0 = h" using HASH_FIND_iff_in [OF dist, of h] h e0(1) that by (metis option.inject prod.collapse)
    then show ?thesis using I(3) [OF e0(1)] e0(2) f by auto
  qed
  have "ext' n + irq_refs (HASH_UPD h f ?t) n = ext n + irq_refs ?t n" for n
    using irq_refs_UPD [OF dist h, of f n] ext [of n] by linarith
  then show "notify_inv (\<lambda>n. ext' n + irq_refs (global_irq_table ?s) n) (irq_notifications ?s)" using m by simp
qed

lemma irq_inv_notif:
  assumes "irq_inv ext s" "notify_inv (\<lambda>n. ext' n + irq_refs (global_irq_table s) n) m"
  shows "irq_inv ext' (s\<lparr>irq_notifications := m\<rparr>)"
  using assms unfolding irq_inv_def by simp

lemma irq_set_bindings_inv:
  assumes "irq_inv ext s" "kirq_find_locked h s = Some i" "distinct (map fst bs)"
    "\<And>n. ext' n + count_list (map fst bs) n = ext n + count_list (map fst (i_bindings i)) n"
  shows "irq_inv ext' (set_bindings h bs s)"
  using irq_inv_upd [OF assms(1), of h i "\<lambda>i. i\<lparr>i_bindings := bs\<rparr>" ext' "irq_notifications s"] assms irq_invD(6) [OF assms(1)]
  by (simp add: set_bindings_def kirq_find_locked_def)

lemma irq_found_ok:
  assumes "irq_inv ext s" "kirq_find_locked h s = Some i"
  shows "unat (hwirq i) < IRQ_COUNT" "distinct (map fst (i_bindings i))"
  using irq_invD(3) [OF assms(1) HASH_FIND_Some_in [OF assms(2) [unfolded kirq_find_locked_def]]] by simp_all

lemma irq_release_inv:
  assumes "irq_inv ext s" "0 < ext n"
  shows "\<exists>s'. irq_notify_release n s = Some s' \<and> irq_inv (ext(n := ext n - 1)) s'"
proof -
  have "0 < ext n + irq_refs (global_irq_table s) n" using assms(2) by simp
  from nref.release_inv [OF irq_invD(6) [OF assms(1)] this] obtain m where
    m: "knotify_release n (irq_notifications s) = Some m" "notify_inv ((\<lambda>n. ext n + irq_refs (global_irq_table s) n)
      (n := ext n + irq_refs (global_irq_table s) n - 1)) m" by blast
  have "(\<lambda>n. ext n + irq_refs (global_irq_table s) n)(n := ext n + irq_refs (global_irq_table s) n - 1) =
      (\<lambda>k. (ext(n := ext n - 1)) k + irq_refs (global_irq_table s) k)" using assms(2) by (auto simp: fun_eq_iff)
  with m irq_inv_notif [OF assms(1)] show ?thesis by (simp add: irq_notify_release_def)
qed

lemma irq_free_bindings_inv:
  assumes "irq_inv (\<lambda>n. ext n + count_list (map fst bs) n) s"
  shows "\<exists>s'. kirq_free_notify_bindings bs s = Some s' \<and> irq_inv ext s'"
proof -
  have "count_list (map fst bs) n \<le> ext n + count_list (map fst bs) n + irq_refs (global_irq_table s) n" for n by simp
  from nref.release_all_inv [OF irq_invD(6) [OF assms], of bs] this obtain m where
    "release_all knotify_release bs (irq_notifications s) = Some m"
    "notify_inv (\<lambda>n. ext n + count_list (map fst bs) n + irq_refs (global_irq_table s) n - count_list (map fst bs) n) m" by blast
  then show ?thesis using irq_inv_notif [OF assms, of ext m] by (simp add: kirq_free_notify_bindings_def)
qed

section \<open>Every operation keeps the invariant\<close>

interpretation irq_reg: handle_registry global_irq_table next_irq_handle irq_insert
    "\<lambda>h s. s\<lparr>global_irq_table := HASH_DEL h (global_irq_table s)\<rparr>"
  by unfold_locales (simp_all add: irq_insert_def)

lemma find_by_hwirq_None:
  assumes "kirq_find_by_hwirq k s = None" "unat k < IRQ_COUNT" "e \<in> set (global_irq_table s)"
  shows "hwirq (snd e) \<noteq> k"
proof -
  have "\<not> (\<exists>e. e \<in> set (global_irq_table s) \<and> hwirq (snd e) = k)"
    using assms(1,2) by (simp add: kirq_find_by_hwirq_def find_None_iff)
  with assms(3) show ?thesis by blast
qed

lemma kirq_create_inv:
  assumes inv: "irq_inv ext s"
  shows "irq_inv ext (snd (kirq_create ok k s))"
proof (cases "unat k < IRQ_COUNT \<and> kirq_find_by_hwirq k s = None \<and> ok \<and> next_irq_handle s \<noteq> IRQ_INVALID_HANDLE")
  case False
  then show ?thesis using inv by (auto simp: kirq_create_def kirq_insert_locked_def split: option.splits)
next
  case True
  note I = irq_invD [OF inv]
  let ?i = "\<lparr>hwirq = k, i_sem = 0, i_bindings = []\<rparr>"
  let ?h = "next_irq_handle s"
  let ?s = "kirq_attach_hwirq_locked ?h (unat k) (irq_insert ?i s)"
  have t: "global_irq_table ?s = global_irq_table s @ [(?h, ?i)]" "next_irq_handle ?s = ?h + 1"
    "hwirq_table ?s = (hwirq_table s)[unat k := ?h # hwirq_table s ! unat k]" "irq_notifications ?s = irq_notifications s"
    by (simp_all add: kirq_attach_hwirq_locked_def irq_insert_def HASH_ADD_def)
  have none: "hwirq (snd e) \<noteq> k" if "e \<in> set (global_irq_table s)" for e using find_by_hwirq_None [OF _ _ that] True by blast
  have "irq_inv ext ?s"
  proof (rule irq_invI)
    show "reg_wf (global_irq_table ?s) (next_irq_handle ?s)"
      using irq_reg.wf_ins [OF I(1), of ?i] True by (simp add: kirq_attach_hwirq_locked_def)
    show "length (hwirq_table ?s) = IRQ_COUNT" using I(2) by (simp add: t)
    show "unat (hwirq (snd e)) < IRQ_COUNT \<and> distinct (map fst (i_bindings (snd e)))" if "e \<in> set (global_irq_table ?s)" for e
      using that I(3) [of e] True by (cases "e = (?h, ?i)") (simp_all add: t)
    show "distinct (map (\<lambda>e. hwirq (snd e)) (global_irq_table ?s))" using I(4) none by (auto simp: t)
    show "notify_inv (\<lambda>n. ext n + irq_refs (global_irq_table ?s) n) (irq_notifications ?s)"
      using I(6) by (simp add: t irq_refs_def)
    fix j assume j: "j < IRQ_COUNT"
    have "filter (\<lambda>e. unat (hwirq (snd e)) = unat k) (global_irq_table s) = []"
      using none by (auto simp: filter_empty_conv word_unat_eq_iff)
    then show "hwirq_table ?s ! j = map fst (filter (\<lambda>e. unat (hwirq (snd e)) = j) (global_irq_table ?s))"
      using I(5) [OF j] I(2) j by (cases "j = unat k") (simp_all add: t)
  qed
  with True show ?thesis by (simp add: kirq_create_def kirq_insert_locked_def)
qed

lemma kirq_wait_inv: "irq_inv ext s \<Longrightarrow> irq_inv ext (snd (kirq_wait h s))"
  using irq_inv_upd [of ext s h _ "\<lambda>i. i\<lparr>i_sem := i_sem i - 1\<rparr>" ext "irq_notifications s"] irq_found_ok(2) [of ext s h]
    irq_invD(6) [of ext s]
  by (auto simp: kirq_wait_def kirq_find_locked_def split: option.splits)

lemma kirq_destroy_inv:
  assumes "irq_inv ext s"
  shows "\<exists>r s'. kirq_destroy h s = Some (r, s') \<and> irq_inv ext s'"
proof (cases "h = IRQ_INVALID_HANDLE \<or> kirq_find_locked h s = None")
  case True then show ?thesis using assms by (auto simp: kirq_destroy_def)
next
  case False
  then obtain i where i: "kirq_find_locked h s = Some i" by blast
  have "irq_inv (\<lambda>n. ext n + count_list (map fst (i_bindings i)) n) (set_bindings h [] s)"
    by (rule irq_set_bindings_inv [OF assms i]) simp_all
  from irq_free_bindings_inv [OF this] i False show ?thesis by (auto simp: kirq_destroy_def)
qed

lemma kirq_deliver_inv:
  assumes "irq_inv ext s"
  shows "irq_inv ext (kirq_deliver h s)"
proof (cases "kirq_find_locked h s")
  case (Some i)
  have "notify_inv (\<lambda>n. ext n + irq_refs (global_irq_table s) n) (kipc_signal_notify_bindings_locked (i_bindings i) (irq_notifications s))"
    unfolding kipc_signal_notify_bindings_locked_def by (rule nref.signal_all_inv [OF irq_invD(6) [OF assms]])
  from irq_inv_upd [OF assms Some [unfolded kirq_find_locked_def] _ _ _ this, of "\<lambda>i. i\<lparr>i_sem := i_sem i + 1\<rparr>" ext]
  show ?thesis using irq_found_ok(2) [OF assms Some] by (simp add: kirq_deliver_def Some)
qed (simp add: kirq_deliver_def assms)

lemma kirq_handler_inv: "irq_inv ext s \<Longrightarrow> irq_inv ext (kirq_handler k s)"
proof -
  have "irq_inv ext s \<Longrightarrow> irq_inv ext (fold kirq_deliver hs s)" for hs s
    by (induction hs arbitrary: s) (simp_all add: kirq_deliver_inv)
  then show "irq_inv ext s \<Longrightarrow> irq_inv ext (kirq_handler k s)" by (simp add: kirq_handler_def kirq_handle_def)
qed

lemma kirq_bind_notify_inv:
  assumes inv: "irq_inv ext s"
  shows "\<exists>r s'. kirq_bind_notify h nh bits ok s = Some (r, s') \<and> irq_inv ext s'"
proof (cases "h = IRQ_INVALID_HANDLE \<or> nh = NOTIFY_INVALID_HANDLE \<or> bits = 0")
  case True then show ?thesis using inv by (auto simp: kirq_bind_notify_def)
next
  case args: False
  obtain q m where acq: "knotify_acquire nh (irq_notifications s) = (q, m)" by fastforce
  show ?thesis
  proof (cases q)
    case None
    then show ?thesis using acq args inv nref.acquire_None [of nh "irq_notifications s" m] by (auto simp: kirq_bind_notify_def)
  next
    case (Some n)
    let ?s = "s\<lparr>irq_notifications := m\<rparr>"
    have "(\<lambda>n. ext n + irq_refs (global_irq_table s) n)(n := ext n + irq_refs (global_irq_table s) n + 1) =
        (\<lambda>k. (ext(n := ext n + 1)) k + irq_refs (global_irq_table s) k)" by (auto simp: fun_eq_iff)
    then have inv1: "irq_inv (ext(n := ext n + 1)) ?s"
      using nref.acquire_inv [OF irq_invD(6) [OF inv] acq [unfolded Some]] irq_inv_notif [OF inv] by simp
    have rel: "\<exists>s'. irq_notify_release n t = Some s' \<and> irq_inv ext s'" if "irq_inv (ext(n := ext n + 1)) t" for t
      using irq_release_inv [OF that, of n] by auto
    show ?thesis
    proof (cases "ok \<and> kirq_find_locked h ?s \<noteq> None")
      case False
      then show ?thesis using acq Some args rel [OF inv1] by (cases ok) (auto simp: kirq_bind_notify_def Let_def)
    next
      case True
      then obtain i where i: "kirq_find_locked h ?s = Some i" by blast
      note d = irq_found_ok(2) [OF inv1 i]
      have "irq_inv (ext(n := ext n + 1)) (set_bindings h (rebind n bits (i_bindings i)) ?s)"
        by (rule irq_set_bindings_inv [OF inv1 i]) (simp_all add: rebind_fst d)
      moreover have "irq_inv ext (set_bindings h ((n, bits) # i_bindings i) ?s)" if "n \<notin> fst ` set (i_bindings i)"
        by (rule irq_set_bindings_inv [OF inv1 i]) (use that d in auto)
      ultimately show ?thesis using acq Some args i True rel by (auto simp: kirq_bind_notify_def Let_def)
    qed
  qed
qed

lemma irq_bound_alive:
  assumes "irq_inv ext s" "kirq_find_locked h s = Some i" "b \<in> set (i_bindings i)"
  shows "\<exists>n. n_objs (irq_notifications s) (fst b) = Some n"
proof -
  have "(h, i) \<in> set (global_irq_table s)" using assms(2) HASH_FIND_Some_in unfolding kirq_find_locked_def by metis
  then have "count_list (map fst (i_bindings i)) (fst b) \<le> irq_refs (global_irq_table s) (fst b)"
    unfolding irq_refs_def by (intro member_le_sum_list) (force, simp)
  moreover have "0 < count_list (map fst (i_bindings i)) (fst b)" using assms(3) by (simp add: count_list_pos)
  ultimately show ?thesis
    using obj_inv_held [OF irq_invD(6) [OF assms(1), unfolded notify_inv_def], of "fst b"] by simp
qed

lemma kirq_unbind_notify_inv:
  assumes inv: "irq_inv ext s"
  shows "\<exists>r s'. kirq_unbind_notify h nh s = Some (r, s') \<and> irq_inv ext s'"
proof (cases "h = IRQ_INVALID_HANDLE \<or> nh = NOTIFY_INVALID_HANDLE \<or> kirq_find_locked h s = None")
  case True then show ?thesis using inv by (auto simp: kirq_unbind_notify_def)
next
  case False
  then obtain i where i: "kirq_find_locked h s = Some i" by blast
  obtain r where r: "find_binding nh (irq_notifications s) (i_bindings i) = Some r"
    "\<And>b. r = Some b \<Longrightarrow> b \<in> set (i_bindings i)"
    using find_binding_total [of "i_bindings i" "irq_notifications s" nh] irq_bound_alive [OF inv i] by blast
  show ?thesis
  proof (cases r)
    case None then show ?thesis using False i r inv by (simp add: kirq_unbind_notify_def)
  next
    case (Some b)
    have "irq_inv (\<lambda>n. ext n + count_list (map fst [b]) n) (set_bindings h (remove1 b (i_bindings i)) s)"
    proof (rule irq_set_bindings_inv [OF inv i])
      show "distinct (map fst (remove1 b (i_bindings i)))" by (rule distinct_fst_remove1 [OF irq_found_ok(2) [OF inv i]])
      fix n show "ext n + count_list (map fst [b]) n + count_list (map fst (remove1 b (i_bindings i))) n =
          ext n + count_list (map fst (i_bindings i)) n"
        using count_list_remove1_fst [OF r(2) [OF Some], of n] by auto
    qed
    from irq_free_bindings_inv [OF this] show ?thesis using False i r Some by (auto simp: kirq_unbind_notify_def)
  qed
qed

section \<open>Any history, interrupts included\<close>

datatype irq_op =
    QCreate bool u32
  | QDestroy u64
  | QWait u64
  | QBind u64 u64 u64 bool
  | QUnbind u64 u64
  | QInterrupt u64
  | QNotify notify_op

fun irq_ok :: "irq_op \<Rightarrow> irq_state \<Rightarrow> bool" where
  "irq_ok (QNotify op) s \<longleftrightarrow> notify_ok op [] (irq_notifications s) \<and> (case op of NAcquire h \<Rightarrow> False | _ \<Rightarrow> True)"
| "irq_ok _ s \<longleftrightarrow> True"

fun irq_exec :: "irq_op \<Rightarrow> irq_state \<Rightarrow> irq_state option" where
  "irq_exec (QCreate ok k) s = Some (snd (kirq_create ok k s))"
| "irq_exec (QDestroy h) s = map_option snd (kirq_destroy h s)"
| "irq_exec (QWait h) s = Some (snd (kirq_wait h s))"
| "irq_exec (QBind h nh bits ok) s = map_option snd (kirq_bind_notify h nh bits ok s)"
| "irq_exec (QUnbind h nh) s = map_option snd (kirq_unbind_notify h nh s)"
| "irq_exec (QInterrupt k) s = Some (kirq_handler k s)"
| "irq_exec (QNotify op) s = map_option (\<lambda>r. s\<lparr>irq_notifications := snd r\<rparr>) (notify_exec op ([], irq_notifications s))"

fun irq_run :: "irq_op list \<Rightarrow> irq_state \<Rightarrow> irq_state option" where
  "irq_run [] s = Some s"
| "irq_run (op # ops) s = (if irq_ok op s then Option.bind (irq_exec op s) (irq_run ops) else irq_run ops s)"

lemma irq_exec_inv:
  assumes "irq_inv ext s" "irq_ok op s"
  shows "\<exists>s'. irq_exec op s = Some s' \<and> irq_inv ext s'"
proof (cases op)
  case (QCreate ok k) then show ?thesis using kirq_create_inv [OF assms(1)] by simp
next
  case (QDestroy h) then show ?thesis using kirq_destroy_inv [OF assms(1), of h] by auto
next
  case (QWait h) then show ?thesis using kirq_wait_inv [OF assms(1)] by simp
next
  case (QBind h nh bits ok) then show ?thesis using kirq_bind_notify_inv [OF assms(1), of h nh bits ok] by auto
next
  case (QUnbind h nh) then show ?thesis using kirq_unbind_notify_inv [OF assms(1), of h nh] by auto
next
  case (QInterrupt k) then show ?thesis using kirq_handler_inv [OF assms(1)] by simp
next
  case (QNotify n)
  have "notify_inv (refs_of [] (\<lambda>n. ext n + irq_refs (global_irq_table s) n)) (irq_notifications s)"
    using irq_invD(6) [OF assms(1)] by simp
  from notify_exec_inv [OF this, of n] QNotify assms(2) obtain held m where
    ex: "notify_exec n ([], irq_notifications s) = Some (held, m)"
      "notify_inv (refs_of held (\<lambda>n. ext n + irq_refs (global_irq_table s) n)) m" by auto
  have "held = []" using ex(1) assms(2) QNotify by (cases n) auto
  with ex QNotify irq_inv_notif [OF assms(1), of ext m] show ?thesis by simp
qed

lemma irq_run_inv: "irq_inv ext s \<Longrightarrow> \<exists>s'. irq_run ops s = Some s' \<and> irq_inv ext s'"
proof (induction ops arbitrary: s)
  case (Cons op ops)
  then show ?case using irq_exec_inv [OF Cons.prems, of op] by (cases "irq_ok op s") fastforce+
qed simp

definition irq_boot :: irq_state where
  "irq_boot = the (kirq_init True knotify_init kportio_init)"

lemma irq_boot_inv: "irq_inv (\<lambda>_. 0) irq_boot"
proof -
  have "kirq_init True knotify_init kportio_init \<noteq> None" by code_simp
  then obtain s where s: "kirq_init True knotify_init kportio_init = Some s" by blast
  then have "global_irq_table s = []" "hwirq_table s = replicate 16 []" "irq_notifications s = knotify_init"
    by (auto simp: kirq_init_def split: prod.splits option.splits)
  then show ?thesis using knotify_init_inv by (simp add: irq_boot_def s irq_inv_def irq_refs_def)
qed

text \<open>
  Property C25.  From kirq_init, no history of creations, destructions, waits, bindings, interrupts and
  notification operations uses a freed notification object: every binding holds exactly one
  reference.  Each hardware line has at most one object, which is the only listener of its line.
\<close>

theorem irq_reachable_inv:
  "\<exists>s. irq_run ops irq_boot = Some s \<and> irq_inv (\<lambda>_. 0) s"
  by (rule irq_run_inv [OF irq_boot_inv])

section \<open>Delivery\<close>

lemma signal_ref_pending:
  "map_option pending (n_objs (knotify_signal_ref a bits m) n) =
     (if n = a then map_option (\<lambda>x. pending x OR bits) (n_objs m n) else map_option pending (n_objs m n))"
  by (cases "n_objs m n") (auto simp: knotify_signal_ref_def n_update_def)

lemma signal_bindings_pending:
  "distinct (map fst bs) \<Longrightarrow>
   map_option pending (n_objs (kipc_signal_notify_bindings_locked bs m) n) =
     map_option (\<lambda>x. pending x OR (case map_of bs n of None \<Rightarrow> 0 | Some bits \<Rightarrow> bits)) (n_objs m n)"
proof (induction bs arbitrary: m)
  case Nil
  then show ?case by (simp add: kipc_signal_notify_bindings_locked_def)
next
  case (Cons b bs)
  let ?m = "knotify_signal_ref (fst b) (snd b) m"
  have step: "kipc_signal_notify_bindings_locked (b # bs) m = kipc_signal_notify_bindings_locked bs ?m"
    by (simp add: kipc_signal_notify_bindings_locked_def)
  have IH: "map_option pending (n_objs (kipc_signal_notify_bindings_locked bs ?m) n) =
      map_option (\<lambda>x. x OR (case map_of bs n of None \<Rightarrow> 0 | Some bits \<Rightarrow> bits)) (map_option pending (n_objs ?m n))"
    using Cons by (simp add: option.map_comp comp_def)
  show ?case
  proof (cases "n = fst b")
    case True
    with Cons.prems have "map_of bs n = None" by (auto simp: map_of_eq_None_iff)
    with True show ?thesis unfolding step IH signal_ref_pending by (cases b) (simp add: option.map_comp comp_def)
  next
    case False
    then show ?thesis unfolding step IH signal_ref_pending by (cases b) (simp add: option.map_comp comp_def)
  qed
qed

lemma filter_single:
  assumes "distinct (map g xs)" "x \<in> set xs"
  shows "filter (\<lambda>y. g y = g x) xs = [x]"
  using assms
proof (induction xs)
  case (Cons y xs)
  have fresh: "g z \<noteq> g y" if "z \<in> set xs" for z
  proof
    assume "g z = g y"
    then have "g y \<in> g ` set xs" using that by (metis imageI)
    with Cons.prems(1) show False by simp
  qed
  show ?case
  proof (cases "y = x")
    case True
    have "filter (\<lambda>y. g y = g x) xs = []" using fresh True by (simp add: filter_empty_conv)
    with True show ?thesis by simp
  next
    case False
    with Cons.prems(2) have x: "x \<in> set xs" by simp
    with Cons fresh [OF x] show ?thesis by simp
  qed
qed simp

lemma sole_listener:
  assumes "irq_inv ext s" "kirq_find_locked h s = Some i"
  shows "hwirq_table s ! unat (hwirq i) = [h]"
proof -
  note I = irq_invD [OF assms(1)]
  have mem: "(h, i) \<in> set (global_irq_table s)" using assms(2) HASH_FIND_Some_in unfolding kirq_find_locked_def by metis
  have "filter (\<lambda>e. unat (hwirq (snd e)) = unat (hwirq i)) (global_irq_table s) = [(h, i)]"
    using filter_single [OF I(4) mem] by (simp add: word_unat_eq_iff)
  with I(5) [OF irq_found_ok(1) [OF assms]] show ?thesis by simp
qed

text \<open>
  Property C26.  When the line of an interrupt object fires, that object gets exactly one post, every
  notification bound to it gets exactly its bits, all bound notifications are alive, and no other
  interrupt object or notification changes.
\<close>

theorem kirq_handler_delivers:
  assumes inv: "irq_inv ext s" and ready: "irq_subsys_ready s" and h: "kirq_find_locked h s = Some i"
    and k: "unat k = unat (hwirq i)"
  shows "kirq_find_locked h (kirq_handler k s) = Some (i\<lparr>i_sem := i_sem i + 1\<rparr>) \<and>
     (\<forall>g. g \<noteq> h \<longrightarrow> kirq_find_locked g (kirq_handler k s) = kirq_find_locked g s) \<and>
     (\<forall>n bits. (n, bits) \<in> set (i_bindings i) \<longrightarrow> (\<exists>x. n_objs (irq_notifications s) n = Some x \<and>
        map_option pending (n_objs (irq_notifications (kirq_handler k s)) n) = Some (pending x OR bits))) \<and>
     (\<forall>n. n \<notin> fst ` set (i_bindings i) \<longrightarrow>
        map_option pending (n_objs (irq_notifications (kirq_handler k s)) n) = map_option pending (n_objs (irq_notifications s) n))"
proof -
  have "unat k < IRQ_COUNT" using k irq_found_ok(1) [OF inv h] by simp
  then have eq: "kirq_handler k s = kirq_deliver h s"
    using ready sole_listener [OF inv h] k by (simp add: kirq_handler_def kirq_handle_def)
  note d = irq_found_ok(2) [OF inv h]
  let ?m = "kipc_signal_notify_bindings_locked (i_bindings i) (irq_notifications s)"
  have m: "irq_notifications (kirq_deliver h s) = ?m" by (simp add: kirq_deliver_def h)
  have tbl: "kirq_find_locked g (kirq_deliver h s) =
      (if g = h then Some (i\<lparr>i_sem := i_sem i + 1\<rparr>) else kirq_find_locked g s)" for g
    using h by (simp add: kirq_deliver_def kirq_find_locked_def HASH_FIND_UPD)
  have "\<exists>x. n_objs (irq_notifications s) n = Some x \<and> map_option pending (n_objs ?m n) = Some (pending x OR bits)"
    if b: "(n, bits) \<in> set (i_bindings i)" for n bits
  proof -
    obtain x where x: "n_objs (irq_notifications s) n = Some x" using irq_bound_alive [OF inv h b] by auto
    have "map_of (i_bindings i) n = Some bits" using b d by simp
    with x signal_bindings_pending [OF d, of "irq_notifications s" n] show ?thesis by simp
  qed
  moreover have "map_option pending (n_objs ?m n) = map_option pending (n_objs (irq_notifications s) n)"
    if "n \<notin> fst ` set (i_bindings i)" for n
  proof -
    have "map_of (i_bindings i) n = None" using that by (simp add: map_of_eq_None_iff)
    then show ?thesis using signal_bindings_pending [OF d, of "irq_notifications s" n] by simp
  qed
  ultimately show ?thesis unfolding eq m tbl by auto
qed

theorem kirq_handler_delivers_witness:
  "\<exists>s. irq_run [QCreate True 9] irq_boot = Some s \<and>
     kirq_find_locked 1 (kirq_handler 9 s) = Some \<lparr>hwirq = 9, i_sem = 1, i_bindings = []\<rparr>"
proof -
  obtain s where s: "irq_run [QCreate True 9] irq_boot = Some s" "irq_inv (\<lambda>_. 0) s"
    using irq_run_inv [OF irq_boot_inv, of "[QCreate True 9]"] by blast
  have "map_option (\<lambda>s. (irq_subsys_ready s, kirq_find_locked 1 s)) (irq_run [QCreate True 9] irq_boot) =
      Some (True, Some \<lparr>hwirq = 9, i_sem = 0, i_bindings = []\<rparr>)" by code_simp
  with s(1) have r: "irq_subsys_ready s" "kirq_find_locked 1 s = Some \<lparr>hwirq = 9, i_sem = 0, i_bindings = []\<rparr>" by auto
  from kirq_handler_delivers [OF s(2) r, of 9] s(1) show ?thesis by simp
qed

lemma irq_invalid_absent:
  assumes "irq_inv ext s" "kirq_find_locked h s = Some i"
  shows "h \<noteq> IRQ_INVALID_HANDLE"
proof -
  have "h < next_irq_handle s" by (rule reg_wf_below [OF irq_invD(1) [OF assms(1)] assms(2) [unfolded kirq_find_locked_def]])
  then show ?thesis by (metis word_not_simps(3))
qed

definition irq_pics :: "irq_state \<Rightarrow> portio_state \<times> u64 \<times> u64" where
  "irq_pics s = (irq_ports s, pio_master_pic s, pio_slave_pic s)"

lemma irq_pics_deliver: "irq_pics (fold kirq_deliver hs s) = irq_pics s"
proof (induction hs arbitrary: s)
  case (Cons h hs)
  then show ?case by (simp add: kirq_deliver_def irq_pics_def split: option.split)
qed simp

lemma irq_pics_release: "irq_notify_release n s = Some s' \<Longrightarrow> irq_pics s' = irq_pics s"
  by (auto simp: irq_notify_release_def irq_pics_def)

lemma irq_pics_free: "kirq_free_notify_bindings bs s = Some s' \<Longrightarrow> irq_pics s' = irq_pics s"
  by (auto simp: kirq_free_notify_bindings_def irq_pics_def)

lemma irq_pics_upd [simp]:
  "irq_pics (set_bindings h bs s) = irq_pics s" "irq_pics (s\<lparr>irq_notifications := m\<rparr>) = irq_pics s"
  "irq_pics (s\<lparr>global_irq_table := t\<rparr>) = irq_pics s"
  by (simp_all add: irq_pics_def set_bindings_def)

lemma irq_pics_exec: "irq_exec op s = Some s' \<Longrightarrow> irq_pics s' = irq_pics s"
proof (cases op)
  case (QCreate ok k)
  then show "irq_exec op s = Some s' \<Longrightarrow> irq_pics s' = irq_pics s"
    by (auto simp: kirq_create_def kirq_insert_locked_def irq_insert_def kirq_attach_hwirq_locked_def irq_pics_def
        split: option.splits if_splits)
next
  case (QDestroy h)
  then show "irq_exec op s = Some s' \<Longrightarrow> irq_pics s' = irq_pics s"
    by (auto simp: kirq_destroy_def dest!: irq_pics_free split: option.splits if_splits)
next
  case (QWait h)
  then show "irq_exec op s = Some s' \<Longrightarrow> irq_pics s' = irq_pics s"
    by (auto simp: kirq_wait_def split: option.splits if_splits)
next
  case (QBind h nh bits ok)
  then show "irq_exec op s = Some s' \<Longrightarrow> irq_pics s' = irq_pics s"
    by (auto simp: kirq_bind_notify_def Let_def dest!: irq_pics_release split: option.splits if_splits prod.splits)
next
  case (QUnbind h nh)
  then show "irq_exec op s = Some s' \<Longrightarrow> irq_pics s' = irq_pics s"
    by (auto simp: kirq_unbind_notify_def bind_eq_Some_conv dest!: irq_pics_free split: option.splits if_splits)
next
  case (QInterrupt k)
  then show "irq_exec op s = Some s' \<Longrightarrow> irq_pics s' = irq_pics s"
    by (auto simp: kirq_handler_def kirq_handle_def irq_pics_deliver split: if_splits)
next
  case (QNotify n)
  then show "irq_exec op s = Some s' \<Longrightarrow> irq_pics s' = irq_pics s" by auto
qed

lemma irq_pics_run: "irq_run ops s = Some s' \<Longrightarrow> irq_pics s' = irq_pics s"
proof (induction ops arbitrary: s)
  case (Cons op ops)
  then show ?case using irq_pics_exec [of op s]
    by (cases "irq_ok op s") (fastforce simp: bind_eq_Some_conv)+
qed simp

text \<open>
  Property C27.  After any history from kirq_init, acknowledging a live interrupt object succeeds and
  writes the end-of-interrupt command 0x20 to the master PIC at port 0x20, and for the lines 8 to 15
  to the slave PIC at port 0xA0 first; nothing else is written.
\<close>

theorem kirq_ack_eoi:
  assumes run: "irq_run ops irq_boot = Some s" and h: "kirq_find_locked h s = Some i"
  shows "kirq_ack h s = (if unat (hwirq i) \<ge> 8 then ([outb 0x20 0xA0, outb 0x20 0x20], 0) else ([outb 0x20 0x20], 0))"
proof -
  have boot: "kportio_outb (pio_master_pic irq_boot) 0 0x20 (irq_ports irq_boot) = Some (outb 0x20 0x20)"
    "kportio_outb (pio_slave_pic irq_boot) 0 0x20 (irq_ports irq_boot) = Some (outb 0x20 0xA0)" by code_simp+
  have pics: "irq_ports s = irq_ports irq_boot" "pio_master_pic s = pio_master_pic irq_boot"
    "pio_slave_pic s = pio_slave_pic irq_boot" using irq_pics_run [OF run] by (simp_all add: irq_pics_def)
  have "irq_inv (\<lambda>_. 0) s" using irq_run_inv [OF irq_boot_inv, of ops] run by simp
  from irq_invalid_absent [OF this h] h show ?thesis by (simp add: kirq_ack_def pic_eoi_def pics boot)
qed

theorem kirq_ack_eoi_witness:
  "\<exists>s. irq_run [QCreate True 9] irq_boot = Some s \<and> kirq_ack 1 s = ([outb 0x20 0xA0, outb 0x20 0x20], 0)"
proof -
  have "map_option (kirq_find_locked 1) (irq_run [QCreate True 9] irq_boot) =
      Some (Some \<lparr>hwirq = 9, i_sem = 0, i_bindings = []\<rparr>)" by code_simp
  then obtain s where s: "irq_run [QCreate True 9] irq_boot = Some s"
    "kirq_find_locked 1 s = Some \<lparr>hwirq = 9, i_sem = 0, i_bindings = []\<rparr>" by auto
  from kirq_ack_eoi [OF s] s(1) show ?thesis by simp
qed

end
