(* ===== verification/Kpmem.thy ===== *)
theory Kpmem
  imports Objects "HOL-Library.Monad_Syntax"
begin

text \<open>
  Physical memory objects (src/kernel/subsystems/kpmem.c).  Records form a graph: a derived or merged
  record holds one reference to each distinct parent, the registry holds one to each registered
  record.  Records live in an explicit store.  \<open>None\<close> is a panic (reference underflow), a use of a
  freed record, or a drain loop that does not end.  The page allocator is outside this theory: the
  base that phys_alloc_pages returned is an argument, and the page runs handed to phys_free_pages
  are part of the result of kpmem_destroy, in order.
\<close>

section \<open>State and operations\<close>

record pmem_record_t =
  p_handle :: u64
  phys_base :: u64
  p_length :: u64
  owns_pages :: bool
  refcount :: nat
  parents :: "addr list"

type_synonym pmem_heap = "addr \<Rightarrow> pmem_record_t option"

record pmem_state =
  recs :: pmem_heap
  global_pmem_table :: "(u64, addr) uthash"
  next_pmem_handle :: u64

abbreviation PMEM_INVALID_HANDLE :: u64 where "PMEM_INVALID_HANDLE \<equiv> UINT64_MAX"
abbreviation SIZE_MAX :: int where "SIZE_MAX \<equiv> 18446744073709551615"

definition kpmem_get_end :: "u64 \<Rightarrow> u64 \<Rightarrow> u64 option" where
  "kpmem_get_end base len = (if len > UINT64_MAX - base then None else Some (base + len))"

definition kpmem_find_locked :: "u64 \<Rightarrow> pmem_state \<Rightarrow> addr option" where
  "kpmem_find_locked h s = HASH_FIND h (global_pmem_table s)"

definition kpmem_insert_locked :: "addr \<Rightarrow> pmem_record_t \<Rightarrow> pmem_state \<Rightarrow> (u64 \<times> pmem_state) option" where
  \<comment> \<open>None: no handle left; the record that was allocated at the address is published otherwise\<close>
  "kpmem_insert_locked a r s =
     (if next_pmem_handle s = PMEM_INVALID_HANDLE then None
      else Some (next_pmem_handle s,
        s\<lparr>recs := (recs s)(a \<mapsto> r\<lparr>p_handle := next_pmem_handle s\<rparr>),
          global_pmem_table := HASH_ADD (next_pmem_handle s) a (global_pmem_table s),
          next_pmem_handle := next_pmem_handle s + 1\<rparr>))"

definition kpmem_init :: pmem_state where
  "kpmem_init = \<lparr>recs = (\<lambda>_. None), global_pmem_table = [], next_pmem_handle = 1\<rparr>"

definition kpmem_get :: "u64 \<Rightarrow> pmem_state \<Rightarrow> (u64 \<times> u64 \<times> u64 \<times> bool) option option" where
  \<comment> \<open>outer None: read of a freed record; inner None: the call fails\<close>
  "kpmem_get h s =
     (if h = PMEM_INVALID_HANDLE then Some None
      else case kpmem_find_locked h s of
        None \<Rightarrow> Some None
      | Some a \<Rightarrow> map_option (\<lambda>r. Some (p_handle r, phys_base r, p_length r, owns_pages r)) (recs s a))"

definition blank_record :: pmem_record_t where
  "blank_record = \<lparr>p_handle = 0, phys_base = 0, p_length = 0, owns_pages = False, refcount = 1, parents = []\<rparr>"

definition kpmem_create_internal :: "addr option \<Rightarrow> u64 \<Rightarrow> u64 \<Rightarrow> bool \<Rightarrow> pmem_state \<Rightarrow> u64 option \<times> pmem_state" where
  "kpmem_create_internal mem base len owns s =
     (if kpmem_get_end base len = None then (None, s)
      else if owns \<and> (len = 0 \<or> base mod PAGE_SIZE \<noteq> 0 \<or> len mod PAGE_SIZE \<noteq> 0) then (None, s)
      else case mem of
        None \<Rightarrow> (None, s)
      | Some a \<Rightarrow>
          (case kpmem_insert_locked a (blank_record\<lparr>phys_base := base, p_length := len, owns_pages := owns\<rparr>) s of
             None \<Rightarrow> (None, s)
           | Some (h, s') \<Rightarrow> (Some h, s')))"

definition kpmem_create :: "addr option \<Rightarrow> u64 \<Rightarrow> u64 \<Rightarrow> pmem_state \<Rightarrow> u64 option \<times> pmem_state" where
  "kpmem_create mem base len s = kpmem_create_internal mem base len False s"

text \<open>
  kpmem_alloc_owned_pages: the result is the handle with the rounded length, or the run of pages
  that is given back when the record cannot be created.
\<close>

definition kpmem_alloc_owned_pages ::
  "addr option \<Rightarrow> (nat \<Rightarrow> u64 option) \<Rightarrow> u64 \<Rightarrow> pmem_state \<Rightarrow> (u64 \<times> u64) option \<times> (u64 \<times> nat) list \<times> pmem_state" where
  "kpmem_alloc_owned_pages mem phys_alloc_pages requested_len s =
     (if requested_len = 0 \<or> requested_len > UINT64_MAX - (PAGE_SIZE - 1) then (None, [], s)
      else
        let rounded_len = (requested_len + PAGE_SIZE - 1) AND NOT (PAGE_SIZE - 1);
            page_count = unat (rounded_len div PAGE_SIZE) in
        case phys_alloc_pages page_count of
          None \<Rightarrow> (None, [], s)
        | Some base \<Rightarrow>
            (case kpmem_create_internal mem base rounded_len True s of
               (None, s) \<Rightarrow> (None, [(base, page_count)], s)
             | (Some h, s) \<Rightarrow> (Some (h, rounded_len), [], s)))"

definition r_update :: "addr \<Rightarrow> (pmem_record_t \<Rightarrow> pmem_record_t) \<Rightarrow> pmem_state \<Rightarrow> pmem_state" where
  "r_update a f s = s\<lparr>recs := (recs s)(a := map_option f (recs s a))\<rparr>"

definition kpmem_retain :: "addr \<Rightarrow> pmem_state \<Rightarrow> pmem_state" where
  "kpmem_retain a s = r_update a (\<lambda>r. r\<lparr>refcount := refcount r + 1\<rparr>) s"

definition kpmem_derive :: "addr option \<Rightarrow> u64 \<Rightarrow> u64 \<Rightarrow> u64 \<Rightarrow> pmem_state \<Rightarrow> (u64 option \<times> pmem_state) option" where
  \<comment> \<open>the counter of the source is read back when no handle is left, so the state is unchanged\<close>
  "kpmem_derive mem source new_base new_len s =
     (case kpmem_get_end new_base new_len of
        None \<Rightarrow> Some (None, s)
      | Some new_end \<Rightarrow>
          (case mem of
             None \<Rightarrow> Some (None, s)
           | Some d \<Rightarrow>
               (case kpmem_find_locked source s of
                  None \<Rightarrow> Some (None, s)
                | Some a \<Rightarrow>
                    do { p \<leftarrow> recs s a;
                         case kpmem_get_end (phys_base p) (p_length p) of
                           None \<Rightarrow> Some (None, s)
                         | Some source_end \<Rightarrow>
                             if new_base < phys_base p \<or> new_end > source_end \<or> int (refcount p) = SIZE_MAX then Some (None, s)
                             else case kpmem_insert_locked d
                                 (blank_record\<lparr>phys_base := new_base, p_length := new_len, parents := [a]\<rparr>)
                                 (kpmem_retain a s) of
                               None \<Rightarrow> Some (None, s)
                             | Some (h, s') \<Rightarrow> Some (Some h, s') })))"

definition merged_range :: "pmem_record_t \<Rightarrow> pmem_record_t \<Rightarrow> u64 \<Rightarrow> u64 \<Rightarrow> (u64 \<times> u64) option" where
  "merged_range pa pb a_end b_end =
     (if p_length pa = 0 \<and> p_length pb = 0 then Some (if phys_base pa < phys_base pb then phys_base pa else phys_base pb, 0)
      else if p_length pa = 0 then Some (phys_base pb, p_length pb)
      else if p_length pb = 0 then Some (phys_base pa, p_length pa)
      else
        let (lo, lo_end, hi, hi_end) = (if phys_base pa \<le> phys_base pb then (pa, a_end, pb, b_end) else (pb, b_end, pa, a_end)) in
        if phys_base hi > lo_end then None
        else
          let new_base = phys_base lo; new_end = (if lo_end > hi_end then lo_end else hi_end) in
          if new_end - new_base > UINT64_MAX then None else Some (new_base, new_end - new_base))"

definition kpmem_merge :: "addr option \<Rightarrow> u64 \<Rightarrow> u64 \<Rightarrow> pmem_state \<Rightarrow> (u64 option \<times> pmem_state) option" where
  "kpmem_merge mem ha hb s =
     (case (mem, kpmem_find_locked ha s, kpmem_find_locked hb s) of
        (Some d, Some a, Some b) \<Rightarrow>
          do { pa \<leftarrow> recs s a; pb \<leftarrow> recs s b;
               case (kpmem_get_end (phys_base pa) (p_length pa), kpmem_get_end (phys_base pb) (p_length pb)) of
                 (Some a_end, Some b_end) \<Rightarrow>
                   (case merged_range pa pb a_end b_end of
                      None \<Rightarrow> Some (None, s)
                    | Some (base, len) \<Rightarrow>
                        if int (refcount pa) = SIZE_MAX \<or> int (refcount pb) = SIZE_MAX then Some (None, s)
                        else
                          let ps = (if b \<noteq> a then [a, b] else [a]) in
                          case kpmem_insert_locked d (blank_record\<lparr>phys_base := base, p_length := len, parents := ps\<rparr>)
                              (fold kpmem_retain ps s) of
                            None \<Rightarrow> Some (None, s)
                          | Some (h, s') \<Rightarrow> Some (Some h, s'))
               | _ \<Rightarrow> Some (None, s) }
      | _ \<Rightarrow> Some (None, s))"

definition kpmem_release_locked :: "addr \<Rightarrow> pmem_heap \<times> addr list \<Rightarrow> (pmem_heap \<times> addr list) option" where
  "kpmem_release_locked a st =
     (case st of (R, pending) \<Rightarrow>
        do { r \<leftarrow> R a;
             if refcount r = 0 then None
             else let R' = R(a \<mapsto> r\<lparr>refcount := refcount r - 1\<rparr>) in
               Some (R', if refcount r - 1 = 0 then a # pending else pending) })"

primrec release_parents :: "addr list \<Rightarrow> pmem_heap \<times> addr list \<Rightarrow> (pmem_heap \<times> addr list) option" where
  "release_parents [] st = Some st"
| "release_parents (p # ps) st = do { st \<leftarrow> kpmem_release_locked p st; release_parents ps st }"

partial_function (option) kpmem_drain :: "pmem_heap \<Rightarrow> addr list \<Rightarrow> addr list \<Rightarrow> (pmem_heap \<times> addr list) option" where
  "kpmem_drain R pending dead =
     (case pending of
        [] \<Rightarrow> Some (R, dead)
      | a # rest \<Rightarrow>
          do { r \<leftarrow> R a;
               st \<leftarrow> release_parents (parents r) (R, rest);
               kpmem_drain (fst st) (snd st) (a # dead) })"

declare kpmem_drain.simps [code]

definition freed_runs :: "pmem_heap \<Rightarrow> addr list \<Rightarrow> (u64 \<times> nat) list" where
  "freed_runs R dead =
     map (\<lambda>a. (phys_base (the (R a)), unat (p_length (the (R a)) div PAGE_SIZE)))
       (filter (\<lambda>a. owns_pages (the (R a))) dead)"

definition kpmem_destroy :: "u64 \<Rightarrow> pmem_state \<Rightarrow> ((u64 \<times> nat) list option \<times> pmem_state) option" where
  \<comment> \<open>the runs of pages given back, or None when the handle is not registered\<close>
  "kpmem_destroy h s =
     (case kpmem_find_locked h s of
        None \<Rightarrow> Some (None, s)
      | Some a \<Rightarrow>
          do { (R, pending) \<leftarrow> kpmem_release_locked a (recs s, []);
               (R, dead) \<leftarrow> kpmem_drain R pending [];
               Some (Some (freed_runs R dead),
                 s\<lparr>recs := (\<lambda>b. if b \<in> set dead then None else R b),
                   global_pmem_table := HASH_DEL h (global_pmem_table s)\<rparr>) })"

section \<open>Reference counts of the record graph\<close>

definition kids :: "pmem_heap \<Rightarrow> addr set \<Rightarrow> addr \<Rightarrow> nat" where
  "kids R D x = (\<Sum>b \<in> dom R - D. count_list (parents (the (R b))) x)"

text \<open>
  \<open>debt\<close> are references that were given up but not yet subtracted.  A record has count zero exactly
  when it waits in \<open>pending\<close> or was put on \<open>dead\<close>; dead records no longer count as children.
\<close>

definition drain_inv :: "(u64, addr) uthash \<Rightarrow> pmem_heap \<Rightarrow> addr list \<Rightarrow> addr list \<Rightarrow> addr list \<Rightarrow> bool" where
  "drain_inv t R pending dead debt \<longleftrightarrow>
     finite (dom R) \<and> distinct (pending @ dead) \<and> set (pending @ dead) \<subseteq> dom R \<and> set debt \<subseteq> dom R \<and>
     (\<forall>x r. R x = Some r \<longrightarrow> set (parents r) \<subseteq> dom R) \<and>
     (\<forall>x r. R x = Some r \<longrightarrow>
        refcount r = of_bool (registered x t) + kids R (set dead) x + count_list debt x \<and>
        (refcount r = 0 \<longleftrightarrow> x \<in> set pending \<union> set dead))"

lemma drain_invD:
  assumes "drain_inv t R pending dead debt"
  shows "finite (dom R)" "distinct (pending @ dead)" "set (pending @ dead) \<subseteq> dom R" "set debt \<subseteq> dom R"
    "R x = Some r \<Longrightarrow> set (parents r) \<subseteq> dom R"
    "R x = Some r \<Longrightarrow> refcount r = of_bool (registered x t) + kids R (set dead) x + count_list debt x"
    "R x = Some r \<Longrightarrow> refcount r = 0 \<longleftrightarrow> x \<in> set pending \<union> set dead"
  using assms unfolding drain_inv_def by blast+

lemma drain_invI:
  assumes "finite (dom R)" "distinct (pending @ dead)" "set (pending @ dead) \<subseteq> dom R" "set debt \<subseteq> dom R"
    "\<And>x r. R x = Some r \<Longrightarrow> set (parents r) \<subseteq> dom R"
    "\<And>x r. R x = Some r \<Longrightarrow> refcount r = of_bool (registered x t) + kids R (set dead) x + count_list debt x"
    "\<And>x r. R x = Some r \<Longrightarrow> refcount r = 0 \<longleftrightarrow> x \<in> set pending \<union> set dead"
  shows "drain_inv t R pending dead debt"
  unfolding drain_inv_def using assms by blast

text \<open>Heaps that differ in reference counts only.\<close>

definition shape :: "pmem_heap \<Rightarrow> addr \<Rightarrow> pmem_record_t option" where
  "shape R b = map_option (\<lambda>r. r\<lparr>refcount := 0\<rparr>) (R b)"

lemma shape_dom: "shape R' = shape R \<Longrightarrow> dom R' = dom R"
  unfolding dom_def shape_def by (metis option.map_disc_iff)

lemma shape_parents:
  assumes "shape R' = shape R"
  shows "parents (the (R' b)) = parents (the (R b))"
proof (cases "R b")
  case None
  with fun_cong [OF assms, of b] show ?thesis by (simp add: shape_def)
next
  case (Some r)
  with fun_cong [OF assms, of b] obtain r' where r': "R' b = Some r'" "r'\<lparr>refcount := 0\<rparr> = r\<lparr>refcount := 0\<rparr>"
    by (auto simp: shape_def)
  from arg_cong [OF r'(2), of parents] Some r'(1) show ?thesis by simp
qed

lemma shape_kids:
  assumes "shape R' = shape R"
  shows "kids R' D x = kids R D x"
  unfolding kids_def shape_dom [OF assms] shape_parents [OF assms] by (rule refl)

lemma shape_set_count: "R a = Some r \<Longrightarrow> shape (R(a \<mapsto> r\<lparr>refcount := n\<rparr>)) = shape R"
  by (auto simp: shape_def fun_eq_iff)

lemma release_locked_inv:
  assumes inv: "drain_inv t R pending dead (x # debt)"
  shows "\<exists>R' pending'. kpmem_release_locked x (R, pending) = Some (R', pending') \<and>
           drain_inv t R' pending' dead debt \<and> shape R' = shape R"
proof -
  note D = drain_invD [OF inv]
  obtain r where r: "R x = Some r" using D(4) by auto
  have pos: "0 < refcount r" using D(6) [OF r] by simp
  let ?R = "R(x \<mapsto> r\<lparr>refcount := refcount r - 1\<rparr>)"
  let ?p = "if refcount r - 1 = 0 then x # pending else pending"
  have sh: "shape ?R = shape R" using r by (rule shape_set_count)
  have dom: "dom ?R = dom R" by (rule shape_dom [OF sh])
  have x: "x \<notin> set pending \<union> set dead" using D(7) [OF r] pos by simp
  have "drain_inv t ?R ?p dead debt"
  proof (rule drain_invI)
    show "finite (dom ?R)" using D(1) unfolding dom .
    show "distinct (?p @ dead)" using D(2) x by auto
    show "set (?p @ dead) \<subseteq> dom ?R" unfolding dom using D(3) r by auto
    show "set debt \<subseteq> dom ?R" unfolding dom using D(4) by auto
    fix y q assume q: "?R y = Some q"
    show "set (parents q) \<subseteq> dom ?R" unfolding dom using q D(5) [of y] D(5) [OF r] by (auto split: if_splits)
    show "refcount q = of_bool (registered y t) + kids ?R (set dead) y + count_list debt y"
      unfolding shape_kids [OF sh] using q D(6) [of y] D(6) [OF r] by (cases "y = x") auto
    show "refcount q = 0 \<longleftrightarrow> y \<in> set ?p \<union> set dead"
      using q D(7) [of y] D(7) [OF r] x pos by (cases "y = x") auto
  qed
  with r pos sh show ?thesis by (simp add: kpmem_release_locked_def)
qed

lemma release_parents_inv:
  assumes "drain_inv t R pending dead ps"
  shows "\<exists>R' pending'. release_parents ps (R, pending) = Some (R', pending') \<and>
           drain_inv t R' pending' dead [] \<and> shape R' = shape R"
  using assms
proof (induction ps arbitrary: R pending)
  case (Cons p ps)
  from release_locked_inv [OF Cons.prems] obtain R1 p1 where
    1: "kpmem_release_locked p (R, pending) = Some (R1, p1)" "drain_inv t R1 p1 dead ps" "shape R1 = shape R" by blast
  from Cons.IH [OF 1(2)] 1 show ?case by auto
qed auto

lemma kids_insert:
  assumes "finite (dom R)" "R a = Some r" "a \<notin> D"
  shows "kids R D x = count_list (parents r) x + kids R (insert a D) x"
proof -
  have "dom R - insert a D = (dom R - D) - {a}" "a \<in> dom R - D" using assms by auto
  then show ?thesis 
    unfolding kids_def using sum.remove [of "dom R - D" a "\<lambda>b. count_list (parents (the (R b))) x"] assms by simp
qed

lemma drain_pop_inv:
  assumes inv: "drain_inv t R (a # rest) dead []" and r: "R a = Some r"
  shows "drain_inv t R rest (a # dead) (parents r)"
proof (rule drain_invI)
  note D = drain_invD [OF inv]
  show "finite (dom R)" "distinct (rest @ a # dead)" "set (rest @ a # dead) \<subseteq> dom R" using D(1-3) by auto
  show "set (parents r) \<subseteq> dom R" by (rule D(5) [OF r])
  fix x q assume q: "R x = Some q"
  show "set (parents q) \<subseteq> dom R" by (rule D(5) [OF q])
  have "a \<notin> set dead" using D(2) by simp
  from kids_insert [OF D(1) r this, of x] D(6) [OF q]
  show "refcount q = of_bool (registered x t) + kids R (set (a # dead)) x + count_list (parents r) x" by simp
  show "refcount q = 0 \<longleftrightarrow> x \<in> set rest \<union> set (a # dead)" using D(7) [OF q] by auto
qed

lemma dead_card: "drain_inv t R pending dead debt \<Longrightarrow> length pending + length dead \<le> card (dom R)"
  using card_mono [of "dom R" "set (pending @ dead)"] drain_invD(1-3) [of t R pending dead debt]
  by (metis distinct_card length_append)

lemma kpmem_drain_inv:
  assumes "drain_inv t R pending dead []"
  shows "\<exists>R' dead'. kpmem_drain R pending dead = Some (R', dead') \<and> drain_inv t R' [] dead' [] \<and> shape R' = shape R"
  using assms
proof (induction "card (dom R) - length dead" arbitrary: R pending dead rule: less_induct)
  case less
  show ?case
  proof (cases pending)
    case Nil
    then show ?thesis using less.prems by (subst kpmem_drain.simps) auto
  next
    case (Cons a rest)
    note inv = less.prems [unfolded Cons]
    obtain r where r: "R a = Some r" using drain_invD(3) [OF inv] by auto
    from release_parents_inv [OF drain_pop_inv [OF inv r]] obtain R1 p1 where
      1: "release_parents (parents r) (R, rest) = Some (R1, p1)" "drain_inv t R1 p1 (a # dead) []" "shape R1 = shape R"
      by blast
    have dom: "dom R1 = dom R" by (rule shape_dom [OF 1(3)])
    have "card (dom R1) - length (a # dead) < card (dom R) - length dead"
      unfolding dom using dead_card [OF inv] by simp
    from less.hyps [OF this 1(2)] 1(1,3) r Cons show ?thesis by (subst kpmem_drain.simps) auto
  qed
qed

section \<open>The invariant of the subsystem\<close>

definition prange :: "pmem_record_t \<Rightarrow> nat set" where
  "prange r = {unat (phys_base r) ..< unat (phys_base r) + unat (p_length r)}"

definition rec_ok :: "pmem_heap \<Rightarrow> u64 \<Rightarrow> pmem_record_t \<Rightarrow> bool" where
  "rec_ok R n r \<longleftrightarrow>
     length (parents r) \<le> 2 \<and> distinct (parents r) \<and> p_handle r < n \<and>
     kpmem_get_end (phys_base r) (p_length r) \<noteq> None \<and>
     (owns_pages r \<longrightarrow> parents r = [] \<and> p_length r \<noteq> 0 \<and> phys_base r mod PAGE_SIZE = 0 \<and> p_length r mod PAGE_SIZE = 0) \<and>
     (\<forall>p \<in> set (parents r). \<exists>q. R p = Some q \<and> p_handle q < p_handle r) \<and>
     (parents r \<noteq> [] \<longrightarrow> prange r \<subseteq> (\<Union>p \<in> set (parents r). prange (the (R p))))"

definition pmem_inv :: "pmem_state \<Rightarrow> bool" where
  "pmem_inv s \<longleftrightarrow>
     reg_wf (global_pmem_table s) (next_pmem_handle s) \<and> distinct (map snd (global_pmem_table s)) \<and>
     (\<forall>h a. (h, a) \<in> set (global_pmem_table s) \<longrightarrow> (\<exists>r. recs s a = Some r \<and> p_handle r = h)) \<and>
     drain_inv (global_pmem_table s) (recs s) [] [] [] \<and>
     (\<forall>a r. recs s a = Some r \<longrightarrow> rec_ok (recs s) (next_pmem_handle s) r)"

lemma pmem_invD:
  assumes "pmem_inv s"
  shows "reg_wf (global_pmem_table s) (next_pmem_handle s)" "distinct (map snd (global_pmem_table s))"
    "(h, a) \<in> set (global_pmem_table s) \<Longrightarrow> \<exists>r. recs s a = Some r \<and> p_handle r = h"
    "drain_inv (global_pmem_table s) (recs s) [] [] []"
    "recs s a = Some r \<Longrightarrow> rec_ok (recs s) (next_pmem_handle s) r"
  using assms unfolding pmem_inv_def by blast+

lemma pmem_invI:
  assumes "reg_wf (global_pmem_table s) (next_pmem_handle s)" "distinct (map snd (global_pmem_table s))"
    "\<And>h a. (h, a) \<in> set (global_pmem_table s) \<Longrightarrow> \<exists>r. recs s a = Some r \<and> p_handle r = h"
    "drain_inv (global_pmem_table s) (recs s) [] [] []"
    "\<And>a r. recs s a = Some r \<Longrightarrow> rec_ok (recs s) (next_pmem_handle s) r"
  shows "pmem_inv s"
  unfolding pmem_inv_def using assms by blast

lemma pmem_inv_live:
  assumes "pmem_inv s" "kpmem_find_locked h s = Some a"
  shows "(h, a) \<in> set (global_pmem_table s)" "\<exists>r. recs s a = Some r \<and> p_handle r = h" "registered a (global_pmem_table s)"
    "h \<noteq> PMEM_INVALID_HANDLE"
proof -
  show mem: "(h, a) \<in> set (global_pmem_table s)" using assms(2) HASH_FIND_Some_in unfolding kpmem_find_locked_def by metis
  show "\<exists>r. recs s a = Some r \<and> p_handle r = h" using pmem_invD(3) [OF assms(1) mem] .
  show "registered a (global_pmem_table s)" using mem unfolding registered_iff by blast
  show "h \<noteq> PMEM_INVALID_HANDLE"
    using reg_wf_below [OF pmem_invD(1) [OF assms(1)]] assms(2) unfolding kpmem_find_locked_def by fastforce
qed

lemma shape_Some:
  assumes "shape R' = shape R" "R' b = Some r'"
  obtains r where "R b = Some r" "r' = r\<lparr>refcount := refcount r'\<rparr>" "p_handle r' = p_handle r" "parents r' = parents r"
    "prange r' = prange r"
proof -
  from fun_cong [OF assms(1), of b] assms(2) obtain r where r: "R b = Some r" "r'\<lparr>refcount := 0\<rparr> = r\<lparr>refcount := 0\<rparr>"
    by (cases "R b") (auto simp: shape_def)
  then have "r' = r\<lparr>refcount := refcount r'\<rparr>" by (cases r; cases r') simp
  moreover from arg_cong [OF r(2), of p_handle] arg_cong [OF r(2), of parents]
  have "p_handle r' = p_handle r" "parents r' = parents r" by simp_all
  moreover from arg_cong [OF r(2), of phys_base] arg_cong [OF r(2), of p_length] have "prange r' = prange r"
    by (simp add: prange_def)
  ultimately show ?thesis using that r(1) by blast
qed

lemma rec_ok_count [simp]: "rec_ok R n (r\<lparr>refcount := c\<rparr>) = rec_ok R n r"
  by (simp add: rec_ok_def prange_def)

lemma prange_count [simp]: "prange (r\<lparr>refcount := c\<rparr>) = prange r" "prange (r\<lparr>p_handle := h\<rparr>) = prange r"
  by (simp_all add: prange_def)

definition same_parents :: "pmem_heap \<Rightarrow> pmem_heap \<Rightarrow> addr \<Rightarrow> bool" where
  "same_parents R R' p \<longleftrightarrow> (case (R p, R' p) of
     (Some q, Some q') \<Rightarrow> p_handle q' = p_handle q \<and> prange q' = prange q | (None, _) \<Rightarrow> True | _ \<Rightarrow> False)"

lemma same_parents_Some:
  assumes "same_parents R R' p" "R p = Some q"
  obtains q' where "R' p = Some q'" "p_handle q' = p_handle q" "prange q' = prange q"
  using assms by (cases "R' p") (auto simp: same_parents_def)

lemma rec_ok_heap:
  assumes ok: "rec_ok R n r" and n: "n \<le> n'" and same: "\<And>p. p \<in> set (parents r) \<Longrightarrow> same_parents R R' p"
  shows "rec_ok R' n' r"
proof -
  have p: "prange (the (R' p)) = prange (the (R p)) \<and> (\<exists>q. R' p = Some q \<and> p_handle q < p_handle r)"
    if p: "p \<in> set (parents r)" for p
  proof -
    from ok p obtain q where q: "R p = Some q" "p_handle q < p_handle r" unfolding rec_ok_def by blast
    obtain q' where "R' p = Some q'" "p_handle q' = p_handle q" "prange q' = prange q"
      by (rule same_parents_Some [OF same [OF p] q(1)])
    with q show ?thesis by simp
  qed
  have 1: "(\<Union>p \<in> set (parents r). prange (the (R' p))) = (\<Union>p \<in> set (parents r). prange (the (R p)))"
    by (rule SUP_cong [OF refl]) (rule conjunct1 [OF p])
  have 2: "\<forall>p \<in> set (parents r). \<exists>q. R' p = Some q \<and> p_handle q < p_handle r"
    by (rule ballI) (rule conjunct2 [OF p])
  have "p_handle r < n" using ok unfolding rec_ok_def by simp
  then have "p_handle r < n'" using n by (rule order.strict_trans2)
  with ok 1 2 show ?thesis unfolding rec_ok_def by (elim conjE, intro conjI) simp_all
qed

text \<open>Retaining records.\<close>

lemma fold_retain:
  "set ps \<subseteq> dom (recs s) \<Longrightarrow> shape (recs (fold kpmem_retain ps s)) = shape (recs s) \<and>
     (\<forall>x r. recs (fold kpmem_retain ps s) x = Some r \<longrightarrow>
        (\<exists>q. recs s x = Some q \<and> refcount r = refcount q + count_list ps x)) \<and>
     global_pmem_table (fold kpmem_retain ps s) = global_pmem_table s \<and>
     next_pmem_handle (fold kpmem_retain ps s) = next_pmem_handle s"
proof (induction ps arbitrary: s)
  case (Cons p ps)
  let ?s = "kpmem_retain p s"
  obtain q where q: "recs s p = Some q" using Cons.prems by auto
  have eq: "recs ?s = (recs s)(p \<mapsto> q\<lparr>refcount := refcount q + 1\<rparr>)" by (simp add: kpmem_retain_def r_update_def q)
  have sh: "shape (recs ?s) = shape (recs s)" unfolding eq using q by (rule shape_set_count)
  have "set ps \<subseteq> dom (recs ?s)" using Cons.prems shape_dom [OF sh] by auto
  note IH = Cons.IH [OF this]
  have "\<exists>q. recs s x = Some q \<and> refcount r = refcount q + count_list (p # ps) x"
    if "recs (fold kpmem_retain ps ?s) x = Some r" for x r
  proof -
    from IH that obtain q1 where "recs ?s x = Some q1" "refcount r = refcount q1 + count_list ps x" by blast
    then show ?thesis using q by (cases "x = p") (auto simp: eq)
  qed
  moreover have "global_pmem_table ?s = global_pmem_table s" "next_pmem_handle ?s = next_pmem_handle s"
    by (simp_all add: kpmem_retain_def r_update_def)
  ultimately show ?case using IH sh by simp
qed simp

text \<open>Publishing a record whose parents were retained.\<close>

lemma kids_new:
  assumes "finite (dom R)" "R d = None" "dom R' = dom R" "\<And>b. parents (the (R' b)) = parents (the (R b))"
  shows "kids (R'(d \<mapsto> r)) {} x = count_list (parents r) x + kids R {} x"
proof -
  have "kids (R'(d \<mapsto> r)) {} x = (\<Sum>b \<in> insert d (dom R). count_list (parents (the ((R'(d \<mapsto> r)) b))) x)"
    by (simp add: kids_def assms(3))
  also have "\<dots> = count_list (parents r) x + (\<Sum>b \<in> dom R. count_list (parents (the ((R'(d \<mapsto> r)) b))) x)"
    using assms(1,2) by (simp add: domIff)
  also have "(\<Sum>b \<in> dom R. count_list (parents (the ((R'(d \<mapsto> r)) b))) x) = kids R {} x"
    unfolding kids_def by (rule sum.cong) (use assms(2,4) in auto)
  finally show ?thesis .
qed

lemma kids_fresh: "drain_inv t R [] [] [] \<Longrightarrow> R d = None \<Longrightarrow> kids R {} d = 0"
  unfolding kids_def using drain_invD(5) [of t R "[]" "[]" "[]"]
  by (intro sum.neutral ballI) (force simp: count_list_0_iff domIff)

lemma insert_drain_inv:
  assumes inv: "drain_inv t R [] [] []" and d: "R d = None" "\<not> registered d t" and ps: "set (parents r) \<subseteq> dom R" "refcount r = 1"
    and R': "shape R' = shape R" "\<And>x q. R' x = Some q \<Longrightarrow> \<exists>q0. R x = Some q0 \<and> refcount q = refcount q0 + count_list (parents r) x"
  shows "drain_inv (HASH_ADD h d t) (R'(d \<mapsto> r)) [] [] []"
proof (rule drain_invI)
  note D = drain_invD [OF inv]
  have dom: "dom R' = dom R" by (rule shape_dom [OF R'(1)])
  show "finite (dom (R'(d \<mapsto> r)))" using D(1) dom by simp
  fix x q assume q: "(R'(d \<mapsto> r)) x = Some q"
  note new = kids_new [OF D(1) d(1) dom shape_parents [OF R'(1)], of r x]
  have d0: "count_list (parents r) d = 0" using ps(1) d(1) by (auto simp: count_list_0_iff)
  show "set (parents q) \<subseteq> dom (R'(d \<mapsto> r))"
  proof (cases "x = d")
    case False
    with q have x: "R' x = Some q" by simp
    obtain q0 where "R x = Some q0" "parents q = parents q0" by (rule shape_Some [OF R'(1) x])
    with D(5) [OF \<open>R x = Some q0\<close>] dom show ?thesis by auto
  qed (use q ps(1) dom in auto)
  show "refcount q = of_bool (registered x (HASH_ADD h d t)) + kids (R'(d \<mapsto> r)) (set []) x + count_list [] x"
  proof (cases "x = d")
    case True
    with q new kids_fresh [OF inv d(1)] d0 ps(2) show ?thesis by (simp add: registered_ADD)
  next
    case False
    with q R'(2) obtain q0 where "R x = Some q0" "refcount q = refcount q0 + count_list (parents r) x" by auto
    with D(6) [OF this(1)] new False show ?thesis by (simp add: registered_ADD)
  qed
  show "refcount q = 0 \<longleftrightarrow> x \<in> set [] \<union> set []"
  proof (cases "x = d")
    case True with q ps(2) show ?thesis by simp
  next
    case False
    with q R'(2) obtain q0 where "R x = Some q0" "refcount q = refcount q0 + count_list (parents r) x" by auto
    with D(7) [OF this(1)] show ?thesis by simp
  qed
qed (simp_all add: assms)

lemma kpmem_insert_Some:
  assumes "kpmem_insert_locked d r s = Some (h, s')"
  shows "next_pmem_handle s \<noteq> UINT64_MAX" "h = next_pmem_handle s"
    "recs s' = (recs s)(d \<mapsto> r\<lparr>p_handle := next_pmem_handle s\<rparr>)"
    "global_pmem_table s' = HASH_ADD (next_pmem_handle s) d (global_pmem_table s)"
    "next_pmem_handle s' = next_pmem_handle s + 1"
  using assms by (auto simp: kpmem_insert_locked_def split: if_splits)

lemma kpmem_insert_inv:
  assumes inv: "pmem_inv s" and d: "recs s d = None" and ps: "set (parents r) \<subseteq> dom (recs s)" "refcount r = 1"
    and ins: "kpmem_insert_locked d r (fold kpmem_retain (parents r) s) = Some (h, s')"
    and ok: "rec_ok (recs s) (next_pmem_handle s + 1) (r\<lparr>p_handle := next_pmem_handle s\<rparr>)"
  shows "pmem_inv s' \<and> h = next_pmem_handle s"
proof -
  let ?s1 = "fold kpmem_retain (parents r) s"
  note F = fold_retain [OF ps(1)]
  have F1: "shape (recs ?s1) = shape (recs s)" "global_pmem_table ?s1 = global_pmem_table s"
    "next_pmem_handle ?s1 = next_pmem_handle s"
    and F2: "\<And>x q. recs ?s1 x = Some q \<Longrightarrow> \<exists>q0. recs s x = Some q0 \<and> refcount q = refcount q0 + count_list (parents r) x"
    using F by blast+
  note S = kpmem_insert_Some [OF ins, unfolded F1(2,3)]
  note n = S(1,2) and s' = S(3-5)
  note I = pmem_invD [OF inv]
  have nreg: "\<not> registered d (global_pmem_table s)"
    unfolding registered_iff using I(3) [of _ d] d by auto
  have same: "same_parents (recs s) (recs s') p" for p
  proof (cases "recs s p")
    case (Some q)
    then have "p \<noteq> d" using d by auto
    have "p \<in> dom (recs ?s1)" unfolding shape_dom [OF F1(1)] using Some by (rule domI)
    then obtain q' where q': "recs ?s1 p = Some q'" by blast
    obtain q0 where "recs s p = Some q0" "p_handle q' = p_handle q0" "prange q' = prange q0"
      by (rule shape_Some [OF F1(1) q'])
    with Some q' \<open>p \<noteq> d\<close> s'(1) show ?thesis by (simp add: same_parents_def)
  qed (simp add: same_parents_def)
  have le: "next_pmem_handle s \<le> next_pmem_handle s + 1" 
    using less_succ_word [OF n(1), of "next_pmem_handle s"] by simp
  have "pmem_inv s'"
  proof (rule pmem_invI)
    show "reg_wf (global_pmem_table s') (next_pmem_handle s')" unfolding s' by (rule reg_wf_ADD [OF I(1) n(1)])
    show "distinct (map snd (global_pmem_table s'))" unfolding s' using I(2) nreg by (simp add: HASH_ADD_def registered_def)
    show "drain_inv (global_pmem_table s') (recs s') [] [] []" unfolding s'
      by (rule insert_drain_inv [OF I(4) d nreg _ _ F1(1)]) (simp_all add: ps F2)
  next
    fix g a assume ga: "(g, a) \<in> set (global_pmem_table s')"
    show "\<exists>r. recs s' a = Some r \<and> p_handle r = g"
    proof (cases "(g, a) = (next_pmem_handle s, d)")
      case False
      with ga s'(2) have "(g, a) \<in> set (global_pmem_table s)" by auto
      from I(3) [OF this] obtain r0 where "recs s a = Some r0" "p_handle r0 = g" by blast
      then show ?thesis using same_parents_Some [OF same [of a]] by metis
    qed (simp add: s')
  next
    fix a q assume a: "recs s' a = Some q"
    show "rec_ok (recs s') (next_pmem_handle s') q"
    proof (cases "a = d")
      case True
      with a s'(1) have "q = r\<lparr>p_handle := next_pmem_handle s\<rparr>" by simp
      with rec_ok_heap [OF ok order.refl same] s'(3) show ?thesis by simp
    next
      case False
      with a s'(1) have q: "recs ?s1 a = Some q" by simp
      obtain q0 where q0: "recs s a = Some q0" "q = q0\<lparr>refcount := refcount q\<rparr>"
        by (rule shape_Some [OF F1(1) q])
      have "rec_ok (recs s') (next_pmem_handle s') q0"
        unfolding s'(3) by (rule rec_ok_heap [OF I(5) [OF q0(1)] le same])
      then show ?thesis by (subst q0(2)) simp
    qed
  qed
  with n(2) show ?thesis by simp
qed

section \<open>Every operation keeps the invariant\<close>

lemma kpmem_get_end_iff:
  "kpmem_get_end base len = Some e \<longleftrightarrow> unat base + unat len < 2 ^ 64 \<and> e = base + len"
  using range_wraps_iff [of base len] by (auto simp: kpmem_get_end_def)

lemma kpmem_get_end_unat: "kpmem_get_end base len = Some e \<Longrightarrow> unat e = unat base + unat len"
  unfolding kpmem_get_end_iff using unat_add_no_wrap by blast

lemma kpmem_create_internal_inv:
  assumes inv: "pmem_inv s" and mem: "\<And>a. mem = Some a \<Longrightarrow> recs s a = None"
  shows "pmem_inv (snd (kpmem_create_internal mem base len owns s))"
proof -
  let ?r = "blank_record\<lparr>phys_base := base, p_length := len, owns_pages := owns\<rparr>"
  have "pmem_inv s'" if a: "mem = Some a" and e: "kpmem_get_end base len \<noteq> None"
    and ow: "\<not> (owns \<and> (len = 0 \<or> base mod PAGE_SIZE \<noteq> 0 \<or> len mod PAGE_SIZE \<noteq> 0))"
    and ins: "kpmem_insert_locked a ?r s = Some (h, s')" for a h s'
  proof -
    have "rec_ok (recs s) (next_pmem_handle s + 1) (?r\<lparr>p_handle := next_pmem_handle s\<rparr>)"
      using e ow succ_gt [OF kpmem_insert_Some(1) [OF ins]] by (auto simp: rec_ok_def blank_record_def)
    then show ?thesis using kpmem_insert_inv [OF inv mem [OF a], of ?r h s'] ins by (simp add: blank_record_def)
  qed
  then show ?thesis using inv unfolding kpmem_create_internal_def
    by (simp split: option.splits)
qed

lemma kpmem_alloc_owned_pages_inv:
  assumes inv: "pmem_inv s" and mem: "\<And>a. mem = Some a \<Longrightarrow> recs s a = None"
  shows "pmem_inv (snd (snd (kpmem_alloc_owned_pages mem alloc len s)))"
  using kpmem_create_internal_inv [OF assms] inv unfolding kpmem_alloc_owned_pages_def Let_def
  by (auto split: option.splits prod.splits) (metis snd_conv)+

lemma kpmem_derive_inv:
  assumes inv: "pmem_inv s" and mem: "\<And>a. mem = Some a \<Longrightarrow> recs s a = None"
  shows "\<exists>q s'. kpmem_derive mem source new_base new_len s = Some (q, s') \<and> pmem_inv s'"
proof (cases "kpmem_get_end new_base new_len = None \<or> mem = None \<or> kpmem_find_locked source s = None")
  case True then show ?thesis using inv by (auto simp: kpmem_derive_def split: option.splits)
next
  case False
  then obtain new_end d a where e: "kpmem_get_end new_base new_len = Some new_end" and d: "mem = Some d"
    and a: "kpmem_find_locked source s = Some a" by auto
  obtain p where p: "recs s a = Some p" "p_handle p = source" using pmem_inv_live(2) [OF inv a] by blast
  have pok: "rec_ok (recs s) (next_pmem_handle s) p" by (rule pmem_invD(5) [OF inv p(1)])
  then obtain pe where pe: "kpmem_get_end (phys_base p) (p_length p) = Some pe" unfolding rec_ok_def by auto
  let ?r = "blank_record\<lparr>phys_base := new_base, p_length := new_len, parents := [a]\<rparr>"
  have fin: "pmem_inv s'" if le: "phys_base p \<le> new_base" "new_end \<le> pe"
    and ins: "kpmem_insert_locked d ?r (kpmem_retain a s) = Some (h, s')" for h s'
  proof -
    have "prange ?r \<subseteq> prange p"
      using le kpmem_get_end_unat [OF e] kpmem_get_end_unat [OF pe] by (simp add: prange_def word_le_nat_alt)
    then have "prange (?r\<lparr>p_handle := next_pmem_handle s\<rparr>) \<subseteq> prange p" by (simp only: prange_count)
    moreover have "next_pmem_handle s \<noteq> UINT64_MAX"
      using kpmem_insert_Some(1) [OF ins] by (simp add: kpmem_retain_def r_update_def)
    moreover have "p_handle p < next_pmem_handle s" using pok unfolding rec_ok_def by simp
    ultimately have "rec_ok (recs s) (next_pmem_handle s + 1) (?r\<lparr>p_handle := next_pmem_handle s\<rparr>)"
      using e p(1) by (simp add: rec_ok_def blank_record_def succ_gt)
    moreover have "a \<in> dom (recs s)" using p(1) by auto
    ultimately show ?thesis using kpmem_insert_inv [OF inv mem [OF d], of ?r h s'] ins by (simp add: blank_record_def)
  qed
  show ?thesis
  proof (cases "new_base < phys_base p \<or> new_end > pe \<or> int (refcount p) = SIZE_MAX")
    case True then show ?thesis using e d a p pe inv by (simp add: kpmem_derive_def)
  next
    case in_range: False
    show ?thesis
    proof (cases "kpmem_insert_locked d ?r (kpmem_retain a s)")
      case None then show ?thesis using e d a p pe inv in_range by (simp add: kpmem_derive_def)
    next
      case (Some hs)
      obtain h s' where hs: "hs = (h, s')" by fastforce
      have "pmem_inv s'" by (rule fin [of h]) (use in_range Some hs in auto)
      then show ?thesis using e d a p pe in_range Some hs by (simp add: kpmem_derive_def)
    qed
  qed
qed

lemma merged_range_sub:
  assumes m: "merged_range pa pb a_end b_end = Some (base, len)"
    and a: "kpmem_get_end (phys_base pa) (p_length pa) = Some a_end" and b: "kpmem_get_end (phys_base pb) (p_length pb) = Some b_end"
  shows "{unat base ..< unat base + unat len} = prange pa \<union> prange pb \<or> (len = 0 \<and> prange pa \<union> prange pb = {})"
    "kpmem_get_end base len \<noteq> None"
proof -
  note ea = kpmem_get_end_unat [OF a] kpmem_get_end_iff [THEN iffD1, OF a]
  note eb = kpmem_get_end_unat [OF b] kpmem_get_end_iff [THEN iffD1, OF b]
  have core: "{unat base ..< unat base + unat len} = prange lo \<union> prange hi \<and> kpmem_get_end base len \<noteq> None"
    if lo: "unat lo_end = unat (phys_base lo) + unat (p_length lo)" "unat hi_end = unat (phys_base hi) + unat (p_length hi)"
      "phys_base lo \<le> phys_base hi" "\<not> phys_base hi > lo_end"
      and eq: "base = phys_base lo" "len = (if lo_end > hi_end then lo_end else hi_end) - phys_base lo" for lo hi lo_end hi_end
  proof -
    let ?e = "if lo_end > hi_end then lo_end else hi_end"
    have e: "unat ?e = max (unat lo_end) (unat hi_end)" by (simp add: word_less_nat_alt max_def)
    then have le: "phys_base lo \<le> ?e" using lo(1) by (simp add: word_le_nat_alt)
    have len: "unat len = unat ?e - unat (phys_base lo)" unfolding eq(2) by (rule unat_sub [OF le])
    then have sum: "unat base + unat len = unat ?e" using le by (simp add: eq(1) word_le_nat_alt)
    have "{unat base ..< unat base + unat len} = prange lo \<union> prange hi"
      unfolding sum e using lo by (auto simp: eq(1) prange_def word_le_nat_alt not_less)
    moreover have "kpmem_get_end base len = Some (base + len)"
      unfolding kpmem_get_end_iff sum using unat_bound [of ?e] by simp
    ultimately show ?thesis by simp
  qed
  have "({unat base ..< unat base + unat len} = prange pa \<union> prange pb \<or> (len = 0 \<and> prange pa \<union> prange pb = {})) \<and>
      kpmem_get_end base len \<noteq> None"
  proof (cases "p_length pa = 0 \<or> p_length pb = 0")
    case True
    then show ?thesis using m a b by (auto simp: merged_range_def prange_def kpmem_get_end_def split: if_splits)
  next
    case False
    show ?thesis
    proof (cases "phys_base pa \<le> phys_base pb")
      case True
      with False m have "\<not> phys_base pb > a_end" "base = phys_base pa"
        "len = (if a_end > b_end then a_end else b_end) - phys_base pa"
        by (auto simp: merged_range_def Let_def split: if_splits)
      from core [OF ea(1) eb(1) True this] show ?thesis by simp
    next
      case lt: False
      with False m have "\<not> phys_base pa > b_end" "base = phys_base pb"
        "len = (if b_end > a_end then b_end else a_end) - phys_base pb"
        by (auto simp: merged_range_def Let_def split: if_splits)
      from core [OF eb(1) ea(1) _ this] lt show ?thesis by auto
    qed
  qed
  then show "{unat base ..< unat base + unat len} = prange pa \<union> prange pb \<or> (len = 0 \<and> prange pa \<union> prange pb = {})"
    "kpmem_get_end base len \<noteq> None" by simp_all
qed

lemma kpmem_merge_inv:
  assumes inv: "pmem_inv s" and mem: "\<And>a. mem = Some a \<Longrightarrow> recs s a = None"
  shows "\<exists>q s'. kpmem_merge mem ha hb s = Some (q, s') \<and> pmem_inv s'"
proof (cases "mem = None \<or> kpmem_find_locked ha s = None \<or> kpmem_find_locked hb s = None")
  case True then show ?thesis using inv by (auto simp: kpmem_merge_def split: option.splits)
next
  case False
  then obtain d a b where d: "mem = Some d" and a: "kpmem_find_locked ha s = Some a" and b: "kpmem_find_locked hb s = Some b"
    by auto
  obtain pa pb where p: "recs s a = Some pa" "recs s b = Some pb"
    using pmem_inv_live(2) [OF inv a] pmem_inv_live(2) [OF inv b] by blast
  note ok = pmem_invD(5) [OF inv p(1)] pmem_invD(5) [OF inv p(2)]
  then obtain ea eb where e: "kpmem_get_end (phys_base pa) (p_length pa) = Some ea"
    "kpmem_get_end (phys_base pb) (p_length pb) = Some eb" unfolding rec_ok_def by auto
  let ?ps = "if b \<noteq> a then [a, b] else [a]"
  have fin: "pmem_inv s'" if m: "merged_range pa pb ea eb = Some (base, len)"
    and ins: "kpmem_insert_locked d (blank_record\<lparr>phys_base := base, p_length := len, parents := ?ps\<rparr>) (fold kpmem_retain ?ps s) = Some (h, s')"
    for base len h s'
  proof -
    let ?r = "blank_record\<lparr>phys_base := base, p_length := len, parents := ?ps\<rparr>"
    have "set ?ps \<subseteq> dom (recs s)" using p by auto
    from conjunct2 [OF conjunct2 [OF conjunct2 [OF fold_retain [OF this]]]]
    have n: "next_pmem_handle s \<noteq> UINT64_MAX" using kpmem_insert_Some(1) [OF ins] by simp
    have union: "prange pa \<union> prange pb \<subseteq> (\<Union>q \<in> set ?ps. prange (the (recs s q)))" using p by auto
    have sub: "{unat base ..< unat base + unat len} \<subseteq> prange pa \<union> prange pb" using merged_range_sub(1) [OF m e] by auto
    have pr: "prange (?r\<lparr>p_handle := next_pmem_handle s\<rparr>) = {unat base ..< unat base + unat len}"
      by (simp add: prange_def)
    have "prange (?r\<lparr>p_handle := next_pmem_handle s\<rparr>) \<subseteq> (\<Union>q \<in> set ?ps. prange (the (recs s q)))"
      unfolding pr using sub union by (rule order.trans)
    moreover have "p_handle pa < next_pmem_handle s" "p_handle pb < next_pmem_handle s" using ok unfolding rec_ok_def by simp_all
    then have "\<forall>q \<in> set ?ps. \<exists>r. recs s q = Some r \<and> p_handle r < next_pmem_handle s" using p by simp
    ultimately have "rec_ok (recs s) (next_pmem_handle s + 1) (?r\<lparr>p_handle := next_pmem_handle s\<rparr>)"
      using merged_range_sub(2) [OF m e] succ_gt [OF n] unfolding rec_ok_def by (simp add: blank_record_def)
    moreover have "set (parents ?r) \<subseteq> dom (recs s)" using p by auto
    ultimately show ?thesis using kpmem_insert_inv [OF inv mem [OF d], of ?r h s'] ins by (simp add: blank_record_def)
  qed
  show ?thesis
  proof (cases "merged_range pa pb ea eb")
    case None then show ?thesis using d a b p e inv by (simp add: kpmem_merge_def)
  next
    case (Some bl)
    obtain base len where bl: "bl = (base, len)" by fastforce
    let ?i = "kpmem_insert_locked d (blank_record\<lparr>phys_base := base, p_length := len, parents := ?ps\<rparr>) (fold kpmem_retain ?ps s)"
    show ?thesis
    proof (cases "int (refcount pa) = SIZE_MAX \<or> int (refcount pb) = SIZE_MAX \<or> ?i = None")
      case True
      then show ?thesis using d a b p e inv Some bl by (auto simp: kpmem_merge_def Let_def split: option.splits)
    next
      case False
      then obtain h s' where "?i = Some (h, s')" by auto
      with False fin [OF Some [unfolded bl]] d a b p e Some bl show ?thesis by (simp add: kpmem_merge_def Let_def)
    qed
  qed
qed

lemma unlink_drain_inv:
  assumes "pmem_inv s" "kpmem_find_locked h s = Some a"
  shows "drain_inv (HASH_DEL h (global_pmem_table s)) (recs s) [] [] [a]"
proof (rule drain_invI)
  note I = pmem_invD [OF assms(1)]
  note D = drain_invD [OF I(4)]
  note L = pmem_inv_live [OF assms]
  have reg: "registered b (HASH_DEL h (global_pmem_table s)) \<longleftrightarrow> registered b (global_pmem_table s) \<and> b \<noteq> a" for b
    by (rule registered_DEL [OF I(2) L(1) reg_wf_distinct [OF I(1)]])
  show "finite (dom (recs s))" by (rule D(1))
  show "set [a] \<subseteq> dom (recs s)" using L(2) by auto
  fix x r assume r: "recs s x = Some r"
  show "set (parents r) \<subseteq> dom (recs s)" by (rule D(5) [OF r])
  show "refcount r = of_bool (registered x (HASH_DEL h (global_pmem_table s))) + kids (recs s) (set []) x + count_list [a] x"
    using D(6) [OF r] L(3) by (auto simp: reg)
  show "refcount r = 0 \<longleftrightarrow> x \<in> set [] \<union> set []" using D(7) [OF r] .
qed simp_all

definition bury :: "addr list \<Rightarrow> pmem_heap \<Rightarrow> pmem_heap" where
  "bury dead R = (\<lambda>b. if b \<in> set dead then None else R b)"

lemma bury_Some: "bury dead R b = Some r \<longleftrightarrow> b \<notin> set dead \<and> R b = Some r"
  by (simp add: bury_def)

lemma dom_bury: "dom (bury dead R) = dom R - set dead"
  by (auto simp: bury_def split: if_splits)

lemma kids_bury: "kids (bury dead R) {} x = kids R (set dead) x"
  unfolding kids_def dom_bury by (rule sum.cong) (auto simp: bury_def)

lemma live_parents_live:
  assumes "drain_inv t R [] dead []" "R b = Some r" "b \<notin> set dead" "p \<in> set (parents r)"
  shows "p \<notin> set dead" "p \<in> dom R"
proof -
  note D = drain_invD [OF assms(1)]
  show p: "p \<in> dom R" using D(5) [OF assms(2)] assms(4) by blast
  then obtain q where q: "R p = Some q" by blast
  have "count_list (parents (the (R b))) p \<le> kids R (set dead) p"
    unfolding kids_def using assms(2,3) D(1) by (intro member_le_sum) auto
  moreover have "0 < count_list (parents r) p" using assms(4) count_list_0_iff [of "parents r" p] by auto
  ultimately have "0 < refcount q" using D(6) [OF q] assms(2) by simp
  then show "p \<notin> set dead" using D(7) [OF q] by simp
qed

lemma bury_drain_inv:
  assumes inv: "drain_inv t R [] dead []"
  shows "drain_inv t (bury dead R) [] [] []"
proof (rule drain_invI)
  note D = drain_invD [OF inv]
  show "finite (dom (bury dead R))" unfolding dom_bury using D(1) by simp
  fix x r assume "bury dead R x = Some r"
  then have x: "x \<notin> set dead" "R x = Some r" unfolding bury_Some by simp_all
  show "set (parents r) \<subseteq> dom (bury dead R)" unfolding dom_bury using live_parents_live [OF inv x(2,1)] by blast
  show "refcount r = of_bool (registered x t) + kids (bury dead R) (set []) x + count_list [] x"
    using D(6) [OF x(2)] by (simp add: kids_bury)
  show "refcount r = 0 \<longleftrightarrow> x \<in> set [] \<union> set []" using D(7) [OF x(2)] x(1) by simp
qed simp_all

text \<open>
  Destroying a handle: the drain ends without a panic; the dead records are exactly those whose count
  reached zero, and no surviving record has a dead parent.
\<close>

lemma kpmem_destroy_drain:
  assumes inv: "pmem_inv s" and a: "kpmem_find_locked h s = Some a"
  obtains R dead where
    "kpmem_destroy h s = Some (Some (freed_runs R dead),
       s\<lparr>recs := bury dead R, global_pmem_table := HASH_DEL h (global_pmem_table s)\<rparr>)"
    "drain_inv (HASH_DEL h (global_pmem_table s)) R [] dead []" "shape R = shape (recs s)"
proof -
  let ?t = "HASH_DEL h (global_pmem_table s)"
  from release_locked_inv [OF unlink_drain_inv [OF assms]] obtain R1 p1 where
    1: "kpmem_release_locked a (recs s, []) = Some (R1, p1)" "drain_inv ?t R1 p1 [] []" "shape R1 = shape (recs s)" by blast
  from kpmem_drain_inv [OF 1(2)] obtain R dead where
    2: "kpmem_drain R1 p1 [] = Some (R, dead)" "drain_inv ?t R [] dead []" "shape R = shape R1" by blast
  have "kpmem_destroy h s = Some (Some (freed_runs R dead), s\<lparr>recs := bury dead R, global_pmem_table := ?t\<rparr>)"
    using a 1(1) 2(1) by (simp add: kpmem_destroy_def bury_def)
  from this 2(2) show ?thesis by (rule that) (simp add: 1(3) 2(3))
qed

lemma kpmem_destroy_inv:
  assumes inv: "pmem_inv s"
  shows "\<exists>q s'. kpmem_destroy h s = Some (q, s') \<and> pmem_inv s'"
proof (cases "kpmem_find_locked h s")
  case None then show ?thesis using inv by (simp add: kpmem_destroy_def)
next
  case (Some a)
  note I = pmem_invD [OF inv]
  obtain R dead where d: "kpmem_destroy h s = Some (Some (freed_runs R dead),
      s\<lparr>recs := bury dead R, global_pmem_table := HASH_DEL h (global_pmem_table s)\<rparr>)" (is "_ = Some (_, ?s)")
    and D: "drain_inv (HASH_DEL h (global_pmem_table s)) R [] dead []" and sh: "shape R = shape (recs s)"
    by (rule kpmem_destroy_drain [OF inv Some])
  have "pmem_inv ?s"
  proof (rule pmem_invI)
    show "reg_wf (global_pmem_table ?s) (next_pmem_handle ?s)" using reg_wf_DEL [OF I(1)] by simp
    show "distinct (map snd (global_pmem_table ?s))" using distinct_snd_DEL [OF I(2)] by simp
    show "drain_inv (global_pmem_table ?s) (recs ?s) [] [] []" using bury_drain_inv [OF D] by simp
  next
    fix g b assume "(g, b) \<in> set (global_pmem_table ?s)"
    then have gb: "(g, b) \<in> set (HASH_DEL h (global_pmem_table s))" by simp
    then have "(g, b) \<in> set (global_pmem_table s)" by simp
    then obtain r where r: "recs s b = Some r" "p_handle r = g" using I(3) by blast
    then obtain r' where r': "R b = Some r'" using shape_dom [OF sh] by blast
    obtain q where "recs s b = Some q" "p_handle r' = p_handle q" by (rule shape_Some [OF sh r'])
    moreover have "registered b (HASH_DEL h (global_pmem_table s))" using gb unfolding registered_iff by blast
    then have "b \<notin> set dead" using drain_invD(6,7) [OF D r'] by auto
    ultimately show "\<exists>r. recs ?s b = Some r \<and> p_handle r = g" using r r' by (simp add: bury_def)
  next
    fix b r' assume "recs ?s b = Some r'"
    then have b: "b \<notin> set dead" "R b = Some r'" by (simp_all add: bury_Some)
    obtain r where r: "recs s b = Some r" "r' = r\<lparr>refcount := refcount r'\<rparr>" "parents r' = parents r" by (rule shape_Some [OF sh b(2)])
    have "rec_ok (bury dead R) (next_pmem_handle s) r"
    proof (rule rec_ok_heap [OF I(5) [OF r(1)] order.refl])
      fix p assume "p \<in> set (parents r)"
      then have "p \<notin> set dead" "p \<in> dom R" using live_parents_live [OF D b(2,1), of p] r(3) by simp_all
      then obtain q' where q': "R p = Some q'" by blast
      obtain q where "recs s p = Some q" "p_handle q' = p_handle q" "prange q' = prange q" by (rule shape_Some [OF sh q'])
      with q' \<open>p \<notin> set dead\<close> show "same_parents (recs s) (bury dead R) p" by (simp add: same_parents_def bury_def)
    qed
    then show "rec_ok (recs ?s) (next_pmem_handle ?s) r'" by (subst r(2)) simp
  qed
  with d show ?thesis by blast
qed

section \<open>Any history of operations\<close>

datatype pmem_op =
    PCreate "addr option" u64 u64
  | PAlloc "addr option" "nat \<Rightarrow> u64 option" u64
  | PDerive "addr option" u64 u64 u64
  | PMerge "addr option" u64 u64
  | PDestroy u64

fun pmem_ok :: "pmem_op \<Rightarrow> pmem_state \<Rightarrow> bool" where
  \<comment> \<open>kmalloc returns an address that is not in use\<close>
  "pmem_ok (PCreate mem base len) s \<longleftrightarrow> (\<forall>a \<in> set_option mem. recs s a = None)"
| "pmem_ok (PAlloc mem alloc len) s \<longleftrightarrow> (\<forall>a \<in> set_option mem. recs s a = None)"
| "pmem_ok (PDerive mem h base len) s \<longleftrightarrow> (\<forall>a \<in> set_option mem. recs s a = None)"
| "pmem_ok (PMerge mem g h) s \<longleftrightarrow> (\<forall>a \<in> set_option mem. recs s a = None)"
| "pmem_ok (PDestroy h) s \<longleftrightarrow> True"

fun pmem_exec :: "pmem_op \<Rightarrow> pmem_state \<Rightarrow> pmem_state option" where
  "pmem_exec (PCreate mem base len) s = Some (snd (kpmem_create mem base len s))"
| "pmem_exec (PAlloc mem alloc len) s = Some (snd (snd (kpmem_alloc_owned_pages mem alloc len s)))"
| "pmem_exec (PDerive mem h base len) s = map_option snd (kpmem_derive mem h base len s)"
| "pmem_exec (PMerge mem g h) s = map_option snd (kpmem_merge mem g h s)"
| "pmem_exec (PDestroy h) s = map_option snd (kpmem_destroy h s)"

fun pmem_run :: "pmem_op list \<Rightarrow> pmem_state \<Rightarrow> pmem_state option" where
  "pmem_run [] s = Some s"
| "pmem_run (op # ops) s = (if pmem_ok op s then Option.bind (pmem_exec op s) (pmem_run ops) else pmem_run ops s)"

lemma pmem_exec_inv:
  assumes "pmem_inv s" "pmem_ok op s"
  shows "\<exists>s'. pmem_exec op s = Some s' \<and> pmem_inv s'"
proof (cases op)
  case (PCreate mem base len)
  then show ?thesis using kpmem_create_internal_inv [OF assms(1), of mem] assms(2) by (auto simp: kpmem_create_def)
next
  case (PAlloc mem alloc len)
  then show ?thesis using kpmem_alloc_owned_pages_inv [OF assms(1), of mem] assms(2) by auto
next
  case (PDerive mem h base len)
  then show ?thesis using kpmem_derive_inv [OF assms(1), of mem h base len] assms(2) by auto
next
  case (PMerge mem g h)
  then show ?thesis using kpmem_merge_inv [OF assms(1), of mem g h] assms(2) by auto
next
  case (PDestroy h)
  then show ?thesis using kpmem_destroy_inv [OF assms(1), of h] by auto
qed

lemma pmem_run_inv: "pmem_inv s \<Longrightarrow> \<exists>s'. pmem_run ops s = Some s' \<and> pmem_inv s'"
proof (induction ops arbitrary: s)
  case (Cons op ops)
  then show ?case using pmem_exec_inv [OF Cons.prems, of op] by (cases "pmem_ok op s") fastforce+
qed simp

lemma kpmem_init_inv: "pmem_inv kpmem_init"
  by (simp add: pmem_inv_def kpmem_init_def drain_inv_def)

text \<open>Without registered handles no record survives: the one with the largest handle has no child.\<close>

lemma pmem_no_leak:
  assumes inv: "pmem_inv s" and empty: "global_pmem_table s = []"
  shows "recs s a = None"
proof (rule ccontr)
  assume "recs s a \<noteq> None"
  note D = drain_invD [OF pmem_invD(4) [OF inv]]
  let ?H = "(\<lambda>b. p_handle (the (recs s b))) ` dom (recs s)"
  have "finite ?H" "?H \<noteq> {}" using D(1) \<open>recs s a \<noteq> None\<close> by auto
  then have "Max ?H \<in> ?H" by (rule Max_in)
  then obtain b where b: "b \<in> dom (recs s)" "p_handle (the (recs s b)) = Max ?H" by force
  then obtain r where r: "recs s b = Some r" by blast
  have "kids (recs s) {} b \<noteq> 0" using D(6,7) [OF r] empty by (simp add: registered_def)
  then obtain c q where c: "recs s c = Some q" "b \<in> set (parents q)"
    unfolding kids_def using D(1) by (auto simp: count_list_0_iff)
  then have "p_handle r < p_handle q" using pmem_invD(5) [OF inv c(1)] r unfolding rec_ok_def by auto
  moreover have "p_handle q \<in> ?H" using c(1) by force
  then have "p_handle q \<le> Max ?H" using \<open>finite ?H\<close> by (rule Max_ge [rotated])
  ultimately show False using b(2) r by simp
qed

text \<open>
  Property C19.  From kpmem_init, no history of creations, allocations, derivations, merges and
  destructions panics with a reference underflow, uses a freed record or runs the drain loop for
  ever; the counts are exactly the registry reference plus one per child; and when no handle is
  registered any more, no record is left.
\<close>

theorem pmem_refcounts_exact:
  "\<exists>s. pmem_run ops kpmem_init = Some s \<and> pmem_inv s \<and>
     (global_pmem_table s = [] \<longrightarrow> recs s = (\<lambda>_. None))"
  using pmem_run_inv [OF kpmem_init_inv, of ops] pmem_no_leak by (fastforce simp: fun_eq_iff)

theorem pmem_refcounts_exact_witness:
  "\<exists>s. pmem_run [PCreate (Some 1) 4096 8192, PDerive (Some 2) 1 4096 4096, PMerge (Some 3) 1 2, PDestroy 1, PDestroy 2, PDestroy 3]
       kpmem_init = Some s \<and> global_pmem_table s = [] \<and> recs s = (\<lambda>_. None)"
proof -
  let ?ops = "[PCreate (Some 1) 4096 8192, PDerive (Some 2) 1 4096 4096, PMerge (Some 3) 1 2, PDestroy 1, PDestroy 2, PDestroy 3]"
  have "map_option global_pmem_table (pmem_run ?ops kpmem_init) = Some []" by code_simp
  then show ?thesis using pmem_refcounts_exact [of ?ops] by auto
qed

section \<open>Backing memory\<close>

inductive ancestor :: "pmem_heap \<Rightarrow> addr \<Rightarrow> addr \<Rightarrow> bool" for R where
  self: "ancestor R a a"
| parent: "R a = Some r \<Longrightarrow> p \<in> set (parents r) \<Longrightarrow> ancestor R p b \<Longrightarrow> ancestor R a b"



lemma owners_of_shape:
  assumes "shape R = shape R0" "R a = Some r"
  shows "\<exists>r0. R0 a = Some r0 \<and> owns_pages r = owns_pages r0 \<and> phys_base r = phys_base r0 \<and> p_length r = p_length r0"
proof -
  obtain r0 where "R0 a = Some r0" "r = r0\<lparr>refcount := refcount r\<rparr>" by (rule shape_Some [OF assms])
  then show ?thesis by (metis pmem_record_t.select_convs pmem_record_t.update_convs(5) pmem_record_t.surjective)
qed

lemma survivors_closed:
  assumes "drain_inv t R [] dead []" "shape R = shape R0" "ancestor R0 a b" "a \<in> dom R - set dead"
  shows "b \<in> dom R - set dead"
  using assms(3,4)
proof (induction rule: ancestor.induct)
  case (parent a r p b)
  obtain r' where r': "R a = Some r'" using parent.prems by blast
  obtain r0 where "R0 a = Some r0" "parents r' = parents r0" by (rule shape_Some [OF assms(2) r'])
  with parent.hyps have "p \<in> set (parents r')" by simp
  then show ?case using parent.IH live_parents_live [OF assms(1) r'] parent.prems by blast
qed

text \<open>
  Property C18.  kpmem_destroy gives back the pages of an owning record exactly when the record dies,
  once each, and a record only dies when nothing that survives was derived or merged from it: no
  page is returned to the allocator while a live object still describes it.
\<close>

theorem kpmem_destroy_frees_once:
  assumes inv: "pmem_inv s" and des: "kpmem_destroy h s = Some (Some runs, s')"
  shows "(\<exists>os. distinct os \<and> set os = {b. \<exists>r. recs s b = Some r \<and> owns_pages r \<and> recs s' b = None} \<and>
            runs = map (\<lambda>b. (phys_base (the (recs s b)), unat (p_length (the (recs s b)) div PAGE_SIZE))) os) \<and>
         (\<forall>a b. recs s' a \<noteq> None \<longrightarrow> ancestor (recs s) a b \<longrightarrow> recs s' b \<noteq> None)"
proof -
  obtain a where a: "kpmem_find_locked h s = Some a"
    using des by (auto simp: kpmem_destroy_def split: option.splits)
  obtain R dead where d: "kpmem_destroy h s = Some (Some (freed_runs R dead),
      s\<lparr>recs := bury dead R, global_pmem_table := HASH_DEL h (global_pmem_table s)\<rparr>)"
    and D: "drain_inv (HASH_DEL h (global_pmem_table s)) R [] dead []" and sh: "shape R = shape (recs s)"
    by (rule kpmem_destroy_drain [OF inv a])
  have runs: "runs = freed_runs R dead" and s': "recs s' = bury dead R" using des d by auto
  note dom = shape_dom [OF sh]
  let ?os = "filter (\<lambda>a. owns_pages (the (R a))) dead"
  have same: "owns_pages (the (R b)) = owns_pages (the (recs s b)) \<and> phys_base (the (R b)) = phys_base (the (recs s b)) \<and>
      p_length (the (R b)) = p_length (the (recs s b))" if b: "b \<in> dom R" for b
  proof -
    from b obtain r where "R b = Some r" by blast
    with owners_of_shape [OF sh this] show ?thesis by auto
  qed
  have sub: "set dead \<subseteq> dom R" and dist: "distinct dead" using drain_invD(2,3) [OF D] by auto
  have "b \<in> set ?os \<longleftrightarrow> (\<exists>r. recs s b = Some r \<and> owns_pages r \<and> recs s' b = None)" for b
  proof (cases "b \<in> dom R")
    case True
    then obtain r where r: "recs s b = Some r" using dom by blast
    have "recs s' b = None \<longleftrightarrow> b \<in> set dead" using True by (auto simp: s' bury_def)
    with r same [OF True] show ?thesis by auto
  next
    case False
    then have "recs s b = None" "b \<notin> set dead" using dom sub by auto
    then show ?thesis by simp
  qed
  then have os: "distinct ?os" "set ?os = {b. \<exists>r. recs s b = Some r \<and> owns_pages r \<and> recs s' b = None}" using dist by auto
  have "runs = map (\<lambda>b. (phys_base (the (recs s b)), unat (p_length (the (recs s b)) div PAGE_SIZE))) ?os"
    unfolding runs freed_runs_def
  proof (rule map_cong [OF refl])
    fix b assume "b \<in> set ?os"
    then have "b \<in> dom R" using sub by auto
    from same [OF this] show "(phys_base (the (R b)), unat (p_length (the (R b)) div PAGE_SIZE)) =
        (phys_base (the (recs s b)), unat (p_length (the (recs s b)) div PAGE_SIZE))" by simp
  qed
  moreover have "recs s' b \<noteq> None" if "recs s' a \<noteq> None" "ancestor (recs s) a b" for a b
    using survivors_closed [OF D sh that(2)] that(1) by (auto simp: s' bury_def split: if_splits)
  ultimately show ?thesis using os by blast
qed

theorem kpmem_destroy_frees_once_witness:
  "\<exists>s s'. pmem_run [PAlloc (Some 1) (\<lambda>n. Some 4096) 5000, PDerive (Some 2) 1 8192 4096, PDestroy 1] kpmem_init = Some s \<and>
     kpmem_destroy 2 s = Some (Some [(4096, 2)], s') \<and>
     (\<forall>a b. recs s' a \<noteq> None \<longrightarrow> ancestor (recs s) a b \<longrightarrow> recs s' b \<noteq> None)"
proof -
  let ?ops = "[PAlloc (Some 1) (\<lambda>n. Some 4096) 5000, PDerive (Some 2) 1 8192 4096, PDestroy 1]"
  obtain s where s: "pmem_run ?ops kpmem_init = Some s" "pmem_inv s" using pmem_run_inv [OF kpmem_init_inv] by blast
  have "Option.bind (pmem_run ?ops kpmem_init) (\<lambda>s. map_option fst (kpmem_destroy 2 s)) = Some (Some [(4096, 2)])"
    by code_simp
  with s(1) obtain s' where d: "kpmem_destroy 2 s = Some (Some [(4096, 2)], s')" by auto
  from s(1) d conjunct2 [OF kpmem_destroy_frees_once [OF s(2) d]] show ?thesis by (intro exI conjI)
qed

section \<open>Ranges of merged and allocated objects\<close>

text \<open>
  Property C21.  A merge succeeds only without a hole and the new object describes exactly the union
  of the two ranges; both sources stay registered and keep their ranges.
\<close>

theorem kpmem_merge_union:
  assumes inv: "pmem_inv s" and mem: "recs s d = None"
    and merge: "kpmem_merge (Some d) ha hb s = Some (Some h, s')"
  shows "\<exists>a b pa pb r. kpmem_find_locked ha s' = Some a \<and> kpmem_find_locked hb s' = Some b \<and>
           recs s' a = Some pa \<and> recs s' b = Some pb \<and>
           kpmem_find_locked h s' = Some d \<and> recs s' d = Some r \<and> prange r = prange pa \<union> prange pb"
proof -
  obtain a b where ab: "kpmem_find_locked ha s = Some a" "kpmem_find_locked hb s = Some b"
    using merge by (auto simp: kpmem_merge_def split: option.splits)
  obtain pa pb where p: "recs s a = Some pa" "recs s b = Some pb"
    using pmem_inv_live(2) [OF inv ab(1)] pmem_inv_live(2) [OF inv ab(2)] by blast
  let ?ps = "if b \<noteq> a then [a, b] else [a]"
  obtain ea eb base len where e: "kpmem_get_end (phys_base pa) (p_length pa) = Some ea"
      "kpmem_get_end (phys_base pb) (p_length pb) = Some eb" and m: "merged_range pa pb ea eb = Some (base, len)"
    and ins: "kpmem_insert_locked d (blank_record\<lparr>phys_base := base, p_length := len, parents := ?ps\<rparr>)
      (fold kpmem_retain ?ps s) = Some (h, s')"
    using merge ab p by (auto simp: kpmem_merge_def Let_def split: option.splits if_splits)
  let ?r = "blank_record\<lparr>phys_base := base, p_length := len, parents := ?ps\<rparr>"
  have "set ?ps \<subseteq> dom (recs s)" using p by auto
  from fold_retain [OF this] have F: "shape (recs (fold kpmem_retain ?ps s)) = shape (recs s)"
    "global_pmem_table (fold kpmem_retain ?ps s) = global_pmem_table s"
    "next_pmem_handle (fold kpmem_retain ?ps s) = next_pmem_handle s" by blast+
  note S = kpmem_insert_Some [OF ins, unfolded F]
  have ne: "a \<noteq> d" "b \<noteq> d" using p mem by auto
  have keep: "\<exists>q'. recs s' c = Some q' \<and> prange q' = prange q" if c: "recs s c = Some q" "c \<noteq> d" for c q
  proof -
    have "c \<in> dom (recs (fold kpmem_retain ?ps s))" unfolding shape_dom [OF F(1)] using c(1) by auto
    then obtain q' where q': "recs (fold kpmem_retain ?ps s) c = Some q'" by blast
    obtain q0 where "recs s c = Some q0" "prange q' = prange q0" by (rule shape_Some [OF F(1) q'])
    with c q' S(3) show ?thesis by simp
  qed
  have "prange (?r\<lparr>p_handle := next_pmem_handle s\<rparr>) = prange pa \<union> prange pb"
    using merged_range_sub(1) [OF m e] by (auto simp: prange_def)
  moreover have "kpmem_find_locked g s' = (if g = h then Some d else kpmem_find_locked g s)" for g
    unfolding kpmem_find_locked_def S(4,2) by (rule HASH_FIND_ADD [OF reg_wf_fresh [OF pmem_invD(1) [OF inv]]])
  moreover have "ha \<noteq> h" "hb \<noteq> h"
    using ab reg_wf_fresh [OF pmem_invD(1) [OF inv]] unfolding S(2) kpmem_find_locked_def by auto
  moreover from keep [OF p(1) ne(1)] keep [OF p(2) ne(2)] obtain qa qb where
    "recs s' a = Some qa" "prange qa = prange pa" "recs s' b = Some qb" "prange qb = prange pb" by blast
  ultimately show ?thesis using S(3) ab by auto
qed

theorem kpmem_merge_union_witness:
  "\<exists>s s' r. pmem_run [PCreate (Some 1) 4096 4096, PCreate (Some 2) 8192 4096] kpmem_init = Some s \<and>
     kpmem_merge (Some 3) 2 1 s = Some (Some 3, s') \<and> recs s' 3 = Some r \<and>
     (\<exists>pa pb. recs s' 2 = Some pa \<and> recs s' 1 = Some pb \<and> prange r = prange pa \<union> prange pb)"
proof -
  let ?ops = "[PCreate (Some 1) 4096 4096, PCreate (Some 2) 8192 4096]"
  obtain s where s: "pmem_run ?ops kpmem_init = Some s" "pmem_inv s" using pmem_run_inv [OF kpmem_init_inv] by blast
  have run: "map_option (\<lambda>s. (map_option p_handle (recs s 3), kpmem_find_locked 2 s, kpmem_find_locked 1 s)) (pmem_run ?ops kpmem_init) = Some (None, Some 2, Some 1)"
    "Option.bind (pmem_run ?ops kpmem_init) (\<lambda>s. map_option (\<lambda>r. (fst r, kpmem_find_locked 2 (snd r), kpmem_find_locked 1 (snd r))) (kpmem_merge (Some 3) 2 1 s)) =
      Some (Some 3, Some 2, Some 1)"
    by code_simp+
  with s(1) obtain s' where m: "recs s 3 = None" "kpmem_merge (Some 3) 2 1 s = Some (Some 3, s')"
    "kpmem_find_locked 2 s' = Some 2" "kpmem_find_locked 1 s' = Some 1" by auto
  from kpmem_merge_union [OF s(2) m(1,2)] m(3,4) s(1) m(2) show ?thesis by auto
qed

end
