(* ===== verification/Syscall.thy ===== *)
theory Syscall
  imports Kcaps Kipc_Protocol Kirq Kpmem
begin

text \<open>
  The system calls (src/kernel/core/syscall.c) on capabilities, IPC endpoints, notifications,
  interrupts, I/O ports and physical memory, over the state of the subsystems they call.  A handler
  maps the registers and the kernel state to the registers and the state at its return, or to the
  blocking kernel call the thread is now in, or to a fault (a null or freed pointer is followed).
  The calls on VMOs, address spaces and threads and CAP_DESTROY are not part of this theory.
\<close>

section \<open>Kernel state and calling context\<close>

record syscall_ctx_t =
  rax :: u64
  rdi :: u64
  rsi :: u64
  rdx :: u64
  r10 :: u64
  r8 :: u64
  r9 :: u64

text \<open>
  The notification objects live in the IPC state; the copy inside the interrupt state is filled in for
  each call.  \<open>k_writes\<close> are the port writes so far, \<open>k_freed\<close> the page runs given to phys_free_pages.
\<close>

record kernel_state =
  k_caps :: caps_state
  k_ipc :: ipc_state
  k_irq :: irq_state
  k_pmem :: pmem_state
  k_writes :: "port_write list"
  k_freed :: "(u64 \<times> nat) list"
  ticks_so_far :: u64

record thread_view =
  t_id :: u64
  t_capset :: u64 \<comment> \<open>of its address space\<close>

text \<open>What the environment decides: the outcomes of kmalloc and of the page allocator, and the devices.\<close>

record sysenv =
  obj_mem :: "addr option"
  aux_mem :: bool
  cap_mem :: bool
  set_mem :: bool
  page_mem :: "nat \<Rightarrow> u64 option"
  dev_inb :: "u16 \<Rightarrow> u8"
  dev_inw :: "u16 \<Rightarrow> u16"
  dev_inl :: "u16 \<Rightarrow> u32"
  TIMER_TICK_MS :: u64 \<comment> \<open>set by the build\<close>

datatype kcall = InIpc pc | InNotify wait_pc | InIrqWait u64

datatype sysout = SysReturn syscall_ctx_t kernel_state | SysEnter kcall kernel_state | SysFault

abbreviation CAP_INVALID_HANDLE :: u64 where "CAP_INVALID_HANDLE \<equiv> UINT64_MAX"
abbreviation IPC_INVALID_HANDLE :: u64 where "IPC_INVALID_HANDLE \<equiv> UINT64_MAX"

definition CAP_RIGHT_IPC_SEND :: u64 where "CAP_RIGHT_IPC_SEND = right_bit 10"
definition CAP_RIGHT_IPC_RECV :: u64 where "CAP_RIGHT_IPC_RECV = right_bit 11"
definition CAP_RIGHT_IPC_SUBSCRIBE :: u64 where "CAP_RIGHT_IPC_SUBSCRIBE = right_bit 13"
definition CAP_RIGHT_PMEM_DERIVE :: u64 where "CAP_RIGHT_PMEM_DERIVE = right_bit 14"
definition CAP_RIGHT_PORTIO_READ :: u64 where "CAP_RIGHT_PORTIO_READ = right_bit 10"
definition CAP_RIGHT_PORTIO_WRITE :: u64 where "CAP_RIGHT_PORTIO_WRITE = right_bit 11"
definition CAP_RIGHT_IRQ_WAIT :: u64 where "CAP_RIGHT_IRQ_WAIT = right_bit 10"
definition CAP_RIGHT_IRQ_ACK :: u64 where "CAP_RIGHT_IRQ_ACK = right_bit 11"
definition CAP_RIGHT_NOTIFY_WAIT :: u64 where "CAP_RIGHT_NOTIFY_WAIT = right_bit 10"
definition CAP_RIGHT_NOTIFY_SIGNAL :: u64 where "CAP_RIGHT_NOTIFY_SIGNAL = right_bit 11"
definition CAP_RIGHT_NOTIFY_ACK :: u64 where "CAP_RIGHT_NOTIFY_ACK = right_bit 12"
definition CAP_RIGHT_FACTORY_PMEM_ALLOC_ANON :: u64 where "CAP_RIGHT_FACTORY_PMEM_ALLOC_ANON = right_bit 10"
definition CAP_RIGHT_FACTORY_PMEM_ALLOC_ANY :: u64 where "CAP_RIGHT_FACTORY_PMEM_ALLOC_ANY = right_bit 11"

fun ipc_errno :: "ipc_status_t \<Rightarrow> int" where
  "ipc_errno IPC_OK = 0"
| "ipc_errno IPC_ERR_INVALID = -1"
| "ipc_errno IPC_ERR_NOT_FOUND = -2"
| "ipc_errno IPC_ERR_PERMISSION = -3"
| "ipc_errno IPC_ERR_ENDPOINT_CLOSED = -4"
| "ipc_errno IPC_ERR_CALLER_GONE = -5"
| "ipc_errno IPC_ERR_RECEIVER_GONE = -6"
| "ipc_errno IPC_ERR_CANCELLED = -7"
| "ipc_errno IPC_ERR_NO_MEMORY = -8"
| "ipc_errno IPC_ERR_FAILED_CAP_CREATE = -9"

datatype vm_status = VM_OK | VM_ERR_INVALID | VM_ERR_NOT_FOUND | VM_ERR_PERMISSION | VM_ERR_NO_MEMORY
  | VM_ERR_FAILED_CAP_CREATE | VM_ERR_RANGE

fun vm_errno :: "vm_status \<Rightarrow> int" where
  "vm_errno VM_OK = 0" | "vm_errno VM_ERR_INVALID = -1" | "vm_errno VM_ERR_NOT_FOUND = -2"
| "vm_errno VM_ERR_PERMISSION = -3" | "vm_errno VM_ERR_NO_MEMORY = -4"
| "vm_errno VM_ERR_FAILED_CAP_CREATE = -8" | "vm_errno VM_ERR_RANGE = -10"

datatype portio_status_t = PORTIO_OK | PORTIO_ERR_INVALID | PORTIO_ERR_NOT_FOUND | PORTIO_ERR_PERMISSION

fun portio_errno :: "portio_status_t \<Rightarrow> int" where
  "portio_errno PORTIO_OK = 0" | "portio_errno PORTIO_ERR_INVALID = -1"
| "portio_errno PORTIO_ERR_NOT_FOUND = -2" | "portio_errno PORTIO_ERR_PERMISSION = -3"

abbreviation IRQ_ERR_PERMISSION :: int where "IRQ_ERR_PERMISSION \<equiv> -3"
abbreviation EPERM :: int where "EPERM \<equiv> -1004"
abbreviation EBADHANDLE :: int where "EBADHANDLE \<equiv> -1005"
abbreviation EINTERNAL :: int where "EINTERNAL \<equiv> -1011"
abbreviation ENOSYS :: int where "ENOSYS \<equiv> -1000"

definition fail :: "int \<Rightarrow> syscall_ctx_t \<Rightarrow> kernel_state \<Rightarrow> sysout" where
  \<comment> \<open>a status in RAX, nothing else changed\<close>
  "fail st ctx k = SysReturn (ctx\<lparr>rax := of_int st\<rparr>) k"

definition irq_view :: "kernel_state \<Rightarrow> irq_state" where
  "irq_view k = (k_irq k)\<lparr>irq_notifications := notifications (k_ipc k)\<rparr>"

definition set_irq :: "irq_state \<Rightarrow> kernel_state \<Rightarrow> kernel_state" where
  "set_irq i k = k\<lparr>k_irq := i, k_ipc := (k_ipc k)\<lparr>notifications := irq_notifications i\<rparr>\<rparr>"

definition set_notify :: "notify_state \<Rightarrow> kernel_state \<Rightarrow> kernel_state" where
  "set_notify n k = k\<lparr>k_ipc := (k_ipc k)\<lparr>notifications := n\<rparr>\<rparr>"

definition resolve :: "thread_view option \<Rightarrow> u64 \<Rightarrow> cap_type_t \<Rightarrow> u64 \<Rightarrow> kernel_state \<Rightarrow> u64 option" where
  "resolve c cap ty r k =
     (case c of None \<Rightarrow> None | Some t \<Rightarrow> kcapset_resolve_handle (t_capset t) cap ty r (k_caps k))"

text \<open>
  How every creating call publishes its object: a capability, then an entry in the capability set of
  the caller; a capability that cannot be entered is destroyed again.  The outer \<open>None\<close> follows a null
  caller.
\<close>

datatype grant_error = CapCreateFailed | CapAddFailed

definition grant :: "u64 \<Rightarrow> cap_type_t \<Rightarrow> u64 \<Rightarrow> thread_view option \<Rightarrow> sysenv \<Rightarrow> kernel_state \<Rightarrow>
    ((grant_error + u64) \<times> kernel_state) option" where
  "grant obj ty r c env k =
     (case kcap_create obj ty r (cap_mem env) (k_caps k) of
        (None, s) \<Rightarrow> Some (Inl CapCreateFailed, k\<lparr>k_caps := s\<rparr>)
      | (Some cap, s) \<Rightarrow>
          (case c of
             None \<Rightarrow> None
           | Some t \<Rightarrow>
               (case kcapset_addcap (t_capset t) cap (set_mem env) s of
                  (st, s) \<Rightarrow>
                    if st \<noteq> 0 then Some (Inl CapAddFailed, k\<lparr>k_caps := snd (kcap_destroy cap s)\<rparr>)
                    else Some (Inr cap, k\<lparr>k_caps := s\<rparr>))))"

section \<open>IPC\<close>

definition undo_ipc :: "u64 \<Rightarrow> kernel_state \<Rightarrow> kernel_state option" where
  "undo_ipc ep k = map_option (\<lambda>r. k\<lparr>k_ipc := snd r\<rparr>) (kipc_destroy ep (k_ipc k))"

definition syscall_IPC_CREATE :: "thread_view option \<Rightarrow> sysenv \<Rightarrow> syscall_ctx_t \<Rightarrow> kernel_state \<Rightarrow> sysout" where
  "syscall_IPC_CREATE c env ctx k =
     (case kipc_create (obj_mem env) (k_ipc k) of
        (Inl st, ipc) \<Rightarrow> SysReturn (ctx\<lparr>rax := of_int (ipc_errno st), rdi := IPC_INVALID_HANDLE\<rparr>) (k\<lparr>k_ipc := ipc\<rparr>)
      | (Inr ep, ipc) \<Rightarrow>
          (case grant ep CAP_TYPE_IPC (CAP_VALID_RIGHTS CAP_TYPE_IPC) c env (k\<lparr>k_ipc := ipc\<rparr>) of
             None \<Rightarrow> SysFault
           | Some (Inr cap, k) \<Rightarrow> SysReturn (ctx\<lparr>rax := 0, rdi := cap\<rparr>) k
           | Some (Inl _, k) \<Rightarrow>
               (case undo_ipc ep k of
                  None \<Rightarrow> SysFault
                | Some k \<Rightarrow> SysReturn (ctx\<lparr>rax := of_int (ipc_errno IPC_ERR_FAILED_CAP_CREATE), rdi := IPC_INVALID_HANDLE\<rparr>) k)))"

definition syscall_IPC_CREATE_PUB :: "thread_view option \<Rightarrow> sysenv \<Rightarrow> syscall_ctx_t \<Rightarrow> kernel_state \<Rightarrow> sysout" where
  \<comment> \<open>when the capability cannot be created the invalid handle goes to RDX, and RDI keeps its value\<close>
  "syscall_IPC_CREATE_PUB c env ctx k =
     (case kipc_create_publisher (obj_mem env) (k_ipc k) of
        None \<Rightarrow> SysFault
      | Some (Inl st, ipc) \<Rightarrow> SysReturn (ctx\<lparr>rax := of_int (ipc_errno st), rdi := IPC_INVALID_HANDLE\<rparr>) (k\<lparr>k_ipc := ipc\<rparr>)
      | Some (Inr ep, ipc) \<Rightarrow>
          (case grant ep CAP_TYPE_IPC (CAP_VALID_RIGHTS CAP_TYPE_IPC) c env (k\<lparr>k_ipc := ipc\<rparr>) of
             None \<Rightarrow> SysFault
           | Some (Inr cap, k) \<Rightarrow> SysReturn (ctx\<lparr>rax := 0, rdi := cap\<rparr>) k
           | Some (Inl e, k) \<Rightarrow>
               (case undo_ipc ep k of
                  None \<Rightarrow> SysFault
                | Some k \<Rightarrow>
                    let ctx = ctx\<lparr>rax := of_int (ipc_errno IPC_ERR_FAILED_CAP_CREATE)\<rparr> in
                    SysReturn (case e of CapCreateFailed \<Rightarrow> ctx\<lparr>rdx := IPC_INVALID_HANDLE\<rparr>
                                       | CapAddFailed \<Rightarrow> ctx\<lparr>rdi := IPC_INVALID_HANDLE\<rparr>) k)))"

definition syscall_IPC_SUBSCRIBE :: "thread_view option \<Rightarrow> sysenv \<Rightarrow> syscall_ctx_t \<Rightarrow> kernel_state \<Rightarrow> sysout" where
  \<comment> \<open>RDI gets the endpoint handle itself\<close>
  "syscall_IPC_SUBSCRIBE c env ctx k =
     (if c = None then SysFault
      else case resolve c (rdi ctx) CAP_TYPE_IPC CAP_RIGHT_IPC_SUBSCRIBE k of
        None \<Rightarrow> fail (ipc_errno IPC_ERR_PERMISSION) ctx k
      | Some ep \<Rightarrow>
          (case kipc_subscribe ep (obj_mem env) (aux_mem env) (k_ipc k) of
             None \<Rightarrow> SysFault
           | Some (r, ipc) \<Rightarrow>
               SysReturn (case r of Inl st \<Rightarrow> ctx\<lparr>rax := of_int (ipc_errno st), rdi := IPC_INVALID_HANDLE\<rparr>
                                  | Inr sub \<Rightarrow> ctx\<lparr>rax := 0, rdi := sub\<rparr>) (k\<lparr>k_ipc := ipc\<rparr>)))"

definition enter_ipc :: "call \<Rightarrow> kernel_state \<Rightarrow> sysout" where
  "enter_ipc call k =
     (case kipc_call call (k_ipc k) of
        Step pc ipc \<Rightarrow> SysEnter (InIpc pc) (k\<lparr>k_ipc := ipc\<rparr>)
      | _ \<Rightarrow> SysFault)"

definition syscall_IPC_SEND :: "thread_view option \<Rightarrow> syscall_ctx_t \<Rightarrow> kernel_state \<Rightarrow> sysout" where
  "syscall_IPC_SEND c ctx k =
     (case c of
        None \<Rightarrow> SysFault
      | Some t \<Rightarrow>
          (let msg = \<lparr>m_type = IPC_MSGTYPE_SEND, sender_tid = t_id t, words = [rsi ctx, rdx ctx, r10 ctx, r8 ctx, r9 ctx]\<rparr> in
           case resolve c (rdi ctx) CAP_TYPE_IPC CAP_RIGHT_IPC_SEND k of
             None \<Rightarrow> fail (ipc_errno IPC_ERR_PERMISSION) ctx k
           | Some ep \<Rightarrow> enter_ipc (CSend (t_id t) ep msg) k))"

definition syscall_IPC_RECV :: "thread_view option \<Rightarrow> syscall_ctx_t \<Rightarrow> kernel_state \<Rightarrow> sysout" where
  "syscall_IPC_RECV c ctx k =
     (if c = None then SysFault
      else case resolve c (rdi ctx) CAP_TYPE_IPC CAP_RIGHT_IPC_RECV k of
        None \<Rightarrow> fail (ipc_errno IPC_ERR_PERMISSION) ctx k
      | Some ep \<Rightarrow> enter_ipc (CRecv ep) k)"

fun ipc_send_return :: "ipc_status_t + ipc_message_t \<Rightarrow> syscall_ctx_t \<Rightarrow> syscall_ctx_t" where
  \<comment> \<open>the registers when kipc_send is back\<close>
  "ipc_send_return (Inl st) ctx = ctx\<lparr>rax := of_int (ipc_errno st)\<rparr>"
| "ipc_send_return (Inr m) ctx = ctx"

fun msgtype_code :: "ipc_message_type_t \<Rightarrow> u64" where
  "msgtype_code IPC_MSGTYPE_SEND = 0"

fun ipc_recv_return :: "ipc_status_t + ipc_message_t \<Rightarrow> syscall_ctx_t \<Rightarrow> syscall_ctx_t" where
  "ipc_recv_return (Inl st) ctx = ctx\<lparr>rax := of_int (ipc_errno st)\<rparr>"
| "ipc_recv_return (Inr m) ctx =
     ctx\<lparr>rax := msgtype_code (m_type m), rdi := sender_tid m, rsi := words m ! 0, rdx := words m ! 1,
         r10 := words m ! 2, r8 := words m ! 3, r9 := words m ! 4\<rparr>"

definition syscall_IPC_TRY_RECV :: "thread_view option \<Rightarrow> syscall_ctx_t \<Rightarrow> kernel_state \<Rightarrow> sysout" where
  "syscall_IPC_TRY_RECV c ctx k =
     (if c = None then SysFault
      else case resolve c (rdi ctx) CAP_TYPE_IPC CAP_RIGHT_IPC_RECV k of
        None \<Rightarrow> fail (ipc_errno IPC_ERR_PERMISSION) ctx k
      | Some ep \<Rightarrow>
          (case kipc_recv_nb ep (k_ipc k) of
             None \<Rightarrow> SysFault
           | Some (r, ipc) \<Rightarrow> SysReturn (ipc_recv_return r ctx) (k\<lparr>k_ipc := ipc\<rparr>)))"

definition ret_ipc :: "syscall_ctx_t \<Rightarrow> kernel_state \<Rightarrow> (ipc_status_t \<times> ipc_state) option \<Rightarrow> sysout" where
  "ret_ipc ctx k r =
     (case r of None \<Rightarrow> SysFault | Some (st, ipc) \<Rightarrow> SysReturn (ctx\<lparr>rax := of_int (ipc_errno st)\<rparr>) (k\<lparr>k_ipc := ipc\<rparr>))"

definition syscall_IPC_BIND_NOTIFY :: "thread_view option \<Rightarrow> sysenv \<Rightarrow> syscall_ctx_t \<Rightarrow> kernel_state \<Rightarrow> sysout" where
  "syscall_IPC_BIND_NOTIFY c env ctx k =
     (case (resolve c (rdi ctx) CAP_TYPE_IPC CAP_RIGHT_IPC_RECV k, resolve c (rsi ctx) CAP_TYPE_NOTIFY CAP_RIGHT_NOTIFY_SIGNAL k) of
        (Some ep, Some n) \<Rightarrow> ret_ipc ctx k (kipc_bind_notify ep n (rdx ctx) (aux_mem env) (k_ipc k))
      | _ \<Rightarrow> fail (ipc_errno IPC_ERR_PERMISSION) ctx k)"

definition syscall_IPC_UNBIND_NOTIFY :: "thread_view option \<Rightarrow> syscall_ctx_t \<Rightarrow> kernel_state \<Rightarrow> sysout" where
  "syscall_IPC_UNBIND_NOTIFY c ctx k =
     (case (resolve c (rdi ctx) CAP_TYPE_IPC CAP_RIGHT_IPC_RECV k, resolve c (rsi ctx) CAP_TYPE_NOTIFY CAP_RIGHT_NOTIFY_SIGNAL k) of
        (Some ep, Some n) \<Rightarrow> ret_ipc ctx k (kipc_unbind_notify ep n (k_ipc k))
      | _ \<Rightarrow> fail (ipc_errno IPC_ERR_PERMISSION) ctx k)"

section \<open>Capabilities\<close>

definition syscall_CAP_REMOVE :: "thread_view option \<Rightarrow> syscall_ctx_t \<Rightarrow> kernel_state \<Rightarrow> sysout" where
  "syscall_CAP_REMOVE c ctx k =
     (case c of
        None \<Rightarrow> SysFault
      | Some t \<Rightarrow>
          (case kcapset_resolve_record (t_capset t) (rdi ctx) CAP_RIGHT_REMOVE (k_caps k) of
             None \<Rightarrow> fail EBADHANDLE ctx k
           | Some _ \<Rightarrow>
               (case kcap_destroy (rdi ctx) (k_caps k) of
                  (st, s) \<Rightarrow>
                    if st \<noteq> 0 then fail EINTERNAL ctx (k\<lparr>k_caps := s\<rparr>)
                    else (case kcapset_delcap (t_capset t) (rdi ctx) s of
                            (st, s) \<Rightarrow> fail (if st \<noteq> 0 then EINTERNAL else 0) ctx (k\<lparr>k_caps := s\<rparr>)))))"

definition word_bytes :: "u64 \<Rightarrow> u8 list" where
  \<comment> \<open>memcpy of a register, little endian\<close>
  "word_bytes w = map (\<lambda>i. ucast (drop_bit (8 * i) w)) [0 ..< 8]"

definition bytes_word :: "u8 list \<Rightarrow> u64" where
  "bytes_word bs = foldr (\<lambda>b w. push_bit 8 w OR ucast b) bs 0"

definition syscall_CAP_SETNAME :: "thread_view option \<Rightarrow> sysenv \<Rightarrow> syscall_ctx_t \<Rightarrow> kernel_state \<Rightarrow> sysout" where
  "syscall_CAP_SETNAME c env ctx k =
     (case c of
        None \<Rightarrow> fail (-1) ctx k
      | Some t \<Rightarrow>
          if unat (rsi ctx) > KCAP_NAME_MAX \<or> kcapset_resolve_record (t_capset t) (rdi ctx) CAP_RIGHT_SETNAME (k_caps k) = None
          then fail (-1) ctx k
          else
            let name = word_bytes (rdx ctx) @ word_bytes (r10 ctx) @ word_bytes (r8 ctx) @ word_bytes (r9 ctx) in
            case kcap_set_name (rdi ctx) (Some name) (unat (rsi ctx)) (aux_mem env) (k_caps k) of
              (st, s) \<Rightarrow> SysReturn (ctx\<lparr>rax := of_int st\<rparr>) (k\<lparr>k_caps := s\<rparr>))"

definition syscall_CAP_GETNAME :: "thread_view option \<Rightarrow> syscall_ctx_t \<Rightarrow> kernel_state \<Rightarrow> sysout" where
  "syscall_CAP_GETNAME c ctx k =
     (let out_size = unat (rsi ctx); ctx = ctx\<lparr>rdx := 0, r10 := 0, r8 := 0, r9 := 0, rsi := 0\<rparr> in
      case c of
        None \<Rightarrow> fail (-1) ctx k
      | Some t \<Rightarrow>
          if kcapset_resolve_record (t_capset t) (rdi ctx) CAP_RIGHT_GETNAME (k_caps k) = None then fail (-1) ctx k
          else case kcap_get_name (rdi ctx) out_size (k_caps k) of
            (st, len, name) \<Rightarrow>
              let ctx = ctx\<lparr>rsi := of_nat (case len of None \<Rightarrow> 0 | Some n \<Rightarrow> n)\<rparr>;
                  buf = (case name of None \<Rightarrow> [] | Some n \<Rightarrow> n) @ replicate KCAP_NAME_MAX 0;
                  ctx = (if st = 0 then ctx\<lparr>rdx := bytes_word (take 8 buf), r10 := bytes_word (take 8 (drop 8 buf)),
                                            r8 := bytes_word (take 8 (drop 16 buf)), r9 := bytes_word (take 8 (drop 24 buf))\<rparr>
                         else ctx) in
              SysReturn (ctx\<lparr>rax := of_int st\<rparr>) k)"

section \<open>Physical memory\<close>

definition fail_pmem :: "vm_status \<Rightarrow> syscall_ctx_t \<Rightarrow> kernel_state \<Rightarrow> sysout" where
  "fail_pmem st ctx k = SysReturn (ctx\<lparr>rax := of_int (vm_errno st), rsi := CAP_INVALID_HANDLE, rdx := 0\<rparr>) k"

definition undo_pmem :: "u64 \<Rightarrow> kernel_state \<Rightarrow> kernel_state option" where
  "undo_pmem h k =
     map_option (\<lambda>r. k\<lparr>k_pmem := snd r, k_freed := k_freed k @ (case fst r of None \<Rightarrow> [] | Some runs \<Rightarrow> runs)\<rparr>)
       (kpmem_destroy h (k_pmem k))"

definition publish_pmem :: "u64 \<Rightarrow> u64 \<Rightarrow> u64 \<Rightarrow> thread_view option \<Rightarrow> sysenv \<Rightarrow> syscall_ctx_t \<Rightarrow> kernel_state \<Rightarrow> sysout" where
  \<comment> \<open>the common end of PMEM_ALLOC and PMEM_DERIVE\<close>
  "publish_pmem h len r c env ctx k =
     (case grant h CAP_TYPE_PMEM r c env k of
        None \<Rightarrow> SysFault
      | Some (Inr cap, k) \<Rightarrow> SysReturn (ctx\<lparr>rax := of_int (vm_errno VM_OK), rsi := cap, rdx := len\<rparr>) k
      | Some (Inl _, k) \<Rightarrow>
          (case undo_pmem h k of None \<Rightarrow> SysFault | Some k \<Rightarrow> fail_pmem VM_ERR_FAILED_CAP_CREATE ctx k))"

definition PMEM_REQUESTABLE :: u64 where
  "PMEM_REQUESTABLE = right_bit 10 OR right_bit 11 OR right_bit 12 OR right_bit 13 OR right_bit 14 OR right_bit 15"

definition syscall_PMEM_ALLOC :: "thread_view option \<Rightarrow> sysenv \<Rightarrow> syscall_ctx_t \<Rightarrow> kernel_state \<Rightarrow> sysout" where
  "syscall_PMEM_ALLOC c env ctx k =
     (let base = rsi ctx; len = rdx ctx; req = r10 ctx; flags = r8 ctx; any = (flags AND 1 \<noteq> 0) in
      if c = None \<or> flags AND NOT 1 \<noteq> 0 \<or> req AND NOT PMEM_REQUESTABLE \<noteq> 0 \<or> len = 0 then fail_pmem VM_ERR_INVALID ctx k
      else if any \<and> (base mod PAGE_SIZE \<noteq> 0 \<or> len mod PAGE_SIZE \<noteq> 0 \<or> len > UINT64_MAX - base) then fail_pmem VM_ERR_INVALID ctx k
      else if \<not> any \<and> (base \<noteq> 0 \<or> len > UINT64_MAX - (PAGE_SIZE - 1)) then fail_pmem VM_ERR_INVALID ctx k
      else case resolve c (rdi ctx) CAP_TYPE_FACTORY_PMEM
                  (if any then CAP_RIGHT_FACTORY_PMEM_ALLOC_ANY else CAP_RIGHT_FACTORY_PMEM_ALLOC_ANON) k of
        None \<Rightarrow> fail_pmem VM_ERR_PERMISSION ctx k
      | Some _ \<Rightarrow>
          if any then
            (case kpmem_create (obj_mem env) base len (k_pmem k) of
               (None, p) \<Rightarrow> fail_pmem VM_ERR_NO_MEMORY ctx (k\<lparr>k_pmem := p\<rparr>)
             | (Some h, p) \<Rightarrow> publish_pmem h len (CAP_GENERIC_VALID_RIGHTS OR req) c env ctx (k\<lparr>k_pmem := p\<rparr>))
          else
            (case kpmem_alloc_owned_pages (obj_mem env) (page_mem env) len (k_pmem k) of
               (None, runs, p) \<Rightarrow> fail_pmem VM_ERR_NO_MEMORY ctx (k\<lparr>k_pmem := p, k_freed := k_freed k @ runs\<rparr>)
             | (Some (h, actual), runs, p) \<Rightarrow>
                 publish_pmem h actual (CAP_GENERIC_VALID_RIGHTS OR req) c env ctx (k\<lparr>k_pmem := p\<rparr>)))"

definition syscall_PMEM_DERIVE :: "thread_view option \<Rightarrow> sysenv \<Rightarrow> syscall_ctx_t \<Rightarrow> kernel_state \<Rightarrow> sysout" where
  "syscall_PMEM_DERIVE c env ctx k =
     (let offset = rsi ctx; len = rdx ctx; req = r10 ctx in
      case c of
        None \<Rightarrow> fail_pmem VM_ERR_INVALID ctx k
      | Some t \<Rightarrow>
          if req AND NOT (CAP_VALID_RIGHTS CAP_TYPE_PMEM) \<noteq> 0 \<or> len = 0 \<or> offset mod PAGE_SIZE \<noteq> 0 \<or> len mod PAGE_SIZE \<noteq> 0
          then fail_pmem VM_ERR_INVALID ctx k
          else case kcapset_resolve_record (t_capset t) (rdi ctx) CAP_RIGHT_PMEM_DERIVE (k_caps k) of
            None \<Rightarrow> fail_pmem VM_ERR_PERMISSION ctx k
          | Some src \<Rightarrow>
              if ctype src \<noteq> CAP_TYPE_PMEM \<or> req AND NOT (rights src) \<noteq> 0 then fail_pmem VM_ERR_PERMISSION ctx k
              else case kpmem_get (obj_handle src) (k_pmem k) of
                None \<Rightarrow> SysFault
              | Some None \<Rightarrow> fail_pmem VM_ERR_NOT_FOUND ctx k
              | Some (Some (_, base, slen, _)) \<Rightarrow>
                  if offset > slen \<or> len > slen - offset \<or> offset > UINT64_MAX - base then fail_pmem VM_ERR_RANGE ctx k
                  else if (base + offset) mod PAGE_SIZE \<noteq> 0 then fail_pmem VM_ERR_INVALID ctx k
                  else case kpmem_derive (obj_mem env) (obj_handle src) (base + offset) len (k_pmem k) of
                    None \<Rightarrow> SysFault
                  | Some (None, p) \<Rightarrow> fail_pmem VM_ERR_INVALID ctx (k\<lparr>k_pmem := p\<rparr>)
                  | Some (Some h, p) \<Rightarrow> publish_pmem h len req c env ctx (k\<lparr>k_pmem := p\<rparr>))"

section \<open>I/O ports\<close>

definition syscall_portio_resolve :: "thread_view option \<Rightarrow> syscall_ctx_t \<Rightarrow> u64 \<Rightarrow> bool \<Rightarrow> kernel_state \<Rightarrow> portio_status_t + u64" where
  "syscall_portio_resolve c ctx r require_offset k =
     (if c = None \<or> rdi ctx = CAP_INVALID_HANDLE then Inl PORTIO_ERR_INVALID
      else if require_offset \<and> rsi ctx > 0xffffffff then Inl PORTIO_ERR_INVALID
      else case resolve c (rdi ctx) CAP_TYPE_PORTIO r k of
        None \<Rightarrow> Inl PORTIO_ERR_PERMISSION
      | Some h \<Rightarrow> if kportio_get h (irq_ports (k_irq k)) = None then Inl PORTIO_ERR_NOT_FOUND else Inr h)"

definition port_in :: "(u64 \<Rightarrow> u32 \<Rightarrow> portio_state \<Rightarrow> ('w :: len) word option) \<Rightarrow> thread_view option \<Rightarrow> syscall_ctx_t \<Rightarrow> kernel_state \<Rightarrow> sysout" where
  "port_in rd c ctx k =
     (let ctx = ctx\<lparr>rdx := 0\<rparr> in
      case syscall_portio_resolve c ctx CAP_RIGHT_PORTIO_READ True k of
        Inl st \<Rightarrow> fail (portio_errno st) ctx k
      | Inr h \<Rightarrow>
          (case rd h (ucast (rsi ctx)) (irq_ports (k_irq k)) of
             None \<Rightarrow> fail (portio_errno PORTIO_ERR_INVALID) ctx k
           | Some v \<Rightarrow> SysReturn (ctx\<lparr>rax := 0, rdx := ucast v\<rparr>) k))"

definition port_out :: "(u64 \<Rightarrow> u32 \<Rightarrow> ('w :: len) word \<Rightarrow> portio_state \<Rightarrow> port_write option) \<Rightarrow> thread_view option \<Rightarrow> syscall_ctx_t \<Rightarrow> kernel_state \<Rightarrow> sysout" where
  "port_out wr c ctx k =
     (case syscall_portio_resolve c ctx CAP_RIGHT_PORTIO_WRITE True k of
        Inl st \<Rightarrow> fail (portio_errno st) ctx k
      | Inr h \<Rightarrow>
          (case wr h (ucast (rsi ctx)) (ucast (rdx ctx)) (irq_ports (k_irq k)) of
             None \<Rightarrow> fail (portio_errno PORTIO_ERR_INVALID) ctx k
           | Some w \<Rightarrow> SysReturn (ctx\<lparr>rax := 0\<rparr>) (k\<lparr>k_writes := k_writes k @ [w]\<rparr>)))"

definition syscall_PORT_INB :: "thread_view option \<Rightarrow> sysenv \<Rightarrow> syscall_ctx_t \<Rightarrow> kernel_state \<Rightarrow> sysout" where
  "syscall_PORT_INB c env ctx k = port_in (kportio_inb (dev_inb env)) c ctx k"

definition syscall_PORT_INW :: "thread_view option \<Rightarrow> sysenv \<Rightarrow> syscall_ctx_t \<Rightarrow> kernel_state \<Rightarrow> sysout" where
  "syscall_PORT_INW c env ctx k = port_in (kportio_inw (dev_inw env)) c ctx k"

definition syscall_PORT_INL :: "thread_view option \<Rightarrow> sysenv \<Rightarrow> syscall_ctx_t \<Rightarrow> kernel_state \<Rightarrow> sysout" where
  "syscall_PORT_INL c env ctx k = port_in (kportio_inl (dev_inl env)) c ctx k"

definition syscall_PORT_OUTB :: "thread_view option \<Rightarrow> syscall_ctx_t \<Rightarrow> kernel_state \<Rightarrow> sysout" where
  "syscall_PORT_OUTB c ctx k = port_out kportio_outb c ctx k"

definition syscall_PORT_OUTW :: "thread_view option \<Rightarrow> syscall_ctx_t \<Rightarrow> kernel_state \<Rightarrow> sysout" where
  "syscall_PORT_OUTW c ctx k = port_out kportio_outw c ctx k"

definition syscall_PORT_OUTL :: "thread_view option \<Rightarrow> syscall_ctx_t \<Rightarrow> kernel_state \<Rightarrow> sysout" where
  "syscall_PORT_OUTL c ctx k = port_out kportio_outl c ctx k"

section \<open>Interrupts and notifications\<close>

definition syscall_IRQ_WAIT :: "thread_view option \<Rightarrow> syscall_ctx_t \<Rightarrow> kernel_state \<Rightarrow> sysout" where
  "syscall_IRQ_WAIT c ctx k =
     (if c = None then SysFault
      else case resolve c (rdi ctx) CAP_TYPE_IRQ CAP_RIGHT_IRQ_WAIT k of
        None \<Rightarrow> fail IRQ_ERR_PERMISSION ctx k
      | Some h \<Rightarrow>
          (case kirq_wait h (irq_view k) of
             (IrqReturns st, i) \<Rightarrow> SysReturn (ctx\<lparr>rax := of_int st\<rparr>) (set_irq i k)
           | (IrqWaits, i) \<Rightarrow> SysEnter (InIrqWait h) (set_irq i k)))"

definition syscall_IRQ_ACK :: "thread_view option \<Rightarrow> syscall_ctx_t \<Rightarrow> kernel_state \<Rightarrow> sysout" where
  "syscall_IRQ_ACK c ctx k =
     (if c = None then SysFault
      else case resolve c (rdi ctx) CAP_TYPE_IRQ CAP_RIGHT_IRQ_ACK k of
        None \<Rightarrow> fail IRQ_ERR_PERMISSION ctx k
      | Some h \<Rightarrow>
          (case kirq_ack h (irq_view k) of
             (ws, st) \<Rightarrow> SysReturn (ctx\<lparr>rax := of_int st\<rparr>) (k\<lparr>k_writes := k_writes k @ ws\<rparr>)))"

definition ret_irq :: "syscall_ctx_t \<Rightarrow> kernel_state \<Rightarrow> (int \<times> irq_state) option \<Rightarrow> sysout" where
  "ret_irq ctx k r =
     (case r of None \<Rightarrow> SysFault | Some (st, i) \<Rightarrow> SysReturn (ctx\<lparr>rax := of_int st\<rparr>) (set_irq i k))"

definition syscall_IRQ_BIND :: "thread_view option \<Rightarrow> sysenv \<Rightarrow> syscall_ctx_t \<Rightarrow> kernel_state \<Rightarrow> sysout" where
  "syscall_IRQ_BIND c env ctx k =
     (case (resolve c (rdi ctx) CAP_TYPE_IRQ CAP_RIGHT_IRQ_ACK k, resolve c (rsi ctx) CAP_TYPE_NOTIFY CAP_RIGHT_NOTIFY_SIGNAL k) of
        (Some h, Some n) \<Rightarrow> ret_irq ctx k (kirq_bind_notify h n (rdx ctx) (aux_mem env) (irq_view k))
      | _ \<Rightarrow> fail IRQ_ERR_PERMISSION ctx k)"

definition syscall_IRQ_UNBIND :: "thread_view option \<Rightarrow> syscall_ctx_t \<Rightarrow> kernel_state \<Rightarrow> sysout" where
  "syscall_IRQ_UNBIND c ctx k =
     (case (resolve c (rdi ctx) CAP_TYPE_IRQ CAP_RIGHT_IRQ_ACK k, resolve c (rsi ctx) CAP_TYPE_NOTIFY CAP_RIGHT_NOTIFY_SIGNAL k) of
        (Some h, Some n) \<Rightarrow> ret_irq ctx k (kirq_unbind_notify h n (irq_view k))
      | _ \<Rightarrow> fail IRQ_ERR_PERMISSION ctx k)"

definition undo_notify :: "u64 \<Rightarrow> kernel_state \<Rightarrow> kernel_state option" where
  "undo_notify n k = map_option (\<lambda>r. set_notify (snd r) k) (knotify_destroy n (notifications (k_ipc k)))"

definition syscall_NOTIFY_CREATE :: "thread_view option \<Rightarrow> sysenv \<Rightarrow> syscall_ctx_t \<Rightarrow> kernel_state \<Rightarrow> sysout" where
  "syscall_NOTIFY_CREATE c env ctx k =
     (let failed = SysReturn (ctx\<lparr>rax := of_int (-1), rdi := CAP_INVALID_HANDLE\<rparr>) in
      if c = None then failed k
      else case knotify_create (obj_mem env) (notifications (k_ipc k)) of
        (None, m) \<Rightarrow> failed (set_notify m k)
      | (Some n, m) \<Rightarrow>
          (case grant n CAP_TYPE_NOTIFY (CAP_VALID_RIGHTS CAP_TYPE_NOTIFY) c env (set_notify m k) of
             None \<Rightarrow> SysFault
           | Some (Inr cap, k) \<Rightarrow> SysReturn (ctx\<lparr>rax := 0, rdi := cap\<rparr>) k
           | Some (Inl _, k) \<Rightarrow> (case undo_notify n k of None \<Rightarrow> SysFault | Some k \<Rightarrow> failed k)))"

definition syscall_NOTIFY_WAIT :: "thread_view option \<Rightarrow> syscall_ctx_t \<Rightarrow> kernel_state \<Rightarrow> sysout" where
  "syscall_NOTIFY_WAIT c ctx k =
     (case resolve c (rdi ctx) CAP_TYPE_NOTIFY CAP_RIGHT_NOTIFY_WAIT k of
        None \<Rightarrow> fail (-1) ctx k
      | Some n \<Rightarrow>
          (case knotify_wait_enter n (rsi ctx) (notifications (k_ipc k)) of
             (pc, m) \<Rightarrow> SysEnter (InNotify pc) (set_notify m k)))"

definition syscall_NOTIFY_POLL :: "thread_view option \<Rightarrow> syscall_ctx_t \<Rightarrow> kernel_state \<Rightarrow> sysout" where
  "syscall_NOTIFY_POLL c ctx k =
     (let ctx = ctx\<lparr>rdx := 0\<rparr> in
      case resolve c (rdi ctx) CAP_TYPE_NOTIFY CAP_RIGHT_NOTIFY_WAIT k of
        None \<Rightarrow> fail (-1) ctx k
      | Some n \<Rightarrow>
          (case knotify_poll n (notifications (k_ipc k)) of
             None \<Rightarrow> SysFault
           | Some (None, m) \<Rightarrow> fail (-1) ctx (set_notify m k)
           | Some (Some bits, m) \<Rightarrow> SysReturn (ctx\<lparr>rax := 0, rdx := bits\<rparr>) (set_notify m k)))"

definition ret_notify :: "syscall_ctx_t \<Rightarrow> kernel_state \<Rightarrow> (int \<times> notify_state) option \<Rightarrow> sysout" where
  "ret_notify ctx k r =
     (case r of None \<Rightarrow> SysFault | Some (st, m) \<Rightarrow> SysReturn (ctx\<lparr>rax := of_int st\<rparr>) (set_notify m k))"

definition syscall_NOTIFY_ACK :: "thread_view option \<Rightarrow> syscall_ctx_t \<Rightarrow> kernel_state \<Rightarrow> sysout" where
  "syscall_NOTIFY_ACK c ctx k =
     (case resolve c (rdi ctx) CAP_TYPE_NOTIFY CAP_RIGHT_NOTIFY_ACK k of
        None \<Rightarrow> fail (-1) ctx k
      | Some n \<Rightarrow> ret_notify ctx k (knotify_ack n (rsi ctx) (notifications (k_ipc k))))"

definition syscall_NOTIFY_SIGNAL :: "thread_view option \<Rightarrow> syscall_ctx_t \<Rightarrow> kernel_state \<Rightarrow> sysout" where
  "syscall_NOTIFY_SIGNAL c ctx k =
     (case resolve c (rdi ctx) CAP_TYPE_NOTIFY CAP_RIGHT_NOTIFY_SIGNAL k of
        None \<Rightarrow> fail (-1) ctx k
      | Some n \<Rightarrow> ret_notify ctx k (knotify_signal n (rsi ctx) (notifications (k_ipc k))))"

definition syscall_TIMER_MONOTONIC :: "sysenv \<Rightarrow> syscall_ctx_t \<Rightarrow> kernel_state \<Rightarrow> sysout" where
  "syscall_TIMER_MONOTONIC env ctx k = SysReturn (ctx\<lparr>rax := ticks_so_far k * TIMER_TICK_MS env\<rparr>) k"

definition syscall_unimplemented :: "syscall_ctx_t \<Rightarrow> kernel_state \<Rightarrow> sysout" where
  \<comment> \<open>CAP_TRANSFER, CAP_FORWARD, CAP_DERIVE, VM_PROTECT, PMEM_MERGE: the registers are left alone\<close>
  "syscall_unimplemented ctx k = SysReturn ctx k"

section \<open>The modelled part of the dispatcher\<close>

datatype sysno =
    TIMER_MONOTONIC | CAP_TRANSFER | CAP_FORWARD | CAP_DERIVE | CAP_REMOVE | CAP_SETNAME | CAP_GETNAME
  | IPC_CREATE | IPC_SEND | IPC_RECV | IPC_CREATE_PUB | IPC_SUBSCRIBE | IPC_TRY_RECV | IPC_BIND_NOTIFY | IPC_UNBIND_NOTIFY
  | VM_PROTECT | PMEM_ALLOC | PMEM_DERIVE | PMEM_MERGE
  | PORT_INB | PORT_INW | PORT_INL | PORT_OUTB | PORT_OUTW | PORT_OUTL
  | IRQ_WAIT | IRQ_ACK | IRQ_BIND | IRQ_UNBIND
  | NOTIFY_CREATE | NOTIFY_WAIT | NOTIFY_POLL | NOTIFY_ACK | NOTIFY_SIGNAL

fun sys_exec :: "sysno \<Rightarrow> thread_view option \<Rightarrow> sysenv \<Rightarrow> syscall_ctx_t \<Rightarrow> kernel_state \<Rightarrow> sysout" where
  "sys_exec TIMER_MONOTONIC c env ctx k = syscall_TIMER_MONOTONIC env ctx k"
| "sys_exec CAP_TRANSFER c env ctx k = syscall_unimplemented ctx k"
| "sys_exec CAP_FORWARD c env ctx k = syscall_unimplemented ctx k"
| "sys_exec CAP_DERIVE c env ctx k = syscall_unimplemented ctx k"
| "sys_exec CAP_REMOVE c env ctx k = syscall_CAP_REMOVE c ctx k"
| "sys_exec CAP_SETNAME c env ctx k = syscall_CAP_SETNAME c env ctx k"
| "sys_exec CAP_GETNAME c env ctx k = syscall_CAP_GETNAME c ctx k"
| "sys_exec IPC_CREATE c env ctx k = syscall_IPC_CREATE c env ctx k"
| "sys_exec IPC_SEND c env ctx k = syscall_IPC_SEND c ctx k"
| "sys_exec IPC_RECV c env ctx k = syscall_IPC_RECV c ctx k"
| "sys_exec IPC_CREATE_PUB c env ctx k = syscall_IPC_CREATE_PUB c env ctx k"
| "sys_exec IPC_SUBSCRIBE c env ctx k = syscall_IPC_SUBSCRIBE c env ctx k"
| "sys_exec IPC_TRY_RECV c env ctx k = syscall_IPC_TRY_RECV c ctx k"
| "sys_exec IPC_BIND_NOTIFY c env ctx k = syscall_IPC_BIND_NOTIFY c env ctx k"
| "sys_exec IPC_UNBIND_NOTIFY c env ctx k = syscall_IPC_UNBIND_NOTIFY c ctx k"
| "sys_exec VM_PROTECT c env ctx k = syscall_unimplemented ctx k"
| "sys_exec PMEM_ALLOC c env ctx k = syscall_PMEM_ALLOC c env ctx k"
| "sys_exec PMEM_DERIVE c env ctx k = syscall_PMEM_DERIVE c env ctx k"
| "sys_exec PMEM_MERGE c env ctx k = syscall_unimplemented ctx k"
| "sys_exec PORT_INB c env ctx k = syscall_PORT_INB c env ctx k"
| "sys_exec PORT_INW c env ctx k = syscall_PORT_INW c env ctx k"
| "sys_exec PORT_INL c env ctx k = syscall_PORT_INL c env ctx k"
| "sys_exec PORT_OUTB c env ctx k = syscall_PORT_OUTB c ctx k"
| "sys_exec PORT_OUTW c env ctx k = syscall_PORT_OUTW c ctx k"
| "sys_exec PORT_OUTL c env ctx k = syscall_PORT_OUTL c ctx k"
| "sys_exec IRQ_WAIT c env ctx k = syscall_IRQ_WAIT c ctx k"
| "sys_exec IRQ_ACK c env ctx k = syscall_IRQ_ACK c ctx k"
| "sys_exec IRQ_BIND c env ctx k = syscall_IRQ_BIND c env ctx k"
| "sys_exec IRQ_UNBIND c env ctx k = syscall_IRQ_UNBIND c ctx k"
| "sys_exec NOTIFY_CREATE c env ctx k = syscall_NOTIFY_CREATE c env ctx k"
| "sys_exec NOTIFY_WAIT c env ctx k = syscall_NOTIFY_WAIT c ctx k"
| "sys_exec NOTIFY_POLL c env ctx k = syscall_NOTIFY_POLL c ctx k"
| "sys_exec NOTIFY_ACK c env ctx k = syscall_NOTIFY_ACK c ctx k"
| "sys_exec NOTIFY_SIGNAL c env ctx k = syscall_NOTIFY_SIGNAL c ctx k"

lemmas syscall_defs =
  syscall_TIMER_MONOTONIC_def syscall_unimplemented_def syscall_CAP_REMOVE_def syscall_CAP_SETNAME_def syscall_CAP_GETNAME_def
  syscall_IPC_CREATE_def syscall_IPC_SEND_def syscall_IPC_RECV_def syscall_IPC_CREATE_PUB_def syscall_IPC_SUBSCRIBE_def
  syscall_IPC_TRY_RECV_def syscall_IPC_BIND_NOTIFY_def syscall_IPC_UNBIND_NOTIFY_def syscall_PMEM_ALLOC_def syscall_PMEM_DERIVE_def
  syscall_PORT_INB_def syscall_PORT_INW_def syscall_PORT_INL_def syscall_PORT_OUTB_def syscall_PORT_OUTW_def syscall_PORT_OUTL_def
  syscall_IRQ_WAIT_def syscall_IRQ_ACK_def syscall_IRQ_BIND_def syscall_IRQ_UNBIND_def
  syscall_NOTIFY_CREATE_def syscall_NOTIFY_WAIT_def syscall_NOTIFY_POLL_def syscall_NOTIFY_ACK_def syscall_NOTIFY_SIGNAL_def

text \<open>The state after the subsystems are initialised, and a caller for the examples.\<close>

definition kernel_boot :: kernel_state where
  "kernel_boot = \<lparr>k_caps = snd (kinit_caps True), k_ipc = kipc_init knotify_init, k_irq = irq_boot, k_pmem = kpmem_init,
     k_writes = [], k_freed = [], ticks_so_far = 0\<rparr>"

definition demo_thread :: thread_view where "demo_thread = \<lparr>t_id = 1, t_capset = 1\<rparr>"

definition demo_env :: sysenv where
  "demo_env = \<lparr>obj_mem = Some 1, aux_mem = True, cap_mem = True, set_mem = True, page_mem = (\<lambda>n. None),
     dev_inb = (\<lambda>p. 0), dev_inw = (\<lambda>p. 0), dev_inl = (\<lambda>p. 0), TIMER_TICK_MS = 1\<rparr>"

definition demo_ctx :: syscall_ctx_t where
  "demo_ctx = \<lparr>rax = 0, rdi = 1, rsi = 1, rdx = 0, r10 = 0, r8 = 0, r9 = 0\<rparr>"

section \<open>Mediation\<close>

text \<open>
  The authority a call needs: capability handles in registers, each with the object type (any type for
  the calls on a capability itself) and the rights it must carry.
\<close>

fun sys_needs :: "sysno \<Rightarrow> syscall_ctx_t \<Rightarrow> (u64 \<times> cap_type_t option \<times> u64) list" where
  "sys_needs CAP_REMOVE ctx = [(rdi ctx, None, CAP_RIGHT_REMOVE)]"
| "sys_needs CAP_SETNAME ctx = [(rdi ctx, None, CAP_RIGHT_SETNAME)]"
| "sys_needs CAP_GETNAME ctx = [(rdi ctx, None, CAP_RIGHT_GETNAME)]"
| "sys_needs IPC_SEND ctx = [(rdi ctx, Some CAP_TYPE_IPC, CAP_RIGHT_IPC_SEND)]"
| "sys_needs IPC_RECV ctx = [(rdi ctx, Some CAP_TYPE_IPC, CAP_RIGHT_IPC_RECV)]"
| "sys_needs IPC_SUBSCRIBE ctx = [(rdi ctx, Some CAP_TYPE_IPC, CAP_RIGHT_IPC_SUBSCRIBE)]"
| "sys_needs IPC_TRY_RECV ctx = [(rdi ctx, Some CAP_TYPE_IPC, CAP_RIGHT_IPC_RECV)]"
| "sys_needs IPC_BIND_NOTIFY ctx =
     [(rdi ctx, Some CAP_TYPE_IPC, CAP_RIGHT_IPC_RECV), (rsi ctx, Some CAP_TYPE_NOTIFY, CAP_RIGHT_NOTIFY_SIGNAL)]"
| "sys_needs IPC_UNBIND_NOTIFY ctx =
     [(rdi ctx, Some CAP_TYPE_IPC, CAP_RIGHT_IPC_RECV), (rsi ctx, Some CAP_TYPE_NOTIFY, CAP_RIGHT_NOTIFY_SIGNAL)]"
| "sys_needs PMEM_ALLOC ctx =
     [(rdi ctx, Some CAP_TYPE_FACTORY_PMEM,
       if r8 ctx AND 1 \<noteq> 0 then CAP_RIGHT_FACTORY_PMEM_ALLOC_ANY else CAP_RIGHT_FACTORY_PMEM_ALLOC_ANON)]"
| "sys_needs PMEM_DERIVE ctx = [(rdi ctx, Some CAP_TYPE_PMEM, CAP_RIGHT_PMEM_DERIVE OR r10 ctx)]"
| "sys_needs PORT_INB ctx = [(rdi ctx, Some CAP_TYPE_PORTIO, CAP_RIGHT_PORTIO_READ)]"
| "sys_needs PORT_INW ctx = [(rdi ctx, Some CAP_TYPE_PORTIO, CAP_RIGHT_PORTIO_READ)]"
| "sys_needs PORT_INL ctx = [(rdi ctx, Some CAP_TYPE_PORTIO, CAP_RIGHT_PORTIO_READ)]"
| "sys_needs PORT_OUTB ctx = [(rdi ctx, Some CAP_TYPE_PORTIO, CAP_RIGHT_PORTIO_WRITE)]"
| "sys_needs PORT_OUTW ctx = [(rdi ctx, Some CAP_TYPE_PORTIO, CAP_RIGHT_PORTIO_WRITE)]"
| "sys_needs PORT_OUTL ctx = [(rdi ctx, Some CAP_TYPE_PORTIO, CAP_RIGHT_PORTIO_WRITE)]"
| "sys_needs IRQ_WAIT ctx = [(rdi ctx, Some CAP_TYPE_IRQ, CAP_RIGHT_IRQ_WAIT)]"
| "sys_needs IRQ_ACK ctx = [(rdi ctx, Some CAP_TYPE_IRQ, CAP_RIGHT_IRQ_ACK)]"
| "sys_needs IRQ_BIND ctx =
     [(rdi ctx, Some CAP_TYPE_IRQ, CAP_RIGHT_IRQ_ACK), (rsi ctx, Some CAP_TYPE_NOTIFY, CAP_RIGHT_NOTIFY_SIGNAL)]"
| "sys_needs IRQ_UNBIND ctx =
     [(rdi ctx, Some CAP_TYPE_IRQ, CAP_RIGHT_IRQ_ACK), (rsi ctx, Some CAP_TYPE_NOTIFY, CAP_RIGHT_NOTIFY_SIGNAL)]"
| "sys_needs NOTIFY_WAIT ctx = [(rdi ctx, Some CAP_TYPE_NOTIFY, CAP_RIGHT_NOTIFY_WAIT)]"
| "sys_needs NOTIFY_POLL ctx = [(rdi ctx, Some CAP_TYPE_NOTIFY, CAP_RIGHT_NOTIFY_WAIT)]"
| "sys_needs NOTIFY_ACK ctx = [(rdi ctx, Some CAP_TYPE_NOTIFY, CAP_RIGHT_NOTIFY_ACK)]"
| "sys_needs NOTIFY_SIGNAL ctx = [(rdi ctx, Some CAP_TYPE_NOTIFY, CAP_RIGHT_NOTIFY_SIGNAL)]"
| "sys_needs _ ctx = []"

text \<open>A capability set holds such authority: a member with a live record of the type and all the rights.\<close>

definition holds :: "thread_view \<Rightarrow> u64 \<times> cap_type_t option \<times> u64 \<Rightarrow> kernel_state \<Rightarrow> bool" where
  "holds t need k \<longleftrightarrow>
     (case need of (cap, ty, r) \<Rightarrow>
        \<exists>members found. HASH_FIND (t_capset t) (global_capsets_table (k_caps k)) = Some members \<and> cap \<in> set members \<and>
          HASH_FIND cap (global_caps_table (k_caps k)) = Some found \<and>
          (\<forall>y. ty = Some y \<longrightarrow> ctype found = y) \<and> rights found AND r = r)"

lemma resolve_holds: "resolve (Some t) cap ty r k \<noteq> None \<longleftrightarrow> holds t (cap, Some ty, r) k"
  by (auto simp: resolve_def kcapset_resolve_handle_def kcapset_find_locked_def kcap_find_locked_def holds_def
      CAP_IS_TYPE_def CAP_HAS_ALL_def split: option.splits if_splits)

lemma record_holds: "kcapset_resolve_record (t_capset t) cap r (k_caps k) \<noteq> None \<longleftrightarrow> holds t (cap, None, r) k"
  by (auto simp: kcapset_resolve_record_def kcapset_find_locked_def kcap_find_locked_def holds_def CAP_HAS_ALL_def
      split: option.splits if_splits)

lemma not_holds_resolve: "\<not> holds t (cap, Some ty, r) k \<Longrightarrow> resolve (Some t) cap ty r k = None"
  using resolve_holds by blast

lemma not_holds_record: "\<not> holds t (cap, None, r) k \<Longrightarrow> kcapset_resolve_record (t_capset t) cap r (k_caps k) = None"
  using record_holds by blast

lemma subrights_mask: "r AND NOT q = 0 \<Longrightarrow> q AND r = (r :: u64)"
  by (metis and.commute and.left_neutral bit.conj_disj_distrib2 bit.disj_cancel_right or.right_neutral)

lemma derive_holds:
  assumes "kcapset_resolve_record (t_capset t) cap CAP_RIGHT_PMEM_DERIVE (k_caps k) = Some src"
    and "ctype src = CAP_TYPE_PMEM" and "req AND NOT (rights src) = 0"
  shows "holds t (cap, Some CAP_TYPE_PMEM, CAP_RIGHT_PMEM_DERIVE OR req) k"
  using assms subrights_mask [OF assms(3)]
  by (auto simp: kcapset_resolve_record_def kcapset_find_locked_def kcap_find_locked_def holds_def CAP_HAS_ALL_def bit.conj_disj_distrib
      split: option.splits if_splits)

definition refused :: "sysout \<Rightarrow> kernel_state \<Rightarrow> bool" where
  "refused out k \<longleftrightarrow> (\<exists>ctx. out = SysReturn ctx k \<and> rax ctx \<in> {of_int (-1), of_int (-3), of_int EBADHANDLE})"

lemma refused_simps [simp]:
  "refused (fail st ctx k) k' \<longleftrightarrow> k = k' \<and> (of_int st :: u64) \<in> {of_int (-1), of_int (-3), of_int EBADHANDLE}"
  "refused (fail_pmem vst ctx k) k' \<longleftrightarrow> k = k' \<and> (of_int (vm_errno vst) :: u64) \<in> {of_int (-1), of_int (-3), of_int EBADHANDLE}"
  by (auto simp: refused_def fail_def fail_pmem_def)

lemma PMEM_DERIVE_refused:
  assumes "\<not> holds t (rdi ctx, Some CAP_TYPE_PMEM, CAP_RIGHT_PMEM_DERIVE OR r10 ctx) k"
  shows "refused (syscall_PMEM_DERIVE (Some t) env ctx k) k"
proof (cases "kcapset_resolve_record (t_capset t) (rdi ctx) CAP_RIGHT_PMEM_DERIVE (k_caps k)")
  case None
  then show ?thesis by (simp add: syscall_PMEM_DERIVE_def Let_def)
next
  case (Some src)
  then have "ctype src \<noteq> CAP_TYPE_PMEM \<or> r10 ctx AND NOT (rights src) \<noteq> 0"
    using derive_holds assms by blast
  with Some show ?thesis by (simp add: syscall_PMEM_DERIVE_def Let_def)
qed

lemma portio_resolve_None:
  "resolve (Some t) (rdi ctx) CAP_TYPE_PORTIO r k = None \<Longrightarrow>
   \<exists>st \<in> {PORTIO_ERR_INVALID, PORTIO_ERR_PERMISSION}. syscall_portio_resolve (Some t) ctx r b k = Inl st"
  by (auto simp: syscall_portio_resolve_def)

lemma port_refused:
  "resolve (Some t) (rdi ctx) CAP_TYPE_PORTIO CAP_RIGHT_PORTIO_READ k = None \<Longrightarrow> refused (port_in rd (Some t) ctx k) k"
  "resolve (Some t) (rdi ctx) CAP_TYPE_PORTIO CAP_RIGHT_PORTIO_WRITE k = None \<Longrightarrow> refused (port_out wr (Some t) ctx k) k"
  using portio_resolve_None [of t "ctx\<lparr>rdx := 0\<rparr>" CAP_RIGHT_PORTIO_READ k True] portio_resolve_None [of t ctx CAP_RIGHT_PORTIO_WRITE k True]
  by (auto simp: port_in_def port_out_def)

lemma sys_refused:
  assumes "need \<in> set (sys_needs n ctx)" and "\<not> holds t need k"
  shows "refused (sys_exec n (Some t) env ctx k) k"
proof (cases "n = PMEM_DERIVE")
  case True
  with assms show ?thesis by (simp add: PMEM_DERIVE_refused)
next
  case False
  with assms show ?thesis
    by (cases n) (auto simp: syscall_defs Let_def port_refused dest!: not_holds_resolve not_holds_record split: option.splits if_splits)
qed

text \<open>
  Property C33. A system call that needs authority its caller does not hold is refused: it returns with a
  negative status (-1, -3 or EBADHANDLE) and leaves the whole kernel state as it was.
\<close>

theorem syscall_unauthorised_no_effect:
  assumes "need \<in> set (sys_needs n ctx)" and "\<not> holds t need k"
  shows "\<exists>ctx'. sys_exec n (Some t) env ctx k = SysReturn ctx' k \<and> rax ctx' \<in> {of_int (-1), of_int (-3), of_int EBADHANDLE}"
  using sys_refused [OF assms, of env] unfolding refused_def .

theorem syscall_unauthorised_no_effect_witness:
  "\<exists>ctx'. sys_exec IPC_SEND (Some demo_thread) demo_env demo_ctx kernel_boot = SysReturn ctx' kernel_boot \<and>
     rax ctx' \<in> {of_int (-1), of_int (-3), of_int EBADHANDLE}"
proof (rule syscall_unauthorised_no_effect)
  show "(1, Some CAP_TYPE_IPC, CAP_RIGHT_IPC_SEND) \<in> set (sys_needs IPC_SEND demo_ctx)" by (simp add: demo_ctx_def)
  show "\<not> holds demo_thread (1, Some CAP_TYPE_IPC, CAP_RIGHT_IPC_SEND) kernel_boot"
    by (simp add: holds_def demo_thread_def kernel_boot_def kinit_caps_def kcapset_new_def capset_insert_def HASH_FIND_def HASH_ADD_def)
qed

fun sys_state :: "sysout \<Rightarrow> kernel_state option" where
  "sys_state (SysReturn ctx k) = Some k"
| "sys_state (SysEnter c k) = Some k"
| "sys_state SysFault = None"

definition fresh_objects :: "kernel_state \<Rightarrow> (cap_type_t \<times> u64) set" where
  "fresh_objects k = {(CAP_TYPE_IPC, next_handle (k_ipc k)), (CAP_TYPE_NOTIFY, next_notify_handle (notifications (k_ipc k))),
     (CAP_TYPE_PMEM, next_pmem_handle (k_pmem k))}"

definition confined :: "thread_view \<Rightarrow> kernel_state \<Rightarrow> caps_state \<Rightarrow> bool" where
  "confined t k s \<longleftrightarrow>
     (\<forall>h. h \<noteq> t_capset t \<longrightarrow> HASH_FIND h (global_capsets_table s) = HASH_FIND h (global_capsets_table (k_caps k))) \<and>
     authority s \<subseteq> authority (k_caps k) \<union> {(ty, obj, b). (ty, obj) \<in> fresh_objects k}"

lemma confined_refl [simp]: "confined t k (k_caps k)"
  by (simp add: confined_def)

lemma capsets_table_frame:
  "global_capsets_table (caps_insert c s) = global_capsets_table s"
  "global_capsets_table (capset_update h f s) = HASH_UPD h f (global_capsets_table s)"
  by (simp_all add: caps_mut_defs)

lemma confined_frame:
  "confined t k s \<Longrightarrow> confined t k (snd (kcap_destroy h s))"
  "confined t k s \<Longrightarrow> confined t k (capset_update (t_capset t) f s)"
  "confined t k s \<Longrightarrow> confined t k (s\<lparr>global_cap_names_table := nt\<rparr>)"
  "confined t k s \<Longrightarrow> (ctype c, obj_handle c) \<in> fresh_objects k \<Longrightarrow> confined t k (caps_insert c s)"
  using authority_destroy [of h s]
  by (auto simp: confined_def kcap_destroy_frame authority_frame authority_insert capsets_table_frame table_simps)

lemma confined_ops:
  "confined t k s \<Longrightarrow> (ty, obj) \<in> fresh_objects k \<Longrightarrow> confined t k (snd (kcap_create obj ty r mok s))"
  "confined t k s \<Longrightarrow> confined t k (snd (kcapset_addcap (t_capset t) cap mok s))"
  "confined t k s \<Longrightarrow> confined t k (snd (kcapset_delcap (t_capset t) cap s))"
  "confined t k s \<Longrightarrow> confined t k (snd (kcap_set_name cap name len mok s))"
  by (auto simp: kcap_create_def kcapset_addcap_def kcapset_delcap_def kcap_set_name_def Let_def confined_frame split: option.split)

lemma grant_confined:
  assumes "grant obj ty r (Some t) env k' = Some (res, k'')" and "confined t k (k_caps k')" and "(ty, obj) \<in> fresh_objects k"
  shows "confined t k (k_caps k'')" and "k'' = k'\<lparr>k_caps := k_caps k''\<rparr>"
proof -
  have c: "confined t k (snd (kcap_create obj ty r (cap_mem env) (k_caps k')))"
    using assms(2,3) by (rule confined_ops(1))
  have a: "confined t k (snd (kcapset_addcap (t_capset t) cap (set_mem env) (snd (kcap_create obj ty r (cap_mem env) (k_caps k')))))" for cap
    using c by (rule confined_ops(2))
  show "confined t k (k_caps k'')"
    using assms(1) c a confined_frame(1) [OF a]
    by (auto simp: grant_def split: prod.splits option.splits if_splits) (metis snd_conv)+
  show "k'' = k'\<lparr>k_caps := k_caps k''\<rparr>"
    using assms(1) by (auto simp: grant_def split: prod.splits option.splits if_splits)
qed

definition confines :: "thread_view \<Rightarrow> kernel_state \<Rightarrow> sysout \<Rightarrow> bool" where
  "confines t k out \<longleftrightarrow> (\<forall>k'. sys_state out = Some k' \<longrightarrow> confined t k (k_caps k'))"

lemma confines_simps [simp]:
  "confines t k (SysReturn ctx k') \<longleftrightarrow> confined t k (k_caps k')"
  "confines t k (SysEnter pc k') \<longleftrightarrow> confined t k (k_caps k')"
  "confines t k SysFault"
  "confines t k (fail st ctx k') \<longleftrightarrow> confined t k (k_caps k')"
  "confines t k (fail_pmem vst ctx k') \<longleftrightarrow> confined t k (k_caps k')"
  by (auto simp: confines_def fail_def fail_pmem_def)

lemma fresh_objects_simps [simp]:
  "(CAP_TYPE_IPC, next_handle (k_ipc k)) \<in> fresh_objects k"
  "(CAP_TYPE_NOTIFY, next_notify_handle (notifications (k_ipc k))) \<in> fresh_objects k"
  "(CAP_TYPE_PMEM, next_pmem_handle (k_pmem k)) \<in> fresh_objects k"
  by (simp_all add: fresh_objects_def)

lemma fresh_handles:
  "kipc_create mem s = (Inr h, s') \<Longrightarrow> h = next_handle s"
  "kipc_create_publisher mem s = Some (Inr h, s') \<Longrightarrow> h = next_handle s"
  "knotify_create mem m = (Some h, m') \<Longrightarrow> h = next_notify_handle m"
  "kpmem_create mem base len p = (Some h, p') \<Longrightarrow> h = next_pmem_handle p"
  "kpmem_alloc_owned_pages mem pages len p = (Some (h, len'), runs, p') \<Longrightarrow> h = next_pmem_handle p"
  "kpmem_derive mem src base len p = Some (Some h, p') \<Longrightarrow> h = next_pmem_handle p"
  by (auto simp: kipc_create_def kipc_create_publisher_def knotify_create_def kpmem_create_def kpmem_create_internal_def
      kpmem_insert_locked_def kpmem_alloc_owned_pages_def kpmem_derive_def kpmem_retain_def r_update_def Let_def
      split: option.splits if_splits prod.splits sum.splits bind_splits)

lemma publish_confines:
  assumes "confined t k (k_caps k')" and "h = next_pmem_handle (k_pmem k)"
  shows "confines t k (publish_pmem h len r (Some t) env ctx k')"
  using assms by (auto simp: publish_pmem_def undo_pmem_def grant_confined(1) split: option.split sum.split)

lemma undo_caps:
  "undo_ipc ep k = Some k' \<Longrightarrow> k_caps k' = k_caps k"
  "undo_notify n k = Some k' \<Longrightarrow> k_caps k' = k_caps k"
  by (auto simp: undo_ipc_def undo_notify_def set_notify_def)

lemma set_caps [simp]:
  "k_caps (set_irq i k) = k_caps k" "k_caps (set_notify m k) = k_caps k"
  by (simp_all add: set_irq_def set_notify_def)

lemma ret_confines [simp]:
  "confines t k (ret_ipc ctx k r)" "confines t k (ret_irq ctx k i)" "confines t k (ret_notify ctx k m)" "confines t k (enter_ipc call k)"
  "confines t k (port_in rd c ctx k)" "confines t k (port_out wr c ctx k)"
  by (auto simp: ret_ipc_def ret_irq_def ret_notify_def enter_ipc_def port_in_def port_out_def Let_def
      split: option.split sum.split outcome.split)

lemma create_confines:
  "confines t k (syscall_IPC_CREATE (Some t) env ctx k)"
  "confines t k (syscall_IPC_CREATE_PUB (Some t) env ctx k)"
  "confines t k (syscall_NOTIFY_CREATE (Some t) env ctx k)"
  by (auto simp: syscall_defs Let_def undo_caps dest!: fresh_handles elim!: grant_confined(1)
      split: option.split sum.split prod.split grant_error.split)

lemma pmem_confines:
  "confines t k (syscall_PMEM_ALLOC (Some t) env ctx k)"
  "confines t k (syscall_PMEM_DERIVE (Some t) env ctx k)"
  by (auto simp: syscall_defs Let_def dest!: fresh_handles intro!: publish_confines split: option.split prod.split)

lemma caps_calls_confine:
  "confines t k (syscall_CAP_REMOVE (Some t) ctx k)"
  "confines t k (syscall_CAP_SETNAME (Some t) env ctx k)"
  "confines t k (syscall_CAP_GETNAME (Some t) ctx k)"
  using confined_frame(1) [OF confined_refl [of t k], of "rdi ctx"] confined_ops(4) [OF confined_refl [of t k], of "rdi ctx"]
    confined_ops(3) [OF confined_frame(1) [OF confined_refl [of t k], of "rdi ctx"], of "rdi ctx"]
  by (auto simp: syscall_defs Let_def split: option.split prod.split) (metis snd_conv)+

lemma sys_exec_confines: "confines t k (sys_exec n (Some t) env ctx k)"
proof (cases "n \<in> {IPC_CREATE, IPC_CREATE_PUB, NOTIFY_CREATE, PMEM_ALLOC, PMEM_DERIVE, CAP_REMOVE, CAP_SETNAME, CAP_GETNAME}")
  case True
  then show ?thesis using create_confines pmem_confines caps_calls_confine by auto
next
  case False
  then show ?thesis
    by (cases n) (auto simp: syscall_defs Let_def split: option.split sum.split prod.split wait_result.split)
qed

text \<open>
  Property C34. Authority is confined: a system call changes no capability set but the one of its caller, and
  the only authority that exists after it and not before is over an object that the call itself created (an
  endpoint, a notification or a physical memory object with a fresh handle).
\<close>

theorem syscall_confines_authority:
  assumes "sys_state (sys_exec n (Some t) env ctx k) = Some k'"
  shows "(\<forall>h. h \<noteq> t_capset t \<longrightarrow>
            HASH_FIND h (global_capsets_table (k_caps k')) = HASH_FIND h (global_capsets_table (k_caps k))) \<and>
         authority (k_caps k') \<subseteq> authority (k_caps k) \<union> {(ty, obj, b). (ty, obj) \<in> fresh_objects k}"
  using sys_exec_confines [of t k n env ctx] assms by (simp add: confines_def confined_def)

definition demo_created :: kernel_state where
  "demo_created = the (sys_state (sys_exec NOTIFY_CREATE (Some demo_thread) demo_env demo_ctx kernel_boot))"

theorem syscall_confines_authority_witness:
  "authority (k_caps demo_created) \<subseteq> authority (k_caps kernel_boot) \<union> {(ty, obj, b). (ty, obj) \<in> fresh_objects kernel_boot}"
proof -
  have "\<not> Option.is_none (sys_state (sys_exec NOTIFY_CREATE (Some demo_thread) demo_env demo_ctx kernel_boot))" by code_simp
  then have "sys_state (sys_exec NOTIFY_CREATE (Some demo_thread) demo_env demo_ctx kernel_boot) = Some demo_created"
    by (simp add: demo_created_def Option.is_none_def)
  from syscall_confines_authority [OF this] show ?thesis by (rule conjunct2)
qed

end
