(* ===== verification/Kernel.thy ===== *)
theory Kernel
  imports Syscall
begin

text \<open>
  The kernel as a whole: one invariant over the state of all subsystems, kept by every system call, by
  every step of a thread that is blocked in a system call and by every interrupt.
\<close>

section \<open>The invariant\<close>

text \<open>
  \<open>hold\<close> and \<open>w\<close> count the references on endpoints and on notifications that the threads inside
  blocking calls hold.
\<close>

definition kernel_inv :: "(addr \<Rightarrow> nat) \<Rightarrow> (addr \<Rightarrow> nat) \<Rightarrow> kernel_state \<Rightarrow> bool" where
  "kernel_inv hold w k \<longleftrightarrow>
     caps_wf (k_caps k) \<and> pmem_inv (k_pmem k) \<and>
     ipc_inv hold (\<lambda>n. w n + irq_refs (global_irq_table (k_irq k)) n) (k_ipc k) \<and>
     irq_inv (\<lambda>n. w n + bind_refs (k_ipc k) n) (irq_view k)"

lemma kernel_invD:
  assumes "kernel_inv hold w k"
  shows "caps_wf (k_caps k)" "pmem_inv (k_pmem k)"
    "ipc_inv hold (\<lambda>n. w n + irq_refs (global_irq_table (k_irq k)) n) (k_ipc k)"
    "irq_inv (\<lambda>n. w n + bind_refs (k_ipc k) n) (irq_view k)"
  using assms unfolding kernel_inv_def by blast+

lemma irq_view_simps [simp]:
  "irq_view (k\<lparr>k_caps := c\<rparr>) = irq_view k"
  "irq_view (k\<lparr>k_pmem := p\<rparr>) = irq_view k"
  "irq_view (k\<lparr>k_freed := f\<rparr>) = irq_view k"
  "irq_view (k\<lparr>k_writes := ws\<rparr>) = irq_view k"
  "irq_view (k\<lparr>k_ipc := i\<rparr>) = (irq_view k)\<lparr>irq_notifications := notifications i\<rparr>"
  "irq_view (set_irq q k) = q"
  "global_irq_table (irq_view k) = global_irq_table (k_irq k)"
  "irq_notifications (irq_view k) = notifications (k_ipc k)"
  by (simp_all add: irq_view_def set_irq_def)

lemma kernel_inv_caps: "kernel_inv hold w k \<Longrightarrow> caps_wf s \<Longrightarrow> kernel_inv hold w (k\<lparr>k_caps := s\<rparr>)"
  by (simp add: kernel_inv_def)

lemma kernel_inv_pmem: "kernel_inv hold w k \<Longrightarrow> pmem_inv p \<Longrightarrow> kernel_inv hold w (k\<lparr>k_pmem := p\<rparr>)"
  by (simp add: kernel_inv_def)

lemma kernel_inv_trace [simp]:
  "kernel_inv hold w (k\<lparr>k_freed := f\<rparr>) \<longleftrightarrow> kernel_inv hold w k"
  "kernel_inv hold w (k\<lparr>k_writes := ws\<rparr>) \<longleftrightarrow> kernel_inv hold w k"
  by (simp_all add: kernel_inv_def)

lemma kernel_inv_ipc:
  assumes "kernel_inv hold w k" and "ipc_inv hold' (\<lambda>n. w' n + irq_refs (global_irq_table (k_irq k)) n) ipc"
  shows "kernel_inv hold' w' (k\<lparr>k_ipc := ipc\<rparr>)"
proof -
  have "notify_inv (\<lambda>n. w' n + bind_refs ipc n + irq_refs (global_irq_table (k_irq k)) n) (notifications ipc)"
    using ipc_invD(3) [OF assms(2)] by (simp add: add_ac)
  then show ?thesis
    using assms irq_inv_notif [OF kernel_invD(4) [OF assms(1)], of "\<lambda>n. w' n + bind_refs ipc n" "notifications ipc"]
    by (simp add: kernel_inv_def)
qed

lemma kernel_inv_notify:
  assumes "kernel_inv hold w k"
    and "notify_inv (\<lambda>n. w' n + irq_refs (global_irq_table (k_irq k)) n + bind_refs (k_ipc k) n) m"
  shows "kernel_inv hold w' (set_notify m k)"
  unfolding set_notify_def
  by (rule kernel_inv_ipc [OF assms(1)], rule ipc_inv_notif [OF kernel_invD(3) [OF assms(1)]]) (use assms(2) in simp)

lemma kernel_inv_irq:
  assumes "kernel_inv hold w k" and "irq_inv (\<lambda>n. w n + bind_refs (k_ipc k) n) i"
  shows "kernel_inv hold w (set_irq i k)"
proof -
  have "notify_inv (\<lambda>n. (w n + irq_refs (global_irq_table i) n) + bind_refs (k_ipc k) n) (irq_notifications i)"
    using irq_invD(6) [OF assms(2)] by (simp add: add_ac)
  from ipc_inv_notif [OF kernel_invD(3) [OF assms(1)] this] assms show ?thesis
    by (simp add: kernel_inv_def) (simp add: set_irq_def)
qed

lemma kernel_notify_inv:
  "kernel_inv hold w k \<Longrightarrow>
   notify_inv (\<lambda>n. w n + irq_refs (global_irq_table (k_irq k)) n + bind_refs (k_ipc k) n) (notifications (k_ipc k))"
  using ipc_invD(3) [OF kernel_invD(3)] by simp

section \<open>System calls\<close>

text \<open>What the kernel relies on for one call: kmalloc returns unused memory, and handles have not run out.\<close>

definition sys_room :: "sysenv \<Rightarrow> kernel_state \<Rightarrow> bool" where
  "sys_room env k \<longleftrightarrow>
     (\<forall>a \<in> set_option (obj_mem env).
        eps (k_ipc k) a = None \<and> n_objs (notifications (k_ipc k)) a = None \<and> recs (k_pmem k) a = None) \<and>
     next_handle (k_ipc k) \<noteq> UINT64_MAX \<and> next_cap_handle (k_caps k) \<noteq> UINT64_MAX"

fun kcall_hold :: "kcall \<Rightarrow> addr \<Rightarrow> nat" where
  "kcall_hold (InIpc pc) a = pc_hold pc a"
| "kcall_hold _ a = 0"

fun kcall_refs :: "kcall \<Rightarrow> addr \<Rightarrow> nat" where
  "kcall_refs (InIpc pc) n = pc_det pc n"
| "kcall_refs (InNotify pc) n = pc_refs pc n"
| "kcall_refs (InIrqWait h) n = 0"

fun sys_ok :: "(addr \<Rightarrow> nat) \<Rightarrow> (addr \<Rightarrow> nat) \<Rightarrow> sysout \<Rightarrow> bool" where
  "sys_ok hold w (SysReturn ctx k) \<longleftrightarrow> kernel_inv hold w k"
| "sys_ok hold w (SysEnter c k) \<longleftrightarrow> kernel_inv (\<lambda>a. hold a + kcall_hold c a) (\<lambda>n. w n + kcall_refs c n) k"
| "sys_ok hold w SysFault \<longleftrightarrow> False"

lemma sys_ok_fail [simp]:
  "sys_ok hold w (fail st ctx k) \<longleftrightarrow> kernel_inv hold w k"
  "sys_ok hold w (fail_pmem vst ctx k) \<longleftrightarrow> kernel_inv hold w k"
  by (simp_all add: fail_def fail_pmem_def)

lemma grant_inv:
  assumes "kernel_inv hold w k" and "next_cap_handle (k_caps k) \<noteq> UINT64_MAX"
  shows "\<exists>res k'. grant obj ty r (Some t) env k = Some (res, k') \<and> kernel_inv hold w k'"
proof -
  note c = kcap_create_wf [OF kernel_invD(1) [OF assms(1)] assms(2), of obj ty r "cap_mem env"]
  note a = kcapset_addcap_wf [OF c, of "t_capset t" _ "set_mem env"]
  note d = caps_wf_destroy [OF a]
  obtain q s where cr: "kcap_create obj ty r (cap_mem env) (k_caps k) = (q, s)" by fastforce
  show ?thesis
  proof (cases q)
    case None
    with cr c assms(1) show ?thesis by (simp add: grant_def kernel_inv_caps)
  next
    case (Some cap)
    obtain st s2 where ad: "kcapset_addcap (t_capset t) cap (set_mem env) s = (st, s2)" by fastforce
    with cr a [of cap] d [of cap cap] have "caps_wf s2" "caps_wf (snd (kcap_destroy cap s2))" by simp_all
    with cr ad Some assms(1) show ?thesis by (simp add: grant_def kernel_inv_caps)
  qed
qed

lemma undo_ipc_inv: "kernel_inv hold w k \<Longrightarrow> \<exists>k'. undo_ipc ep k = Some k' \<and> kernel_inv hold w k'"
  using kipc_destroy_inv [OF kernel_invD(3), of hold w k ep] kernel_inv_ipc [of hold w k hold w]
  by (auto simp: undo_ipc_def)

lemma undo_notify_inv: "kernel_inv hold w k \<Longrightarrow> \<exists>k'. undo_notify n k = Some k' \<and> kernel_inv hold w k'"
  using knotify_destroy_inv [OF kernel_notify_inv, of hold w k n] kernel_inv_notify [of hold w k w]
  by (auto simp: undo_notify_def)

lemma undo_pmem_inv: "kernel_inv hold w k \<Longrightarrow> \<exists>k'. undo_pmem h k = Some k' \<and> kernel_inv hold w k'"
  using kpmem_destroy_inv [OF kernel_invD(2), of hold w k h] kernel_inv_pmem [of hold w k]
  by (auto simp: undo_pmem_def)

lemma publish_pmem_ok:
  assumes "kernel_inv hold w k" and "next_cap_handle (k_caps k) \<noteq> UINT64_MAX"
  shows "sys_ok hold w (publish_pmem h len r (Some t) env ctx k)"
proof -
  obtain res k1 where g: "grant h CAP_TYPE_PMEM r (Some t) env k = Some (res, k1)" "kernel_inv hold w k1"
    using grant_inv [OF assms] by blast
  moreover obtain k2 where "undo_pmem h k1 = Some k2" "kernel_inv hold w k2" using undo_pmem_inv [OF g(2)] by blast
  ultimately show ?thesis by (simp add: publish_pmem_def split: sum.split)
qed

lemma sys_roomD:
  assumes "sys_room env k"
  shows "obj_mem env = Some a \<Longrightarrow> eps (k_ipc k) a = None" "obj_mem env = Some a \<Longrightarrow> n_objs (notifications (k_ipc k)) a = None"
    "obj_mem env = Some a \<Longrightarrow> recs (k_pmem k) a = None" "next_handle (k_ipc k) \<noteq> UINT64_MAX" "next_cap_handle (k_caps k) \<noteq> UINT64_MAX"
  using assms by (auto simp: sys_room_def)

lemma create_ok:
  assumes inv: "kernel_inv hold w k" and room: "sys_room env k"
  shows "sys_ok hold w (syscall_IPC_CREATE (Some t) env ctx k)"
    and "sys_ok hold w (syscall_IPC_CREATE_PUB (Some t) env ctx k)"
    and "sys_ok hold w (syscall_NOTIFY_CREATE (Some t) env ctx k)"
proof -
  note R = sys_roomD [OF room] and I = kernel_invD [OF inv]
  obtain r s where cr: "kipc_create (obj_mem env) (k_ipc k) = (r, s)" by fastforce
  have s: "kernel_inv hold w (k\<lparr>k_ipc := s\<rparr>)"
    using kernel_inv_ipc [OF inv kipc_create_inv [OF I(3) R(1,4)], of "obj_mem env"] cr by simp
  obtain rp sp where cp: "kipc_create_publisher (obj_mem env) (k_ipc k) = Some (rp, sp)"
    and sp: "kernel_inv hold w (k\<lparr>k_ipc := sp\<rparr>)"
    using kipc_create_publisher_inv [OF I(3) R(1,4), of "obj_mem env"] kernel_inv_ipc [OF inv] by blast
  obtain rn m where cn: "knotify_create (obj_mem env) (notifications (k_ipc k)) = (rn, m)" by fastforce
  have m: "kernel_inv hold w (set_notify m k)"
    using kernel_inv_notify [OF inv knotify_create_inv [OF kernel_notify_inv [OF inv] R(2)], of "obj_mem env"] cn by simp
  have *: "\<exists>res k1 k2 k3. grant h ty r (Some t) env k' = Some (res, k1) \<and> kernel_inv hold w k1 \<and>
      undo_ipc h k1 = Some k2 \<and> kernel_inv hold w k2 \<and> undo_notify h k1 = Some k3 \<and> kernel_inv hold w k3"
    if k': "kernel_inv hold w k'" "k_caps k' = k_caps k" for h ty r k'
  proof -
    obtain res k1 where k1: "grant h ty r (Some t) env k' = Some (res, k1)" "kernel_inv hold w k1"
      using grant_inv [OF k'(1)] R(5) k'(2) by metis
    with undo_ipc_inv [OF k1(2)] undo_notify_inv [OF k1(2)] show ?thesis by metis
  qed
  show "sys_ok hold w (syscall_IPC_CREATE (Some t) env ctx k)"
    using cr s * [of "k\<lparr>k_ipc := s\<rparr>" "projr r" CAP_TYPE_IPC "CAP_VALID_RIGHTS CAP_TYPE_IPC"]
    by (cases r) (auto simp: syscall_IPC_CREATE_def split: sum.split)
  show "sys_ok hold w (syscall_IPC_CREATE_PUB (Some t) env ctx k)"
    using cp sp * [of "k\<lparr>k_ipc := sp\<rparr>" "projr rp" CAP_TYPE_IPC "CAP_VALID_RIGHTS CAP_TYPE_IPC"]
    by (cases rp) (auto simp: syscall_IPC_CREATE_PUB_def Let_def split: sum.split)
  show "sys_ok hold w (syscall_NOTIFY_CREATE (Some t) env ctx k)"
    using cn m * [of "set_notify m k" "the rn" CAP_TYPE_NOTIFY "CAP_VALID_RIGHTS CAP_TYPE_NOTIFY"]
    by (cases rn) (auto simp: syscall_NOTIFY_CREATE_def Let_def split: sum.split)
qed

lemma ret_ok:
  assumes inv: "kernel_inv hold w k"
  shows "sys_ok hold w (ret_ipc ctx k (kipc_bind_notify ep n bits ok (k_ipc k)))"
    and "sys_ok hold w (ret_ipc ctx k (kipc_unbind_notify ep n (k_ipc k)))"
    and "sys_ok hold w (ret_irq ctx k (kirq_bind_notify h n bits ok (irq_view k)))"
    and "sys_ok hold w (ret_irq ctx k (kirq_unbind_notify h n (irq_view k)))"
    and "sys_ok hold w (ret_notify ctx k (knotify_ack n bits (notifications (k_ipc k))))"
    and "sys_ok hold w (ret_notify ctx k (knotify_signal n bits (notifications (k_ipc k))))"
  using kipc_bind_notify_inv [OF kernel_invD(3) [OF inv], of ep n bits ok] kipc_unbind_notify_inv [OF kernel_invD(3) [OF inv], of ep n]
    kirq_bind_notify_inv [OF kernel_invD(4) [OF inv], of h n bits ok] kirq_unbind_notify_inv [OF kernel_invD(4) [OF inv], of h n]
    knotify_ack_inv [OF kernel_notify_inv [OF inv], of n bits] knotify_signal_inv [OF kernel_notify_inv [OF inv], of n bits]
  by (auto simp: ret_ipc_def ret_irq_def ret_notify_def intro: kernel_inv_ipc [OF inv] kernel_inv_irq [OF inv] kernel_inv_notify [OF inv])

lemma pmem_ok:
  assumes inv: "kernel_inv hold w k" and room: "sys_room env k"
  shows "sys_ok hold w (syscall_PMEM_ALLOC (Some t) env ctx k)"
    and "sys_ok hold w (syscall_PMEM_DERIVE (Some t) env ctx k)"
proof -
  note R = sys_roomD [OF room] and I = kernel_invD [OF inv]
  have pub: "sys_ok hold w (publish_pmem h len r (Some t) env ctx (k\<lparr>k_pmem := p\<rparr>))" if "pmem_inv p" for h len r p
    by (rule publish_pmem_ok [OF kernel_inv_pmem [OF inv that]]) (use R(5) in simp)
  have c: "kernel_inv hold w (k\<lparr>k_pmem := p\<rparr>)" "pmem_inv p" if "kpmem_create (obj_mem env) base len (k_pmem k) = (q, p)" for base len q p
    using kpmem_create_internal_inv [OF I(2) R(3), of "obj_mem env" base len False] that kernel_inv_pmem [OF inv]
    by (simp_all add: kpmem_create_def)
  have a: "kernel_inv hold w (k\<lparr>k_pmem := p\<rparr>)" "pmem_inv p"
    if "kpmem_alloc_owned_pages (obj_mem env) (page_mem env) len (k_pmem k) = (q, runs, p)" for len q runs p
    using kpmem_alloc_owned_pages_inv [OF I(2) R(3), of "obj_mem env" "page_mem env" len] that kernel_inv_pmem [OF inv] by simp_all
  show "sys_ok hold w (syscall_PMEM_ALLOC (Some t) env ctx k)"
    using inv by (auto simp: syscall_PMEM_ALLOC_def Let_def dest: c a intro: pub split: option.split prod.split)
  have g: "kpmem_get h (k_pmem k) = None \<longleftrightarrow> False" for h
    using pmem_inv_live(2) [OF I(2), of h] by (auto simp: kpmem_get_def split: option.splits)
  have d: "\<exists>q p. kpmem_derive (obj_mem env) h base len (k_pmem k) = Some (q, p) \<and> kernel_inv hold w (k\<lparr>k_pmem := p\<rparr>) \<and> pmem_inv p"
    for h base len
    using kpmem_derive_inv [OF I(2) R(3), of "obj_mem env" h base len] kernel_inv_pmem [OF inv] by blast
  have "sys_ok hold w (case kpmem_derive (obj_mem env) h base len (k_pmem k) of None \<Rightarrow> SysFault
      | Some (None, p) \<Rightarrow> fail_pmem VM_ERR_INVALID ctx (k\<lparr>k_pmem := p\<rparr>)
      | Some (Some h, p) \<Rightarrow> publish_pmem h len r (Some t) env ctx (k\<lparr>k_pmem := p\<rparr>))" for h base len r
    using d [of h base len] by (auto intro: pub split: option.split)
  with inv show "sys_ok hold w (syscall_PMEM_DERIVE (Some t) env ctx k)"
    by (auto simp: syscall_PMEM_DERIVE_def Let_def g split: option.split)
qed

lemma total_single: "total f (add_mset x M) = (\<lambda>b. f x b + total f M b)"
  by (simp add: fun_eq_iff)

lemma enter_ipc_ok:
  assumes inv: "kernel_inv hold w k" and c: "\<And>h. c \<noteq> CDestroy h"
  shows "sys_ok hold w (enter_ipc c k)"
proof -
  note I = kernel_invD(3) [OF inv]
  have acq: "kernel_inv (\<lambda>b. hold b + of_bool (a = b)) w (k\<lparr>k_ipc := s\<rparr>)" "\<exists>e. eps s a = Some e" if "kipc_acquire h (k_ipc k) = (Some a, s)" for h a s
  proof -
    have "hold(a := hold a + 1) = (\<lambda>b. hold b + of_bool (a = b))" by auto
    then show "kernel_inv (\<lambda>b. hold b + of_bool (a = b)) w (k\<lparr>k_ipc := s\<rparr>)"
      using kernel_inv_ipc [OF inv kipc_acquire_inv(1) [OF I that]] by simp
    show "\<exists>e. eps s a = Some e" using kipc_acquire_inv(2) [OF I that] by blast
  qed
  have none: "s = k_ipc k" if "kipc_acquire h (k_ipc k) = (None, s)" for h s
    using kipc_acquire_None [OF that] .
  show ?thesis
  proof (cases c)
    case (CSend cid h m)
    obtain q s where q: "kipc_acquire h (k_ipc k) = (q, s)" by fastforce
    show ?thesis
    proof (cases q)
      case None
      with q none [of h s] inv CSend show ?thesis by (simp add: enter_ipc_def)
    next
      case (Some a)
      with q acq [of h a s] obtain e where "eps s a = Some e" "kernel_inv (\<lambda>b. hold b + of_bool (a = b)) w (k\<lparr>k_ipc := s\<rparr>)" by blast
      with q Some inv CSend show ?thesis by (cases "ep_type e") (simp_all add: enter_ipc_def Let_def)
    qed
  next
    case (CRecv h)
    obtain q s where q: "kipc_acquire h (k_ipc k) = (q, s)" by fastforce
    with none [of h s] acq [of h _ s] inv CRecv show ?thesis by (cases q) (simp_all add: enter_ipc_def)
  qed (use c in blast)
qed

lemma notify_wait_ok:
  assumes inv: "kernel_inv hold w k"
  shows "sys_ok hold w (syscall_NOTIFY_WAIT (Some t) ctx k)"
proof -
  have "kernel_inv hold (\<lambda>b. w b + pc_refs pc b) (set_notify m k)"
    if pc: "knotify_wait_enter n bits (notifications (k_ipc k)) = (pc, m)" for n bits pc m
  proof (rule kernel_inv_notify [OF inv])
    obtain q s1 where acq: "knotify_acquire n (notifications (k_ipc k)) = (q, s1)" by fastforce
    let ?ref = "\<lambda>b. w b + irq_refs (global_irq_table (k_irq k)) b + bind_refs (k_ipc k) b"
    have "notify_inv (?ref(a := ?ref a + 1)) s1" if "q = Some a" for a
      using nref.acquire_inv [OF kernel_notify_inv [OF inv]] acq that by blast
    moreover have "?ref(a := ?ref a + 1) = (\<lambda>b. w b + (if b = a then 1 else 0) + irq_refs (global_irq_table (k_irq k)) b + bind_refs (k_ipc k) b)" for a
      by auto
    ultimately show "notify_inv (\<lambda>b. w b + pc_refs pc b + irq_refs (global_irq_table (k_irq k)) b + bind_refs (k_ipc k) b) m"
      using pc acq nref.acquire_None [of n "notifications (k_ipc k)" s1] kernel_notify_inv [OF inv]
      by (auto simp: knotify_wait_enter_def split: if_splits option.splits)
  qed
  with inv show ?thesis by (auto simp: syscall_NOTIFY_WAIT_def split: option.split prod.split)
qed

lemma caps_calls_ok:
  assumes inv: "kernel_inv hold w k"
  shows "sys_ok hold w (syscall_CAP_REMOVE (Some t) ctx k)"
    and "sys_ok hold w (syscall_CAP_SETNAME (Some t) env ctx k)"
    and "sys_ok hold w (syscall_CAP_GETNAME (Some t) ctx k)"
proof -
  note wf = kernel_invD(1) [OF inv]
  note d = caps_wf_destroy [OF wf, of "rdi ctx"]
  have del: "caps_wf s" if "kcap_destroy (rdi ctx) (k_caps k) = (st, s0)" "kcapset_delcap (t_capset t) (rdi ctx) s0 = (st', s)" for st s0 st' s
    using kcapset_delcap_wf [OF d, of "t_capset t" "rdi ctx"] that by simp
  show "sys_ok hold w (syscall_CAP_REMOVE (Some t) ctx k)"
    using inv d del by (auto simp: syscall_CAP_REMOVE_def intro!: kernel_inv_caps split: option.split prod.split)
  show "sys_ok hold w (syscall_CAP_SETNAME (Some t) env ctx k)"
    using inv by (auto simp: syscall_CAP_SETNAME_def Let_def intro!: kernel_inv_caps split: prod.split)
      (metis kcap_set_name_wf [OF wf] snd_conv)
  show "sys_ok hold w (syscall_CAP_GETNAME (Some t) ctx k)"
    using inv by (auto simp: syscall_CAP_GETNAME_def Let_def split: prod.split)
qed

lemma ipc_calls_ok:
  assumes inv: "kernel_inv hold w k" and room: "sys_room env k"
  shows "sys_ok hold w (syscall_IPC_SUBSCRIBE (Some t) env ctx k)"
    and "sys_ok hold w (syscall_IPC_TRY_RECV (Some t) ctx k)"
    and "sys_ok hold w (syscall_IPC_BIND_NOTIFY (Some t) env ctx k)"
    and "sys_ok hold w (syscall_IPC_UNBIND_NOTIFY (Some t) ctx k)"
    and "sys_ok hold w (syscall_IPC_SEND (Some t) ctx k)"
    and "sys_ok hold w (syscall_IPC_RECV (Some t) ctx k)"
proof -
  note R = sys_roomD [OF room] and I = kernel_invD(3) [OF inv]
  have sub: "\<exists>r s. kipc_subscribe ep (obj_mem env) ok (k_ipc k) = Some (r, s) \<and> kernel_inv hold w (k\<lparr>k_ipc := s\<rparr>)" for ep ok
    using kipc_subscribe_inv [OF I R(1,4), of "obj_mem env" ep ok] kernel_inv_ipc [OF inv] by blast
  have rcv: "\<exists>r s. kipc_recv_nb ep (k_ipc k) = Some (r, s) \<and> kernel_inv hold w (k\<lparr>k_ipc := s\<rparr>)" for ep
    using kipc_recv_nb_inv [OF I, of ep] kernel_inv_ipc [OF inv] by blast
  show "sys_ok hold w (syscall_IPC_SUBSCRIBE (Some t) env ctx k)"
  proof (cases "resolve (Some t) (rdi ctx) CAP_TYPE_IPC CAP_RIGHT_IPC_SUBSCRIBE k")
    case (Some ep) then show ?thesis using sub [of ep "aux_mem env"] by (auto simp: syscall_IPC_SUBSCRIBE_def)
  qed (simp add: syscall_IPC_SUBSCRIBE_def inv)
  show "sys_ok hold w (syscall_IPC_TRY_RECV (Some t) ctx k)"
  proof (cases "resolve (Some t) (rdi ctx) CAP_TYPE_IPC CAP_RIGHT_IPC_RECV k")
    case (Some ep) then show ?thesis using rcv [of ep] by (auto simp: syscall_IPC_TRY_RECV_def)
  qed (simp add: syscall_IPC_TRY_RECV_def inv)
qed (use inv in \<open>auto simp: syscall_IPC_BIND_NOTIFY_def syscall_IPC_UNBIND_NOTIFY_def syscall_IPC_SEND_def syscall_IPC_RECV_def Let_def
    ret_ok enter_ipc_ok split: option.split\<close>)

lemma device_calls_ok:
  assumes inv: "kernel_inv hold w k"
  shows "sys_ok hold w (port_in rd (Some t) ctx k)" and "sys_ok hold w (port_out wr (Some t) ctx k)"
    and "sys_ok hold w (syscall_IRQ_WAIT (Some t) ctx k)" and "sys_ok hold w (syscall_IRQ_ACK (Some t) ctx k)"
    and "sys_ok hold w (syscall_IRQ_BIND (Some t) env ctx k)" and "sys_ok hold w (syscall_IRQ_UNBIND (Some t) ctx k)"
proof -
  have "kernel_inv hold w (set_irq i k)" if "kirq_wait h (irq_view k) = (r, i)" for h r i
    using kernel_inv_irq [OF inv kirq_wait_inv [OF kernel_invD(4) [OF inv]], of h] that by simp
  with inv show "sys_ok hold w (syscall_IRQ_WAIT (Some t) ctx k)"
    by (auto simp: syscall_IRQ_WAIT_def split: option.split prod.split wait_result.split)
qed (use inv in \<open>auto simp: port_in_def port_out_def syscall_IRQ_ACK_def syscall_IRQ_BIND_def syscall_IRQ_UNBIND_def Let_def ret_ok
    split: option.split sum.split prod.split\<close>)

lemma notify_calls_ok:
  assumes inv: "kernel_inv hold w k"
  shows "sys_ok hold w (syscall_NOTIFY_POLL (Some t) ctx k)" and "sys_ok hold w (syscall_NOTIFY_ACK (Some t) ctx k)"
    and "sys_ok hold w (syscall_NOTIFY_SIGNAL (Some t) ctx k)"
proof -
  have p: "\<exists>r m. knotify_poll n (notifications (k_ipc k)) = Some (r, m) \<and> kernel_inv hold w (set_notify m k)" for n
    using knotify_poll_inv [OF kernel_notify_inv [OF inv], of n] kernel_inv_notify [OF inv] by blast
  show "sys_ok hold w (syscall_NOTIFY_POLL (Some t) ctx k)"
  proof (cases "resolve (Some t) (rdi ctx) CAP_TYPE_NOTIFY CAP_RIGHT_NOTIFY_WAIT k")
    case (Some n) then show ?thesis using p [of n] by (auto simp: syscall_NOTIFY_POLL_def Let_def split: option.split)
  qed (simp add: syscall_NOTIFY_POLL_def Let_def inv)
qed (use inv in \<open>auto simp: syscall_NOTIFY_ACK_def syscall_NOTIFY_SIGNAL_def ret_ok split: option.split\<close>)

lemma sys_exec_ok:
  assumes inv: "kernel_inv hold w k" and room: "sys_room env k"
  shows "sys_ok hold w (sys_exec n (Some t) env ctx k)"
  using create_ok [OF assms] ipc_calls_ok [OF assms] pmem_ok [OF assms] caps_calls_ok [OF inv]
    notify_calls_ok [OF inv] notify_wait_ok [OF inv]
  by (cases n) (simp_all add: syscall_PORT_INB_def syscall_PORT_INW_def syscall_PORT_INL_def syscall_PORT_OUTB_def
      syscall_PORT_OUTW_def syscall_PORT_OUTL_def syscall_TIMER_MONOTONIC_def syscall_unimplemented_def inv
      device_calls_ok [OF inv])

section \<open>Threads inside blocking calls\<close>

fun refs_ok :: "(addr \<Rightarrow> nat) \<Rightarrow> (addr \<Rightarrow> nat) \<Rightarrow> outcome \<Rightarrow> bool" where
  "refs_ok hold det (Step pc s) \<longleftrightarrow> ipc_inv (\<lambda>b. hold b + pc_hold pc b) (\<lambda>n. det n + pc_det pc n) s"
| "refs_ok hold det Blocked \<longleftrightarrow> True"
| "refs_ok hold det Fault \<longleftrightarrow> False"

lemma held_lives: "ipc_inv (\<lambda>b. hold b + pc_hold pc b) det s \<Longrightarrow> 0 < pc_hold pc a \<Longrightarrow> \<exists>e. eps s a = Some e"
  using obj_inv_held [OF ipc_invD(1), of "\<lambda>b. hold b + pc_hold pc b" det s a] by simp

lemma after_release_refs:
  assumes "ipc_inv (\<lambda>b. hold b + (of_bool (a = b) + pc_hold pc b)) (\<lambda>n. det n + pc_det pc n) s"
  shows "refs_ok hold det (after_release a pc s)"
proof -
  let ?h = "\<lambda>b. hold b + (of_bool (a = b) + pc_hold pc b)"
  have eq: "?h(a := ?h a - 1) = (\<lambda>b. hold b + pc_hold pc b)" by auto
  obtain s' where "kipc_release a s = Some s'" "ipc_inv (?h(a := ?h a - 1)) (\<lambda>n. det n + pc_det pc n) s'"
    using kipc_release_inv [OF assms, of a] by auto
  then show ?thesis unfolding eq by (simp add: after_release_def)
qed

lemma pc_hold_after_send [simp]: "pc_hold (after_send st c) b = ctx_hold c b" "pc_det (after_send st c) n = 0"
  by (cases c; simp)+

lemma queue_rounds_refs:
  assumes "ipc_inv hold det s" and "eps s a = Some e"
  shows "\<exists>r s'. kipc_enqueue_blocking a m s = Some (r, s') \<and> ipc_inv hold det s'"
    and "\<exists>r s'. kipc_recv_round a s = Some (r, s') \<and> ipc_inv hold det s'"
proof -
  have "ipc_inv hold det (e_update a (\<lambda>e. e\<lparr>waiting_senders := waiting_senders e + 1\<rparr>) s)"
    "ipc_inv hold det (e_update a (\<lambda>e. e\<lparr>waiting_receivers := waiting_receivers e + 1\<rparr>) s)"
    by (rule ipc_inv_soft [OF assms(1)]; simp add: queue_wf_def)+
  with assms enqueue_locked_inv [OF assms, of m] dequeue_locked_inv [OF assms]
  show "\<exists>r s'. kipc_enqueue_blocking a m s = Some (r, s') \<and> ipc_inv hold det s'"
    "\<exists>r s'. kipc_recv_round a s = Some (r, s') \<and> ipc_inv hold det s'"
    by (auto simp: kipc_enqueue_blocking_def kipc_recv_round_def split: option.split)
qed

lemma publish_get_refs:
  assumes inv: "ipc_inv (\<lambda>b. hold b + of_bool (p = b)) det s"
  shows "refs_ok hold det (kipc_publish_get p m h rest s)"
proof -
  obtain q s1 where acq: "kipc_acquire h s = (q, s1)" by fastforce
  show ?thesis
  proof (cases q)
    case None
    with acq kipc_acquire_None [of h s s1] inv show ?thesis by (simp add: kipc_publish_get_def)
  next
    case (Some a)
    have eq: "(\<lambda>b. hold b + of_bool (p = b))(a := hold a + of_bool (p = a) + 1) = (\<lambda>b. hold b + (of_bool (a = b) + of_bool (p = b)))" by auto
    have "ipc_inv (\<lambda>b. hold b + (of_bool (a = b) + of_bool (p = b))) det s1" "\<exists>e. eps s1 a = Some e"
      using kipc_acquire_inv(1) [OF inv acq [unfolded Some], unfolded eq] kipc_acquire_inv(2) [OF inv acq [unfolded Some]] by blast+
    with acq Some show ?thesis by (auto simp: kipc_publish_get_def)
  qed
qed

lemma sem_take_refs:
  assumes "ipc_inv hold det s"
  shows "ipc_inv hold det (e_update a (\<lambda>e. e\<lparr>sender_sem := sender_sem e - 1\<rparr>) s)"
    and "ipc_inv hold det (e_update a (\<lambda>e. e\<lparr>receiver_sem := receiver_sem e - 1\<rparr>) s)"
  by (rule ipc_inv_soft [OF assms]; simp add: queue_wf_def)+

lemma destroy_refs:
  assumes inv: "ipc_inv (\<lambda>b. hold b + of_bool (a = b)) (\<lambda>n. det n + count_list (map fst bs) n) s"
  shows "refs_ok hold det (thread_step (Destroy a ns nr bs) s)"
proof -
  obtain s1 where s1: "kipc_free_notify_bindings bs s = Some s1" "ipc_inv (\<lambda>b. hold b + of_bool (a = b)) det s1"
    using kipc_free_notify_bindings_inv [OF inv] by blast
  have "refs_ok hold det (after_release a (Ret (Inl IPC_OK)) s1)" by (rule after_release_refs) (use s1(2) in simp)
  with s1(1) ksem_post_inv [OF inv, of a 1] show ?thesis by simp
qed

lemma thread_step_refs:
  assumes inv: "ipc_inv (\<lambda>b. hold b + pc_hold pc b) (\<lambda>n. det n + pc_det pc n) s"
  shows "refs_ok hold det (thread_step pc s)"
proof (cases pc)
  case (Send a m c)
  obtain e where "eps s a = Some e" using held_lives [OF inv, of a] Send by auto
  from queue_rounds_refs(1) [OF inv this, of m] Send show ?thesis by (auto split: option.split)
next
  case (Recv a)
  obtain e where "eps s a = Some e" using held_lives [OF inv, of a] Recv by auto
  from queue_rounds_refs(2) [OF inv this] Recv show ?thesis by (auto split: option.split)
next
  case (SendWait a m c)
  obtain e where "eps s a = Some e" using held_lives [OF inv, of a] SendWait by auto
  with sem_take_refs(1) [OF inv, of a] SendWait show ?thesis by simp
next
  case (RecvWait a)
  obtain e where "eps s a = Some e" using held_lives [OF inv, of a] RecvWait by auto
  with sem_take_refs(2) [OF inv, of a] RecvWait show ?thesis by simp
next
  case (Publish p m cur)
  obtain e where "eps s p = Some e" using held_lives [OF inv, of p] Publish by auto
  with inv Publish show ?thesis by (simp add: kipc_publish_def split: list.split)
qed (use inv in \<open>auto simp: publish_get_refs destroy_refs simp del: thread_step.simps(10) intro!: after_release_refs\<close>)

lemma notify_step_refs:
  assumes inv: "notify_inv (\<lambda>n. ext n + pc_refs pc n) m"
  shows "knotify_wait_step pc m = Some (pc', m') \<Longrightarrow> notify_inv (\<lambda>n. ext n + pc_refs pc' n) m'"
    and "pc = WCheck a bits \<Longrightarrow> knotify_wait_step pc m \<noteq> None"
    and "pc = WBlocked a bits \<Longrightarrow> n_objs m a \<noteq> None"
proof -
  have live: "\<exists>n. n_objs m a = Some n" if "pc = WCheck a bits \<or> pc = WBlocked a bits" for a bits
    using obj_inv_held [OF inv [unfolded notify_inv_def], of a] that by auto
  have rel: "\<exists>m1. knotify_release a m = Some m1 \<and> notify_inv ext m1" if "pc = WCheck a bits" for a bits
  proof -
    have "(\<lambda>n. ext n + pc_refs pc n)(a := ext a + pc_refs pc a - 1) = ext" using that by auto
    then show ?thesis using knotify_release_inv [OF inv, of a] that by simp
  qed
  show "pc = WCheck a bits \<Longrightarrow> knotify_wait_step pc m \<noteq> None" using live [of a bits] rel [of a bits] by auto
  show "pc = WBlocked a bits \<Longrightarrow> n_objs m a \<noteq> None" using live [of a bits] by auto
  assume step: "knotify_wait_step pc m = Some (pc', m')"
  show "notify_inv (\<lambda>n. ext n + pc_refs pc' n) m'"
  proof (cases pc)
    case (WCheck b bits')
    then show ?thesis using step live [of b bits'] rel [of b bits'] inv by (auto split: if_splits)
  next
    case (WBlocked b bits')
    then show ?thesis using step live [of b bits'] notify_inv_soft_upd [OF inv, of "\<lambda>n. n\<lparr>n_sem := n_sem n - 1\<rparr>" b]
      by (auto split: if_splits)
  qed (use step in simp)
qed

section \<open>Histories of the kernel\<close>

text \<open>
  The threads inside a blocking call are a multiset.  The last three rules stand for the kernel's own start
  code, which creates interrupt and port objects and edits capability sets directly.
\<close>

inductive kernel_step :: "kcall multiset \<times> kernel_state \<Rightarrow> kcall multiset \<times> kernel_state \<Rightarrow> bool" where
  returns: "sys_room env k \<Longrightarrow> sys_exec n (Some t) env ctx k = SysReturn ctx' k' \<Longrightarrow> kernel_step (T, k) (T, k')"
| enters: "sys_room env k \<Longrightarrow> sys_exec n (Some t) env ctx k = SysEnter c k' \<Longrightarrow> kernel_step (T, k) (add_mset c T, k')"
| ipc: "thread_step pc (k_ipc k) = Step pc' s \<Longrightarrow>
    kernel_step (add_mset (InIpc pc) T, k) (add_mset (InIpc pc') T, k\<lparr>k_ipc := s\<rparr>)"
| ipc_done: "kernel_step (add_mset (InIpc (Ret r)) T, k) (T, k)"
| notify: "knotify_wait_step pc (notifications (k_ipc k)) = Some (pc', m) \<Longrightarrow>
    kernel_step (add_mset (InNotify pc) T, k) (add_mset (InNotify pc') T, set_notify m k)"
| notify_done: "kernel_step (add_mset (InNotify (WDone r)) T, k) (T, k)"
| irq_done: "kirq_wait h (irq_view k) = (IrqReturns st, i) \<Longrightarrow> kernel_step (add_mset (InIrqWait h) T, k) (T, set_irq i k)"
| interrupt: "kernel_step (T, k) (T, set_irq (kirq_handler line (irq_view k)) k)"
| tick: "kernel_step (T, k) (T, k\<lparr>ticks_so_far := ticks_so_far k + 1\<rparr>)"
| setup_irq: "kernel_step (T, k) (T, set_irq (snd (kirq_create ok line (irq_view k))) k)"
| setup_port: "kernel_step (T, k) (T, set_irq ((irq_view k)\<lparr>irq_ports := p\<rparr>) k)"
| setup_caps: "next_cap_handle (k_caps k) \<noteq> UINT64_MAX \<Longrightarrow> next_capset_handle (k_caps k) \<noteq> UINT64_MAX \<Longrightarrow>
    kernel_step (T, k) (T, k\<lparr>k_caps := caps_exec op (k_caps k)\<rparr>)"

definition threads_inv :: "kcall multiset \<times> kernel_state \<Rightarrow> bool" where
  "threads_inv st \<longleftrightarrow> (case st of (T, k) \<Rightarrow> kernel_inv (total kcall_hold T) (total kcall_refs T) k)"

lemma kernel_boot_inv: "threads_inv ({#}, kernel_boot)"
proof -
  have "kirq_init True knotify_init kportio_init \<noteq> None" by code_simp
  then have t: "global_irq_table irq_boot = []" "irq_notifications irq_boot = knotify_init"
    by (auto simp: irq_boot_def kirq_init_def split: prod.splits option.splits)
  have "bind_refs (kipc_init knotify_init) = (\<lambda>_. 0)" by (simp add: bind_refs_def kipc_init_def registered_def fun_eq_iff)
  moreover have "irq_view kernel_boot = irq_boot"
    using t(2) by (simp add: irq_view_def kernel_boot_def kipc_init_def)
  moreover have "total f {#} = (\<lambda>_. 0)" for f :: "kcall \<Rightarrow> addr \<Rightarrow> nat" by (simp add: fun_eq_iff)
  ultimately show ?thesis
    using irq_boot_inv kipc_init_inv kpmem_init_inv kinit_caps_wf t(1)
    by (simp add: threads_inv_def kernel_inv_def irq_refs_def) (simp add: kernel_boot_def)
qed

lemma kernel_inv_more [simp]: "kernel_inv hold w (k\<lparr>ticks_so_far := n\<rparr>) \<longleftrightarrow> kernel_inv hold w k"
  by (simp add: kernel_inv_def irq_view_def)

lemma total_add: "total f (add_mset c T) = (\<lambda>b. total f T b + f c b)"
  by (simp add: fun_eq_iff)

lemma ipc_step_inv:
  assumes "threads_inv (add_mset (InIpc pc) T, k)"
  shows "thread_step pc (k_ipc k) \<noteq> Fault"
    and "thread_step pc (k_ipc k) = Step pc' s \<Longrightarrow> threads_inv (add_mset (InIpc pc') T, k\<lparr>k_ipc := s\<rparr>)"
proof -
  have inv: "kernel_inv (\<lambda>b. total kcall_hold T b + pc_hold pc b) (\<lambda>n. total kcall_refs T n + pc_det pc n) k"
    using assms by (simp add: threads_inv_def total_add)
  have "ipc_inv (\<lambda>b. total kcall_hold T b + pc_hold pc b)
      (\<lambda>n. (total kcall_refs T n + irq_refs (global_irq_table (k_irq k)) n) + pc_det pc n) (k_ipc k)"
    using kernel_invD(3) [OF inv] by (simp add: add_ac)
  note ok = thread_step_refs [OF this]
  then show "thread_step pc (k_ipc k) \<noteq> Fault" by auto
  assume "thread_step pc (k_ipc k) = Step pc' s"
  with ok have "ipc_inv (\<lambda>b. total kcall_hold T b + pc_hold pc' b)
      (\<lambda>n. (total kcall_refs T n + pc_det pc' n) + irq_refs (global_irq_table (k_irq k)) n) s" by (simp add: add_ac)
  from kernel_inv_ipc [OF inv this] show "threads_inv (add_mset (InIpc pc') T, k\<lparr>k_ipc := s\<rparr>)"
    by (simp add: threads_inv_def total_add)
qed

lemma notify_step_inv:
  assumes "threads_inv (add_mset (InNotify pc) T, k)"
  shows "pc = WCheck a bits \<Longrightarrow> knotify_wait_step pc (notifications (k_ipc k)) \<noteq> None"
    and "pc = WBlocked a bits \<Longrightarrow> n_objs (notifications (k_ipc k)) a \<noteq> None"
    and "knotify_wait_step pc (notifications (k_ipc k)) = Some (pc', m) \<Longrightarrow> threads_inv (add_mset (InNotify pc') T, set_notify m k)"
proof -
  let ?ext = "\<lambda>n. total kcall_refs T n + irq_refs (global_irq_table (k_irq k)) n + bind_refs (k_ipc k) n"
  have inv: "kernel_inv (total kcall_hold T) (\<lambda>n. total kcall_refs T n + pc_refs pc n) k"
    using assms by (simp add: threads_inv_def total_add)
  have "notify_inv (\<lambda>n. ?ext n + pc_refs pc n) (notifications (k_ipc k))"
    using kernel_notify_inv [OF inv] by (simp add: add_ac)
  note ok = notify_step_refs [OF this]
  show "pc = WCheck a bits \<Longrightarrow> knotify_wait_step pc (notifications (k_ipc k)) \<noteq> None" by (rule ok(2))
  show "pc = WBlocked a bits \<Longrightarrow> n_objs (notifications (k_ipc k)) a \<noteq> None" by (rule ok(3))
  assume "knotify_wait_step pc (notifications (k_ipc k)) = Some (pc', m)"
  from ok(1) [OF this] have
    "notify_inv (\<lambda>n. (total kcall_refs T n + pc_refs pc' n) + irq_refs (global_irq_table (k_irq k)) n + bind_refs (k_ipc k) n) m"
    by (simp add: add_ac)
  from kernel_inv_notify [OF inv this] show "threads_inv (add_mset (InNotify pc') T, set_notify m k)"
    by (simp add: threads_inv_def total_add)
qed

lemma irq_ports_inv: "irq_inv ext i \<Longrightarrow> irq_inv ext (i\<lparr>irq_ports := p\<rparr>)"
  by (simp add: irq_inv_def)

lemma kernel_step_inv: "kernel_step st st' \<Longrightarrow> threads_inv st \<Longrightarrow> threads_inv st'"
proof (induction rule: kernel_step.induct)
  case (returns env k n t ctx ctx' k' T)
  then show ?case using sys_exec_ok [of _ _ k env n t ctx] by (fastforce simp: threads_inv_def)
next
  case (enters env k n t ctx c k' T)
  then show ?case using sys_exec_ok [of _ _ k env n t ctx] by (fastforce simp: threads_inv_def total_add)
next
  case (ipc pc k pc' s T) then show ?case using ipc_step_inv(2) by blast
next
  case (notify pc k pc' m T) then show ?case using notify_step_inv(3) by blast
next
  case (irq_done h k st i T)
  then have inv: "kernel_inv (total kcall_hold T) (total kcall_refs T) k" by (simp add: threads_inv_def total_add)
  from kernel_inv_irq [OF inv kirq_wait_inv [OF kernel_invD(4) [OF inv]], of h] irq_done(1) show ?case by (simp add: threads_inv_def)
next
  case (interrupt T k line)
  then show ?case using kernel_inv_irq [OF _ kirq_handler_inv [OF kernel_invD(4)]] by (simp add: threads_inv_def)
next
  case (setup_irq T k ok line)
  then show ?case using kernel_inv_irq [OF _ kirq_create_inv [OF kernel_invD(4)]] by (simp add: threads_inv_def)
next
  case (setup_port T k p)
  then show ?case using kernel_inv_irq [OF _ irq_ports_inv [OF kernel_invD(4)]] by (simp add: threads_inv_def)
next
  case (setup_caps k T op)
  then show ?case using kernel_inv_caps [OF _ caps_exec_wf [OF kernel_invD(1)]] by (simp add: threads_inv_def)
qed (simp_all add: threads_inv_def total_add)

lemma kernel_reachable_inv: "kernel_step\<^sup>*\<^sup>* ({#}, kernel_boot) st \<Longrightarrow> threads_inv st"
  by (induction rule: rtranclp_induct) (auto intro: kernel_boot_inv kernel_step_inv)


text \<open>A thread creates a notification and waits for a bit of it.\<close>

definition demo_waiting :: kernel_state where
  "demo_waiting = the (sys_state (sys_exec NOTIFY_WAIT (Some demo_thread) (demo_env\<lparr>obj_mem := None\<rparr>) demo_ctx demo_created))"

fun entered :: "sysout \<Rightarrow> kcall option" where
  "entered (SysEnter c k) = Some c" | "entered _ = None"

lemma sys_state_return: "sys_state out \<noteq> None \<Longrightarrow> entered out = None \<Longrightarrow> \<exists>ctx. out = SysReturn ctx (the (sys_state out))"
  by (cases out) auto

lemma sys_state_enter: "entered out = Some c \<Longrightarrow> out = SysEnter c (the (sys_state out))"
  by (cases out) auto

lemma demo_waiting_reached: "kernel_step\<^sup>*\<^sup>* ({#}, kernel_boot) ({#InNotify (WCheck 1 1)#}, demo_waiting)"
proof -
  let ?create = "sys_exec NOTIFY_CREATE (Some demo_thread) demo_env demo_ctx kernel_boot"
  let ?wait = "sys_exec NOTIFY_WAIT (Some demo_thread) (demo_env\<lparr>obj_mem := None\<rparr>) demo_ctx demo_created"
  have boot: "sys_room demo_env kernel_boot" by code_simp
  have created: "sys_room (demo_env\<lparr>obj_mem := None\<rparr>) demo_created" by code_simp
  have "\<not> Option.is_none (sys_state ?create)" "entered ?create = None" by code_simp+
  then obtain ctx where "?create = SysReturn ctx demo_created"
    using sys_state_return [of ?create] by (auto simp: demo_created_def Option.is_none_def)
  from kernel_step.returns [OF boot this] have 1: "kernel_step ({#}, kernel_boot) ({#}, demo_created)" .
  have "entered ?wait = Some (InNotify (WCheck 1 1))" by code_simp
  from sys_state_enter [OF this] have "?wait = SysEnter (InNotify (WCheck 1 1)) demo_waiting" by (simp only: demo_waiting_def)
  from kernel_step.enters [OF created this] have "kernel_step ({#}, demo_created) ({#InNotify (WCheck 1 1)#}, demo_waiting)" .
  with 1 show ?thesis by (meson r_into_rtranclp rtranclp_trans)
qed


end
