(* ===== verification/Physmem.thy ===== *)
theory Physmem
  imports Prelude
begin

text \<open>
  The physical page allocator (src/kernel/core/memory.c): the allocation bitmap, the reference count
  of each page, the search for a free run, and phys_page_get and phys_page_put, whose last put zeroes
  the page.  Page numbers, page counts and search hints are natural numbers: they never exceed the
  number of tracked pages, at most 2 ^ 52.  Addresses and reference counts keep their width.
  A result \<open>None\<close> of an allocation is failure; of phys_page_get, phys_page_put and phys_free_pages it is
  memory_panic.  kcritical is held around each operation.
\<close>

section \<open>State and operations\<close>

record phys_state =
  tracked_phys_limit :: u64
  managed_page_count_value :: nat
  free_page_count_value :: nat
  general_search_hint :: nat
  constrained_search_hint :: nat
  general_pool_floor_page :: nat
  alloc_bitmap :: "u8 list"
  page_refcounts :: "u32 list"
  phys_words :: "u64 \<Rightarrow> nat \<Rightarrow> u64"
    \<comment> \<open>the 512 words of the page at a physical address\<close>

abbreviation UINT32_MAX :: u32 where "UINT32_MAX \<equiv> - 1"

definition align_up_u64 :: "u64 \<Rightarrow> u64 \<Rightarrow> u64" where
  "align_up_u64 v a = (v + a - 1) AND NOT (a - 1)"

definition align_down_u64 :: "u64 \<Rightarrow> u64 \<Rightarrow> u64" where
  "align_down_u64 v a = v AND NOT (a - 1)"

definition bitmap_set :: "nat \<Rightarrow> phys_state \<Rightarrow> phys_state" where
  "bitmap_set i s = s\<lparr>alloc_bitmap := (alloc_bitmap s)[i div 8 := alloc_bitmap s ! (i div 8) OR push_bit (i mod 8) 1]\<rparr>"

definition bitmap_clear :: "nat \<Rightarrow> phys_state \<Rightarrow> phys_state" where
  "bitmap_clear i s = s\<lparr>alloc_bitmap := (alloc_bitmap s)[i div 8 := alloc_bitmap s ! (i div 8) AND NOT (push_bit (i mod 8) 1)]\<rparr>"

definition bitmap_test :: "nat \<Rightarrow> phys_state \<Rightarrow> bool" where
  "bitmap_test i s \<longleftrightarrow> alloc_bitmap s ! (i div 8) AND push_bit (i mod 8) 1 \<noteq> 0"

definition tracked_page_count :: "phys_state \<Rightarrow> nat" where
  "tracked_page_count s = unat (tracked_phys_limit s div PAGE_SIZE)"

definition page_index_valid :: "nat \<Rightarrow> phys_state \<Rightarrow> bool" where
  "page_index_valid i s \<longleftrightarrow> i < tracked_page_count s"

definition phys_page_aligned :: "u64 \<Rightarrow> bool" where
  "phys_page_aligned page \<longleftrightarrow> page AND (PAGE_SIZE - 1) = 0"

definition phys_to_page_index :: "u64 \<Rightarrow> nat" where
  "phys_to_page_index p = unat (p div PAGE_SIZE)"

definition set_refcount :: "nat \<Rightarrow> u32 \<Rightarrow> phys_state \<Rightarrow> phys_state" where
  "set_refcount i r s = s\<lparr>page_refcounts := (page_refcounts s)[i := r]\<rparr>"

definition phys_page_is_managed :: "u64 \<Rightarrow> phys_state \<Rightarrow> bool" where
  "phys_page_is_managed page s \<longleftrightarrow>
     phys_page_aligned page \<and> page < tracked_phys_limit s \<and>
     page_refcounts s ! phys_to_page_index page \<noteq> UINT32_MAX"

definition page_free :: "phys_state \<Rightarrow> nat \<Rightarrow> bool" where
  "page_free s i \<longleftrightarrow> \<not> bitmap_test i s \<and> page_refcounts s ! i = 0"

function search_free_run :: "nat \<Rightarrow> nat \<Rightarrow> nat \<Rightarrow> nat \<Rightarrow> nat \<Rightarrow> phys_state \<Rightarrow> nat option" where
  \<comment> \<open>the loop at \<open>page\<close>, with the length and the start of the current run; \<open>None\<close> is UINT64_MAX\<close>
  "search_free_run run run_start page end_page count s =
     (if page \<ge> end_page then None
      else if page_free s page then
        (let run_start = (if run = 0 then page else run_start) in
         if run + 1 = count then Some run_start
         else search_free_run (run + 1) run_start (page + 1) end_page count s)
      else search_free_run 0 run_start (page + 1) end_page count s)"
  by pat_completeness auto
termination by (relation "measure (\<lambda>(_, _, page, end_page, _, _). end_page - page)") auto

declare search_free_run.simps [simp del]

definition take_page :: "nat \<Rightarrow> phys_state \<Rightarrow> phys_state" where
  "take_page i s = set_refcount i 1 (bitmap_set i s)"

definition alloc_run_from_interval :: "nat \<Rightarrow> nat \<Rightarrow> nat \<Rightarrow> u64 \<Rightarrow> phys_state \<Rightarrow> (u64 \<times> nat \<times> phys_state) option" where
  \<comment> \<open>the page, the new hint and the new state\<close>
  "alloc_run_from_interval interval_start interval_end hint count s =
     (let n = unat count in
      if n = 0 \<or> interval_start \<ge> interval_end \<or> interval_end - interval_start < n then None
      else
        let start = (if hint < interval_start \<or> hint \<ge> interval_end then interval_start else hint);
            first = search_free_run 0 start start interval_end n s;
            found = (if first = None \<and> start > interval_start
                     then search_free_run 0 interval_start interval_start start n s else first) in
        case found of
          None \<Rightarrow> None
        | Some f \<Rightarrow>
            let s = fold take_page [f ..< f + n] s in
            Some (of_nat f * PAGE_SIZE, f + n, s\<lparr>free_page_count_value := free_page_count_value s - n\<rparr>))"

definition phys_alloc_pages :: "u64 \<Rightarrow> phys_state \<Rightarrow> (u64 \<times> phys_state) option" where
  "phys_alloc_pages count s =
     (if count = 0 then None
      else case alloc_run_from_interval (general_pool_floor_page s) (tracked_page_count s) (general_search_hint s) count s of
        None \<Rightarrow> None
      | Some (page, hint, s) \<Rightarrow> Some (page, s\<lparr>general_search_hint := hint\<rparr>))"

definition phys_alloc_page :: "phys_state \<Rightarrow> (u64 \<times> phys_state) option" where
  "phys_alloc_page s = phys_alloc_pages 1 s"

definition phys_alloc_pages_below :: "u64 \<Rightarrow> u64 \<Rightarrow> phys_state \<Rightarrow> (u64 \<times> phys_state) option" where
  "phys_alloc_pages_below count max_phys_addr s =
     (if count = 0 \<or> max_phys_addr \<le> PAGE_SIZE then None
      else
        let end_page = unat (align_up_u64 max_phys_addr PAGE_SIZE div PAGE_SIZE);
            end_page = (if end_page > tracked_page_count s then tracked_page_count s else end_page) in
        case alloc_run_from_interval 1 end_page (constrained_search_hint s) count s of
          None \<Rightarrow> None
        | Some (page, hint, s) \<Rightarrow> Some (page, s\<lparr>constrained_search_hint := hint\<rparr>))"

definition phys_alloc_page_below :: "u64 \<Rightarrow> phys_state \<Rightarrow> (u64 \<times> phys_state) option" where
  "phys_alloc_page_below max_phys_addr s = phys_alloc_pages_below 1 max_phys_addr s"

definition phys_page_get :: "u64 \<Rightarrow> phys_state \<Rightarrow> phys_state option" where
  "phys_page_get page s =
     (if \<not> phys_page_aligned page then None
      else if \<not> phys_page_is_managed page s then None
      else
        let i = phys_to_page_index page in
        if page_refcounts s ! i = 0 then None
        else if page_refcounts s ! i = UINT32_MAX then None
        else if page_refcounts s ! i = UINT32_MAX - 1 then None
        else Some (set_refcount i (page_refcounts s ! i + 1) s))"

definition zero_page :: "u64 \<Rightarrow> phys_state \<Rightarrow> phys_state" where
  "zero_page page s = s\<lparr>phys_words := (phys_words s)(page := (\<lambda>_. 0))\<rparr>"

definition free_page :: "nat \<Rightarrow> u64 \<Rightarrow> phys_state \<Rightarrow> phys_state" where
  \<comment> \<open>what the last put does\<close>
  "free_page i page s =
     (let s = bitmap_clear i s;
          s = s\<lparr>free_page_count_value := free_page_count_value s + 1\<rparr>;
          s = (if i < general_search_hint s \<and> i \<ge> general_pool_floor_page s then s\<lparr>general_search_hint := i\<rparr> else s);
          s = (if i < constrained_search_hint s then s\<lparr>constrained_search_hint := i\<rparr> else s) in
      zero_page page s)"

definition phys_page_put :: "u64 \<Rightarrow> phys_state \<Rightarrow> phys_state option" where
  "phys_page_put page s =
     (if \<not> phys_page_aligned page then None
      else if \<not> phys_page_is_managed page s then None
      else
        let i = phys_to_page_index page in
        if page_refcounts s ! i = 0 then None
        else
          let r = page_refcounts s ! i - 1;
              s = set_refcount i r s in
          if r = 0 then Some (free_page i page s) else Some s)"

fun put_pages :: "u64 \<Rightarrow> nat \<Rightarrow> phys_state \<Rightarrow> phys_state option" where
  "put_pages base 0 s = Some s"
| "put_pages base (Suc n) s = Option.bind (phys_page_put base s) (put_pages (base + PAGE_SIZE) n)"

definition phys_free_pages :: "u64 \<Rightarrow> u64 \<Rightarrow> phys_state \<Rightarrow> phys_state option" where
  "phys_free_pages base count s = put_pages base (unat count) s"

definition phys_pages_in_use :: "phys_state \<Rightarrow> nat" where
  "phys_pages_in_use s = managed_page_count_value s - free_page_count_value s"

section \<open>The bitmap\<close>

lemma bitmap_test_bit: "bitmap_test i s \<longleftrightarrow> bit (alloc_bitmap s ! (i div 8)) (i mod 8)"
  unfolding bitmap_test_def bit_iff_and_push_bit_not_eq_0 ..

lemma byte_slot_eq: "(i :: nat) div 8 = j div 8 \<Longrightarrow> i mod 8 = j mod 8 \<Longrightarrow> i = j"
  by (metis div_mult_mod_eq)

lemma bit_set_byte: "k < 8 \<Longrightarrow> m < 8 \<Longrightarrow> bit (w OR 2 ^ k) m \<longleftrightarrow> m = k \<or> bit w m" for w :: u8
  by (auto simp: bit_or_iff bit_exp_iff)

lemma bit_clear_byte: "k < 8 \<Longrightarrow> m < 8 \<Longrightarrow> bit (w AND NOT (2 ^ k)) m \<longleftrightarrow> m \<noteq> k \<and> bit w m" for w :: u8
  by (auto simp: bit_and_iff bit_not_iff bit_exp_iff)

lemma bitmap_test_set:
  assumes "i div 8 < length (alloc_bitmap s)"
  shows "bitmap_test j (bitmap_set i s) \<longleftrightarrow> j = i \<or> bitmap_test j s"
proof (cases "i div 8 = j div 8")
  case True
  have "j mod 8 = i mod 8 \<longleftrightarrow> j = i" using byte_slot_eq [of i j] True by auto
  with True assms show ?thesis unfolding bitmap_test_bit bitmap_set_def by (simp add: bit_set_byte)
next
  case False
  then show ?thesis unfolding bitmap_test_bit bitmap_set_def by auto
qed

lemma bitmap_test_clear:
  assumes "i div 8 < length (alloc_bitmap s)"
  shows "bitmap_test j (bitmap_clear i s) \<longleftrightarrow> j \<noteq> i \<and> bitmap_test j s"
proof (cases "i div 8 = j div 8")
  case True
  have "j mod 8 = i mod 8 \<longleftrightarrow> j = i" using byte_slot_eq [of i j] True by auto
  with True assms show ?thesis unfolding bitmap_test_bit bitmap_clear_def by (simp add: bit_clear_byte)
next
  case False
  then show ?thesis unfolding bitmap_test_bit bitmap_clear_def by auto
qed

lemma bitmap_fields [simp]:
  "length (alloc_bitmap (bitmap_set i s)) = length (alloc_bitmap s)"
  "length (alloc_bitmap (bitmap_clear i s)) = length (alloc_bitmap s)"
  "page_refcounts (bitmap_set i s) = page_refcounts s" "page_refcounts (bitmap_clear i s) = page_refcounts s"
  "tracked_phys_limit (bitmap_set i s) = tracked_phys_limit s" "tracked_phys_limit (bitmap_clear i s) = tracked_phys_limit s"
  by (simp_all add: bitmap_set_def bitmap_clear_def)

lemma bitmap_test_cong [simp]:
  "bitmap_test i (set_refcount j r s) = bitmap_test i s"
  "bitmap_test i (s\<lparr>free_page_count_value := n\<rparr>) = bitmap_test i s"
  "bitmap_test i (s\<lparr>general_search_hint := n\<rparr>) = bitmap_test i s"
  "bitmap_test i (s\<lparr>constrained_search_hint := n\<rparr>) = bitmap_test i s"
  "bitmap_test i (zero_page p s) = bitmap_test i s"
  by (simp_all add: bitmap_test_def set_refcount_def zero_page_def)

section \<open>The invariant\<close>

definition phys_wf :: "phys_state \<Rightarrow> bool" where
  "phys_wf s \<longleftrightarrow>
     unat (tracked_phys_limit s) = 4096 * tracked_page_count s \<and>
     length (page_refcounts s) = tracked_page_count s \<and>
     length (alloc_bitmap s) = (tracked_page_count s + 7) div 8 \<and>
     (\<forall>i < tracked_page_count s. bitmap_test i s \<longleftrightarrow> page_refcounts s ! i \<noteq> 0) \<and>
     managed_page_count_value s = card {i. i < tracked_page_count s \<and> page_refcounts s ! i \<noteq> UINT32_MAX} \<and>
     free_page_count_value s = card {i. i < tracked_page_count s \<and> page_refcounts s ! i = 0}"

lemma phys_wfD:
  assumes "phys_wf s"
  shows "unat (tracked_phys_limit s) = 4096 * tracked_page_count s"
    "length (page_refcounts s) = tracked_page_count s"
    "length (alloc_bitmap s) = (tracked_page_count s + 7) div 8"
    "i < tracked_page_count s \<Longrightarrow> bitmap_test i s \<longleftrightarrow> page_refcounts s ! i \<noteq> 0"
    "managed_page_count_value s = card {i. i < tracked_page_count s \<and> page_refcounts s ! i \<noteq> UINT32_MAX}"
    "free_page_count_value s = card {i. i < tracked_page_count s \<and> page_refcounts s ! i = 0}"
  using assms unfolding phys_wf_def by blast+

lemma byte_in_bitmap: "i < n \<Longrightarrow> i div 8 < (n + 7) div (8 :: nat)"
proof -
  assume "i < n"
  then have "(i + 8) div 8 \<le> (n + 7) div 8" by (intro div_le_mono) simp
  then show ?thesis by simp
qed

lemma page_free_wf: "phys_wf s \<Longrightarrow> i < tracked_page_count s \<Longrightarrow> page_free s i \<longleftrightarrow> page_refcounts s ! i = 0"
  by (auto simp: page_free_def phys_wfD(4))

lemma unat_page_div: "unat (p div PAGE_SIZE) = unat p div 4096" for p :: u64
  by (simp add: unat_div)

lemma aligned_unat: "phys_page_aligned p \<longleftrightarrow> unat p mod 4096 = 0"
proof -
  have "PAGE_SIZE - 1 = mask 12" by (simp add: mask_eq_exp_minus_1)
  moreover have "p AND mask 12 = p mod PAGE_SIZE" by (simp add: take_bit_eq_mask [symmetric] take_bit_eq_mod)
  ultimately have "p AND (PAGE_SIZE - 1) = p mod PAGE_SIZE" by metis
  moreover have "p mod PAGE_SIZE = 0 \<longleftrightarrow> unat p mod 4096 = 0" by (simp add: unat_mod unat_eq_zero [symmetric])
  ultimately show ?thesis by (simp add: phys_page_aligned_def)
qed

lemma managed_index:
  assumes "phys_wf s" "phys_page_is_managed p s"
  shows "phys_to_page_index p < tracked_page_count s"
proof -
  have "unat p < 4096 * tracked_page_count s"
    using assms(2) phys_wfD(1) [OF assms(1)] by (simp add: phys_page_is_managed_def word_less_nat_alt)
  then show ?thesis by (simp add: phys_to_page_index_def unat_page_div less_mult_imp_div_less mult.commute)
qed

lemma unat_of_nat_small: "k < 2 ^ 64 \<Longrightarrow> unat (of_nat k :: u64) = k"
  by (simp add: unsigned_of_nat take_bit_nat_eq_self)

text \<open>The address of a page number, and back.\<close>

lemma page_address:
  assumes "phys_wf s" "i < tracked_page_count s"
  shows "unat (of_nat i * PAGE_SIZE :: u64) = i * 4096" "phys_page_aligned (of_nat i * PAGE_SIZE)"
    "phys_to_page_index (of_nat i * PAGE_SIZE) = i" "of_nat i * PAGE_SIZE < tracked_phys_limit s"
proof -
  have lim: "i * 4096 < unat (tracked_phys_limit s)" using assms by (simp add: phys_wfD(1))
  then have "i * 4096 < 2 ^ 64" using unat_bound [of "tracked_phys_limit s"] by simp
  from unat_of_nat_small [OF this] show u: "unat (of_nat i * PAGE_SIZE :: u64) = i * 4096"
    by (simp only: of_nat_mult of_nat_numeral)
  show "phys_page_aligned (of_nat i * PAGE_SIZE)" by (simp add: aligned_unat u)
  show "phys_to_page_index (of_nat i * PAGE_SIZE) = i" by (simp add: phys_to_page_index_def unat_page_div u)
  show "of_nat i * PAGE_SIZE < tracked_phys_limit s" unfolding word_less_nat_alt u by (rule lim)
qed

section \<open>Searching and taking a run\<close>

lemma free_run_sound:
  "search_free_run run rs page e n s = Some f \<Longrightarrow> run < n \<Longrightarrow>
   (0 < run \<longrightarrow> rs + run = page) \<Longrightarrow> \<forall>k \<in> {page - run ..< page}. page_free s k \<Longrightarrow> run \<le> page \<Longrightarrow>
   page - run \<le> f \<and> f + n \<le> e \<and> (\<forall>k \<in> {f ..< f + n}. page_free s k)"
proof (induction run rs page e n s rule: search_free_run.induct)
  case (1 run rs page e n s)
  have p: "\<not> page \<ge> e" using "1.prems"(1) by (subst (asm) search_free_run.simps) (auto split: if_splits)
  show ?case
  proof (cases "page_free s page")
    case True
    have free: "\<forall>k \<in> {page + 1 - (run + 1) ..< page + 1}. page_free s k"
      using "1.prems"(4) True by (metis Suc_eq_plus1 add_diff_cancel_right atLeastLessThan_iff less_SucE)
    define rs' where "rs' = (if run = 0 then page else rs)"
    have rs': "rs' + (run + 1) = page + 1" using "1.prems"(3) by (auto simp: rs'_def)
    show ?thesis
    proof (cases "run + 1 = n")
      case T: True
      have "search_free_run run rs page e n s = Some rs'" using p True T by (subst search_free_run.simps) (simp add: rs'_def)
      with "1.prems"(1) have "f = rs'" by simp
      moreover have "page - run = rs'" "page + 1 = rs' + n" using rs' T by auto
      ultimately show ?thesis using free p T by simp
    next
      case F: False
      have "search_free_run run rs page e n s = search_free_run (run + 1) rs' (page + 1) e n s"
        using p True F by (subst search_free_run.simps) (simp add: rs'_def Let_def)
      with "1.prems"(1) have sr: "search_free_run (run + 1) rs' (page + 1) e n s = Some f" by simp
      have "page + 1 - (run + 1) \<le> f \<and> f + n \<le> e \<and> (\<forall>k \<in> {f ..< f + n}. page_free s k)"
        by (rule "1.IH"(1) [OF p True _ F]) (use sr rs' F "1.prems"(2,5) free rs'_def in auto)
      then show ?thesis by simp
    qed
  next
    case False
    have "search_free_run run rs page e n s = search_free_run 0 rs (page + 1) e n s"
      using p False by (subst search_free_run.simps) simp
    with "1.prems"(1) have sr: "search_free_run 0 rs (page + 1) e n s = Some f" by simp
    have "page + 1 - 0 \<le> f \<and> f + n \<le> e \<and> (\<forall>k \<in> {f ..< f + n}. page_free s k)"
      by (rule "1.IH"(2) [OF p False]) (use sr "1.prems"(2) in auto)
    then show ?thesis by linarith
  qed
qed

lemma free_run_complete:
  "search_free_run run rs page e n s = None \<Longrightarrow> run < n \<Longrightarrow> run \<le> page \<Longrightarrow>
   page - run \<le> f \<Longrightarrow> f + n \<le> e \<Longrightarrow> \<exists>k \<in> {f ..< f + n}. \<not> page_free s k"
proof (induction run rs page e n s rule: search_free_run.induct)
  case (1 run rs page e n s)
  have p: "\<not> page \<ge> e" using "1.prems"(2-5) by linarith
  show ?case
  proof (cases "page_free s page")
    case True
    define rs' where "rs' = (if run = 0 then page else rs)"
    have F: "run + 1 \<noteq> n"
    proof
      assume "run + 1 = n"
      then have "search_free_run run rs page e n s = Some rs'" using p True by (subst search_free_run.simps) (simp add: rs'_def)
      with "1.prems"(1) show False by simp
    qed
    have "search_free_run run rs page e n s = search_free_run (run + 1) rs' (page + 1) e n s"
      using p True F by (subst search_free_run.simps) (simp add: rs'_def Let_def)
    with "1.prems"(1) have sr: "search_free_run (run + 1) rs' (page + 1) e n s = None" by simp
    show ?thesis by (rule "1.IH"(1) [OF p True _ F]) (use sr F "1.prems"(2-5) rs'_def in auto)
  next
    case False
    have "search_free_run run rs page e n s = search_free_run 0 rs (page + 1) e n s"
      using p False by (subst search_free_run.simps) simp
    with "1.prems"(1) have sr: "search_free_run 0 rs (page + 1) e n s = None" by simp
    show ?thesis
    proof (cases "f \<le> page")
      case True
      with False "1.prems"(2-4) show ?thesis by (intro bexI [of _ page]) auto
    next
      case F: False
      show ?thesis by (rule "1.IH"(2) [OF p False]) (use sr F "1.prems"(2,5) in auto)
    qed
  qed
qed

definition same_frame :: "phys_state \<Rightarrow> phys_state \<Rightarrow> bool" where
  \<comment> \<open>what no operation after the boot changes\<close>
  "same_frame s s' \<longleftrightarrow>
     tracked_phys_limit s' = tracked_phys_limit s \<and> managed_page_count_value s' = managed_page_count_value s \<and>
     general_pool_floor_page s' = general_pool_floor_page s \<and>
     length (alloc_bitmap s') = length (alloc_bitmap s) \<and> length (page_refcounts s') = length (page_refcounts s)"

lemma same_frame_refl [simp]: "same_frame s s"
  by (simp add: same_frame_def)

lemma same_frame_trans: "same_frame s t \<Longrightarrow> same_frame t u \<Longrightarrow> same_frame s u"
  by (simp add: same_frame_def)

lemma same_frame_pages: "same_frame s s' \<Longrightarrow> tracked_page_count s' = tracked_page_count s"
  by (simp add: same_frame_def tracked_page_count_def)

lemma take_page_frame:
  "same_frame s (take_page i s)" "free_page_count_value (take_page i s) = free_page_count_value s"
  "phys_words (take_page i s) = phys_words s"
  by (simp_all add: take_page_def set_refcount_def bitmap_set_def same_frame_def)

lemma take_pages:
  assumes "f + n \<le> length (page_refcounts s)" "f + n \<le> 8 * length (alloc_bitmap s)"
  shows "same_frame s (fold take_page [f ..< f + n] s) \<and>
    free_page_count_value (fold take_page [f ..< f + n] s) = free_page_count_value s \<and>
    phys_words (fold take_page [f ..< f + n] s) = phys_words s \<and>
    (\<forall>j < length (page_refcounts s).
       page_refcounts (fold take_page [f ..< f + n] s) ! j = (if f \<le> j \<and> j < f + n then 1 else page_refcounts s ! j)) \<and>
    (\<forall>j. bitmap_test j (fold take_page [f ..< f + n] s) \<longleftrightarrow> f \<le> j \<and> j < f + n \<or> bitmap_test j s)"
  using assms
proof (induction n)
  case (Suc n)
  define t where "t = fold take_page [f ..< f + n] s"
  have step: "fold take_page [f ..< f + Suc n] s = take_page (f + n) t" by (simp add: t_def)
  have IH: "same_frame s t" "free_page_count_value t = free_page_count_value s" "phys_words t = phys_words s"
    "\<And>j. j < length (page_refcounts s) \<Longrightarrow> page_refcounts t ! j = (if f \<le> j \<and> j < f + n then 1 else page_refcounts s ! j)"
    "\<And>j. bitmap_test j t \<longleftrightarrow> f \<le> j \<and> j < f + n \<or> bitmap_test j s"
    using Suc unfolding t_def by auto
  have lens: "length (page_refcounts t) = length (page_refcounts s)" "length (alloc_bitmap t) = length (alloc_bitmap s)"
    using IH(1) by (simp_all add: same_frame_def)
  have "(f + n) div 8 < length (alloc_bitmap t)" using Suc.prems lens by (simp add: less_mult_imp_div_less mult.commute)
  then have bits: "bitmap_test j (take_page (f + n) t) \<longleftrightarrow> f \<le> j \<and> j < f + Suc n \<or> bitmap_test j s" for j
    unfolding take_page_def bitmap_test_cong by (auto simp: bitmap_test_set IH(5))
  have refs: "page_refcounts (take_page (f + n) t) ! j = (if f \<le> j \<and> j < f + Suc n then 1 else page_refcounts s ! j)"
    if "j < length (page_refcounts s)" for j
    using that lens IH(4) [OF that] by (cases "j = f + n") (auto simp: take_page_def set_refcount_def)
  show ?case unfolding step using take_page_frame [where i = "f + n" and s = t] IH(1-3) bits refs same_frame_trans [OF IH(1)] by auto
qed auto

lemma phys_wfI:
  assumes "phys_wf s" "same_frame s s'"
    and "\<And>i. i < tracked_page_count s \<Longrightarrow> bitmap_test i s' \<longleftrightarrow> page_refcounts s' ! i \<noteq> 0"
    and "\<And>i. i < tracked_page_count s \<Longrightarrow> page_refcounts s' ! i = UINT32_MAX \<longleftrightarrow> page_refcounts s ! i = UINT32_MAX"
    and "free_page_count_value s' = card {i. i < tracked_page_count s \<and> page_refcounts s' ! i = 0}"
  shows "phys_wf s'"
proof -
  note W = phys_wfD [OF assms(1)]
  have n: "tracked_page_count s' = tracked_page_count s" by (rule same_frame_pages [OF assms(2)])
  have "{i. i < tracked_page_count s \<and> page_refcounts s' ! i \<noteq> UINT32_MAX} =
      {i. i < tracked_page_count s \<and> page_refcounts s ! i \<noteq> UINT32_MAX}" using assms(4) by blast
  then show ?thesis unfolding phys_wf_def n using W(1-3,5) assms(2,3,5) by (simp add: same_frame_def)
qed

text \<open>What a successful allocation of \<open>n\<close> pages starting at page \<open>f\<close> does to the state.\<close>

definition took_run :: "nat \<Rightarrow> nat \<Rightarrow> phys_state \<Rightarrow> phys_state \<Rightarrow> bool" where
  "took_run f n s s' \<longleftrightarrow>
     f + n \<le> tracked_page_count s \<and> (\<forall>i \<in> {f ..< f + n}. page_refcounts s ! i = 0) \<and>
     (\<forall>i < tracked_page_count s. page_refcounts s' ! i = (if i \<in> {f ..< f + n} then 1 else page_refcounts s ! i)) \<and>
     free_page_count_value s' + n = free_page_count_value s \<and> phys_words s' = phys_words s \<and> same_frame s s' \<and> phys_wf s'"

lemma free_run_taken:
  assumes wf: "phys_wf s" and fit: "f + n \<le> tracked_page_count s" and free: "\<forall>k \<in> {f ..< f + n}. page_free s k"
  defines "t \<equiv> fold take_page [f ..< f + n] s"
  shows "took_run f n s (t\<lparr>free_page_count_value := free_page_count_value t - n\<rparr>)" (is "took_run f n s ?t")
proof -
  note W = phys_wfD [OF wf]
  have "f + n \<le> 8 * length (alloc_bitmap s)" using fit by (simp add: W(3))
  note T = take_pages [OF fit [folded W(2)] this, folded t_def]
  have rc0: "page_refcounts s ! i = 0" if "i \<in> {f ..< f + n}" for i
    using free that page_free_wf [OF wf, of i] fit by auto
  have rc: "page_refcounts t ! i = (if i \<in> {f ..< f + n} then 1 else page_refcounts s ! i)" if "i < tracked_page_count s" for i
    using T that by (auto simp: W(2))
  have frame: "same_frame s ?t" using T by (simp add: same_frame_def)
  have sub: "{f ..< f + n} \<subseteq> {i. i < tracked_page_count s \<and> page_refcounts s ! i = 0}" using fit rc0 by auto
  have eq: "{i. i < tracked_page_count s \<and> page_refcounts t ! i = 0} =
      {i. i < tracked_page_count s \<and> page_refcounts s ! i = 0} - {f ..< f + n}" using rc by (auto split: if_splits)
  have card: "card {i. i < tracked_page_count s \<and> page_refcounts t ! i = 0} = free_page_count_value s - n"
    unfolding eq W(6) using card_Diff_subset [OF _ sub] by simp
  have le: "n \<le> free_page_count_value s" unfolding W(6) using card_mono [OF _ sub] by simp
  have "phys_wf ?t"
  proof (rule phys_wfI [OF wf frame])
    show "free_page_count_value ?t = card {i. i < tracked_page_count s \<and> page_refcounts ?t ! i = 0}"
      using T card by simp
    show "bitmap_test i ?t \<longleftrightarrow> page_refcounts ?t ! i \<noteq> 0" if "i < tracked_page_count s" for i
      using T that rc [OF that] W(4) [OF that] by auto
    show "page_refcounts ?t ! i = UINT32_MAX \<longleftrightarrow> page_refcounts s ! i = UINT32_MAX" if "i < tracked_page_count s" for i
      using rc [OF that] rc0 [of i] by auto
  qed
  then show ?thesis unfolding took_run_def using fit rc0 rc T le frame by auto
qed

lemma took_run_hint:
  "took_run f n s (s'\<lparr>general_search_hint := h\<rparr>) = took_run f n s s'"
  "took_run f n s (s'\<lparr>constrained_search_hint := h\<rparr>) = took_run f n s s'"
  by (simp_all add: took_run_def same_frame_def phys_wf_def tracked_page_count_def)

definition free_run_in :: "phys_state \<Rightarrow> nat \<Rightarrow> nat \<Rightarrow> nat \<Rightarrow> bool" where
  "free_run_in s n a b \<longleftrightarrow> (\<exists>f. a \<le> f \<and> f + n \<le> b \<and> (\<forall>k \<in> {f ..< f + n}. page_refcounts s ! k = 0))"

lemma search_none:
  assumes "phys_wf s" "b \<le> tracked_page_count s" "search_free_run 0 r a b n s = None" "0 < n"
  shows "\<not> free_run_in s n a b"
proof
  assume "free_run_in s n a b"
  then obtain f where f: "a \<le> f" "f + n \<le> b" "\<forall>k \<in> {f ..< f + n}. page_refcounts s ! k = 0"
    unfolding free_run_in_def by blast
  from free_run_complete [OF assms(3,4) _ _ f(2)] f(1) obtain k where k: "k \<in> {f ..< f + n}" "\<not> page_free s k" by auto
  with f page_free_wf [OF assms(1), of k] assms(2) show False by auto
qed

text \<open>The start of the search: the hint, unless it lies outside the interval.\<close>

definition search_start :: "nat \<Rightarrow> nat \<Rightarrow> nat \<Rightarrow> nat" where
  "search_start a b hint = (if hint < a \<or> hint \<ge> b then a else hint)"

lemma alloc_run_spec:
  assumes wf: "phys_wf s" and b: "b \<le> tracked_page_count s"
  shows "case alloc_run_from_interval a b hint count s of
      Some (p, h, s') \<Rightarrow> \<exists>f. a \<le> f \<and> f + unat count \<le> b \<and> p = of_nat f * PAGE_SIZE \<and> h = f + unat count \<and>
        took_run f (unat count) s s'
    | None \<Rightarrow> unat count = 0 \<or> \<not> free_run_in s (unat count) (search_start a b hint) b \<and>
        \<not> free_run_in s (unat count) a (search_start a b hint)"
proof -
  let ?n = "unat count"
  define st where "st = search_start a b hint"
  define first where "first = search_free_run 0 st st b ?n s"
  define found where "found = (if first = None \<and> st > a then search_free_run 0 a a st ?n s else first)"
  show ?thesis
  proof (cases "?n = 0 \<or> a \<ge> b \<or> b - a < ?n")
    case True
    then have "?n = 0 \<or> \<not> free_run_in s ?n st b \<and> \<not> free_run_in s ?n a st"
      by (auto simp: free_run_in_def st_def search_start_def)
    with True show ?thesis by (auto simp: alloc_run_from_interval_def Let_def st_def)
  next
    case False
    then have n: "0 < ?n" and st: "a \<le> st" "st < b" by (auto simp: st_def search_start_def)
    have eq: "alloc_run_from_interval a b hint count s = (case found of None \<Rightarrow> None | Some f \<Rightarrow>
        let t = fold take_page [f ..< f + ?n] s in
        Some (of_nat f * PAGE_SIZE, f + ?n, t\<lparr>free_page_count_value := free_page_count_value t - ?n\<rparr>))"
      using False unfolding alloc_run_from_interval_def found_def first_def st_def search_start_def Let_def by simp
    show ?thesis
    proof (cases found)
      case None
      then have 1: "first = None" by (auto simp: found_def split: if_splits)
      have "\<not> free_run_in s ?n st b" by (rule search_none [OF wf b 1 [unfolded first_def] n])
      moreover have "\<not> free_run_in s ?n a st"
      proof (cases "st > a")
        case True
        with None 1 have 2: "search_free_run 0 a a st ?n s = None" by (simp add: found_def)
        show ?thesis by (rule search_none [OF wf _ 2 n]) (use st b in simp)
      qed (use n st in \<open>auto simp: free_run_in_def\<close>)
      ultimately show ?thesis unfolding eq None by (simp add: st_def)
    next
      case (Some f)
      have "a \<le> f \<and> f + ?n \<le> b \<and> (\<forall>k \<in> {f ..< f + ?n}. page_free s k)"
      proof (cases "first = None")
        case True
        with Some have "search_free_run 0 a a st ?n s = Some f" by (auto simp: found_def split: if_splits)
        from free_run_sound [OF this n] st show ?thesis by auto
      next
        case False
        with Some have "search_free_run 0 st st b ?n s = Some f" by (auto simp: found_def first_def split: if_splits)
        from free_run_sound [OF this n] st show ?thesis by auto
      qed
      with free_run_taken [OF wf, of f ?n] b show ?thesis unfolding eq Some by (auto simp: Let_def)
    qed
  qed
qed

section \<open>References to pages\<close>

lemma set_refcount_frame:
  "same_frame s (set_refcount i r s)" "free_page_count_value (set_refcount i r s) = free_page_count_value s"
  "phys_words (set_refcount i r s) = phys_words s"
  by (simp_all add: set_refcount_def same_frame_def)

lemma set_refcount_wf:
  assumes wf: "phys_wf s" and i: "i < tracked_page_count s"
    and r: "page_refcounts s ! i \<noteq> 0" "page_refcounts s ! i \<noteq> UINT32_MAX" "r \<noteq> 0" "r \<noteq> UINT32_MAX"
  shows "phys_wf (set_refcount i r s)"
proof (rule phys_wfI [OF wf set_refcount_frame(1)])
  note W = phys_wfD [OF wf]
  have rc: "page_refcounts (set_refcount i r s) ! j = (if j = i then r else page_refcounts s ! j)" if "j < tracked_page_count s" for j
    using that i W(2) by (simp add: set_refcount_def nth_list_update)
  then have "{j. j < tracked_page_count s \<and> page_refcounts (set_refcount i r s) ! j = 0} =
      {j. j < tracked_page_count s \<and> page_refcounts s ! j = 0}" using r by (auto split: if_splits)
  then show "free_page_count_value (set_refcount i r s) =
      card {j. j < tracked_page_count s \<and> page_refcounts (set_refcount i r s) ! j = 0}"
    by (simp add: set_refcount_frame W(6))
  show "bitmap_test j (set_refcount i r s) \<longleftrightarrow> page_refcounts (set_refcount i r s) ! j \<noteq> 0" if "j < tracked_page_count s" for j
    using rc [OF that] W(4) [OF that] r by simp
  show "page_refcounts (set_refcount i r s) ! j = UINT32_MAX \<longleftrightarrow> page_refcounts s ! j = UINT32_MAX"
    if "j < tracked_page_count s" for j using rc [OF that] r by simp
qed

lemma free_page_fields:
  "same_frame s (free_page i p s)" "page_refcounts (free_page i p s) = page_refcounts s"
  "free_page_count_value (free_page i p s) = free_page_count_value s + 1"
  "phys_words (free_page i p s) = (phys_words s)(p := (\<lambda>_. 0))"
  "bitmap_test j (free_page i p s) = bitmap_test j (bitmap_clear i s)"
  by (simp_all add: free_page_def Let_def zero_page_def bitmap_clear_def same_frame_def bitmap_test_def)

lemma free_page_wf:
  assumes wf: "phys_wf s" and i: "i < tracked_page_count s"
    and r: "page_refcounts s ! i \<noteq> 0" "page_refcounts s ! i \<noteq> UINT32_MAX"
  shows "phys_wf (free_page i p (set_refcount i 0 s))" (is "phys_wf ?s")
proof (rule phys_wfI [OF wf])
  note W = phys_wfD [OF wf]
  show "same_frame s ?s" by (rule same_frame_trans [OF set_refcount_frame(1) free_page_fields(1)])
  have rc: "page_refcounts ?s ! j = (if j = i then 0 else page_refcounts s ! j)" if "j < tracked_page_count s" for j
    using that i W(2) unfolding free_page_fields by (simp add: set_refcount_def nth_list_update)
  have "{j. j < tracked_page_count s \<and> page_refcounts ?s ! j = 0} = insert i {j. j < tracked_page_count s \<and> page_refcounts s ! j = 0}"
    using rc i by (auto split: if_splits)
  moreover have "i \<notin> {j. j < tracked_page_count s \<and> page_refcounts s ! j = 0}" using r by simp
  ultimately show "free_page_count_value ?s = card {j. j < tracked_page_count s \<and> page_refcounts ?s ! j = 0}"
    by (simp add: free_page_fields(3) set_refcount_frame W(6))
  show "page_refcounts ?s ! j = UINT32_MAX \<longleftrightarrow> page_refcounts s ! j = UINT32_MAX" if "j < tracked_page_count s" for j
    using rc [OF that] r by simp
  have b: "i div 8 < length (alloc_bitmap (set_refcount i 0 s))"
    using byte_in_bitmap [OF i] W(3) by (simp add: set_refcount_def)
  show "bitmap_test j ?s \<longleftrightarrow> page_refcounts ?s ! j \<noteq> 0" if "j < tracked_page_count s" for j
    using rc [OF that] W(4) [OF that] unfolding free_page_fields(5) bitmap_test_clear [OF b] by auto
qed

text \<open>The effect of one more and of one less reference on a managed page in use.\<close>

lemma phys_page_get_spec:
  assumes wf: "phys_wf s" and p: "phys_page_is_managed p s" and i: "i = phys_to_page_index p"
    and r: "page_refcounts s ! i \<noteq> 0" "page_refcounts s ! i \<noteq> UINT32_MAX - 1"
  shows "phys_page_get p s = Some (set_refcount i (page_refcounts s ! i + 1) s)"
    "phys_wf (set_refcount i (page_refcounts s ! i + 1) s)"
proof -
  have m: "phys_page_aligned p" "page_refcounts s ! i \<noteq> UINT32_MAX" using p i by (simp_all add: phys_page_is_managed_def)
  then show "phys_page_get p s = Some (set_refcount i (page_refcounts s ! i + 1) s)"
    unfolding phys_page_get_def Let_def i [symmetric] using p r by simp
  have "page_refcounts s ! i + 1 \<noteq> 0" using m(2) by (metis add_eq_0_iff2)
  moreover have "page_refcounts s ! i + 1 \<noteq> UINT32_MAX" using r(2) by (metis add_diff_cancel_right')
  ultimately show "phys_wf (set_refcount i (page_refcounts s ! i + 1) s)"
    using set_refcount_wf [OF wf _ r(1) m(2)] managed_index [OF wf p] i by simp
qed

lemma phys_page_put_spec:
  assumes wf: "phys_wf s" and p: "phys_page_is_managed p s" and i: "i = phys_to_page_index p"
    and r: "page_refcounts s ! i \<noteq> 0"
  shows "\<exists>s'. phys_page_put p s = Some s' \<and> phys_wf s' \<and> same_frame s s' \<and>
    (\<forall>j < tracked_page_count s. page_refcounts s' ! j = (if j = i then page_refcounts s ! i - 1 else page_refcounts s ! j)) \<and>
    phys_words s' = (if page_refcounts s ! i = 1 then (phys_words s)(p := (\<lambda>_. 0)) else phys_words s)"
proof -
  have m: "phys_page_aligned p" "page_refcounts s ! i \<noteq> UINT32_MAX" using p i by (simp_all add: phys_page_is_managed_def)
  have ii: "i < tracked_page_count s" using managed_index [OF wf p] i by simp
  let ?r = "page_refcounts s ! i - 1"
  let ?s = "set_refcount i ?r s"
  have put: "phys_page_put p s = Some (if ?r = 0 then free_page i p ?s else ?s)"
    unfolding phys_page_put_def Let_def i [symmetric] using p m(1) r by simp
  have r1: "?r = 0 \<longleftrightarrow> page_refcounts s ! i = 1" by simp
  have rc: "page_refcounts ?s ! j = (if j = i then ?r else page_refcounts s ! j)" if "j < tracked_page_count s" for j
    using that ii phys_wfD(2) [OF wf] by (simp add: set_refcount_def nth_list_update)
  show ?thesis
  proof (cases "?r = 0")
    case True
    let ?t = "free_page i p ?s"
    have "phys_page_put p s = Some ?t" unfolding put if_P [OF True] ..
    moreover have "phys_wf ?t" using free_page_wf [OF wf ii r m(2), of p] unfolding True .
    moreover have "same_frame s ?t" by (rule same_frame_trans [OF set_refcount_frame(1) free_page_fields(1)])
    moreover have "phys_words ?t = (phys_words s)(p := (\<lambda>_. 0))" unfolding free_page_fields(4) set_refcount_frame(3) ..
    moreover have "page_refcounts s ! i = 1" using True r1 by blast
    ultimately show ?thesis using rc unfolding free_page_fields(2) [of i p ?s, symmetric] by auto
  next
    case False
    have "?r \<noteq> UINT32_MAX" using r unfolding diff_eq_eq by simp
    from set_refcount_wf [OF wf ii r m(2) False this] have "phys_wf ?s" .
    moreover have "phys_page_put p s = Some ?s" unfolding put if_not_P [OF False] ..
    moreover have "page_refcounts s ! i \<noteq> 1" using False r1 by blast
    ultimately show ?thesis using rc set_refcount_frame(1,3) [where s = s and i = i and r = ?r] by auto
  qed
qed

lemma in_use_managed:
  assumes wf: "phys_wf s" and p: "phys_page_aligned p" and i: "phys_to_page_index p < tracked_page_count s"
    and r: "page_refcounts s ! phys_to_page_index p \<noteq> UINT32_MAX"
  shows "phys_page_is_managed p s"
proof -
  have "unat p = 4096 * (unat p div 4096)" using p by (simp add: aligned_unat) (metis mult_div_mod_eq add.right_neutral)
  moreover have "unat p div 4096 < tracked_page_count s" using i by (simp add: phys_to_page_index_def unat_page_div)
  ultimately have "unat p < unat (tracked_phys_limit s)" using phys_wfD(1) [OF wf] by linarith
  with p r show ?thesis by (simp add: phys_page_is_managed_def word_less_nat_alt)
qed

lemma put_pages_run:
  assumes "phys_wf s" "f + n \<le> tracked_page_count s" "\<And>i. i \<in> {f ..< f + n} \<Longrightarrow> page_refcounts s ! i = 1"
  shows "\<exists>s'. put_pages (of_nat f * PAGE_SIZE) n s = Some s' \<and> phys_wf s' \<and> same_frame s s' \<and>
    (\<forall>i < tracked_page_count s. page_refcounts s' ! i = (if i \<in> {f ..< f + n} then 0 else page_refcounts s ! i)) \<and>
    (\<forall>i < tracked_page_count s. phys_words s' (of_nat i * PAGE_SIZE) =
       (if i \<in> {f ..< f + n} then (\<lambda>_. 0) else phys_words s (of_nat i * PAGE_SIZE)))"
  using assms
proof (induction n arbitrary: f s)
  case (Suc n)
  let ?p = "of_nat f * PAGE_SIZE :: u64"
  have f: "f < tracked_page_count s" "page_refcounts s ! f = 1" using Suc.prems by auto
  note A = page_address [OF Suc.prems(1) f(1)]
  have "(1 :: u32) \<noteq> UINT32_MAX" by simp
  with in_use_managed [OF Suc.prems(1) A(2)] f A(3) have m: "phys_page_is_managed ?p s" by simp
  from phys_page_put_spec [OF Suc.prems(1) m A(3) [symmetric]] f(2) obtain t where
    t: "phys_page_put ?p s = Some t" "phys_wf t" "same_frame s t"
      "\<And>j. j < tracked_page_count s \<Longrightarrow> page_refcounts t ! j = (if j = f then 0 else page_refcounts s ! j)"
      "phys_words t = (phys_words s)(?p := (\<lambda>_. 0))" by auto
  have n: "tracked_page_count t = tracked_page_count s" by (rule same_frame_pages [OF t(3)])
  have "put_pages (of_nat (f + 1) * PAGE_SIZE) n t = put_pages (?p + PAGE_SIZE) n t" by (simp add: algebra_simps)
  with Suc.IH [of t "f + 1"] t(2) Suc.prems t(4) n obtain s' where
    s': "put_pages (?p + PAGE_SIZE) n t = Some s'" "phys_wf s'" "same_frame t s'"
      "\<And>i. i < tracked_page_count s \<Longrightarrow> page_refcounts s' ! i = (if i \<in> {f + 1 ..< f + 1 + n} then 0 else page_refcounts t ! i)"
      "\<And>i. i < tracked_page_count s \<Longrightarrow> phys_words s' (of_nat i * PAGE_SIZE) =
         (if i \<in> {f + 1 ..< f + 1 + n} then (\<lambda>_. 0) else phys_words t (of_nat i * PAGE_SIZE))" by auto
  have words: "phys_words s' (of_nat i * PAGE_SIZE) =
      (if i \<in> {f ..< f + Suc n} then (\<lambda>_. 0) else phys_words s (of_nat i * PAGE_SIZE))" if i: "i < tracked_page_count s" for i
  proof (cases "i = f")
    case False
    have "of_nat i * PAGE_SIZE \<noteq> ?p" using page_address(3) [OF Suc.prems(1) i] A(3) False by metis
    with False show ?thesis unfolding s'(5) [OF i] t(5) by auto
  next
    case True
    then show ?thesis unfolding s'(5) [OF i] t(5) by simp
  qed
  have refs: "page_refcounts s' ! i = (if i \<in> {f ..< f + Suc n} then 0 else page_refcounts s ! i)" if i: "i < tracked_page_count s" for i
    unfolding s'(4) [OF i] t(4) [OF i] by auto
  show ?case using t(1) s'(1,2) words refs same_frame_trans [OF t(3) s'(3)] by simp
qed simp

lemma card_below_filter: "card {i. i < n \<and> P i} = length (filter P [0 ..< n])"
proof -
  have "{i. i < n \<and> P i} = set (filter P [0 ..< n])" by auto
  then show ?thesis by (simp add: distinct_card del: set_filter)
qed

lemma phys_wf_code [code]:
  "phys_wf s \<longleftrightarrow>
     (let n = tracked_page_count s; r = page_refcounts s in
      phys_page_aligned (tracked_phys_limit s) \<and> length r = n \<and> length (alloc_bitmap s) = (n + 7) div 8 \<and>
      list_all (\<lambda>i. bitmap_test i s \<longleftrightarrow> r ! i \<noteq> 0) [0 ..< n] \<and>
      managed_page_count_value s = length (filter (\<lambda>i. r ! i \<noteq> UINT32_MAX) [0 ..< n]) \<and>
      free_page_count_value s = length (filter (\<lambda>i. r ! i = 0) [0 ..< n]))"
proof -
  have "unat (tracked_phys_limit s) = 4096 * tracked_page_count s \<longleftrightarrow> phys_page_aligned (tracked_phys_limit s)"
    unfolding aligned_unat tracked_page_count_def unat_page_div by (metis add.right_neutral mult_div_mod_eq mod_mult_self1_is_0)
  then show ?thesis by (auto simp: phys_wf_def Let_def card_below_filter list_all_iff)
qed

text \<open>A machine with eight free pages, 1 to 8, on which the properties below are exercised.\<close>

definition eight_pages :: phys_state where
  "eight_pages = \<lparr>tracked_phys_limit = 9 * PAGE_SIZE, managed_page_count_value = 8, free_page_count_value = 8,
     general_search_hint = 1, constrained_search_hint = 1, general_pool_floor_page = 1,
     alloc_bitmap = [1, 0], page_refcounts = UINT32_MAX # replicate 8 0, phys_words = (\<lambda>_ _. 0)\<rparr>"

lemma eight_pages_wf: "phys_wf eight_pages"
  by code_simp

lemma phys_alloc_pages_spec:
  assumes wf: "phys_wf s"
  shows "case phys_alloc_pages count s of
      Some (p, s') \<Rightarrow> \<exists>f. general_pool_floor_page s \<le> f \<and> p = of_nat f * PAGE_SIZE \<and> unat p = 4096 * f \<and> took_run f (unat count) s s'
    | None \<Rightarrow> count = 0 \<or>
        (let start = search_start (general_pool_floor_page s) (tracked_page_count s) (general_search_hint s) in
         \<not> free_run_in s (unat count) (general_pool_floor_page s) start \<and>
         \<not> free_run_in s (unat count) start (tracked_page_count s))"
proof -
  let ?a = "general_pool_floor_page s" and ?b = "tracked_page_count s" and ?h = "general_search_hint s"
  note spec = alloc_run_spec [OF wf order_refl, where a = ?a and hint = ?h and count = count]
  show ?thesis
  proof (cases "alloc_run_from_interval ?a ?b ?h count s")
    case None
    then show ?thesis using spec by (auto simp: phys_alloc_pages_def unat_eq_zero Let_def)
  next
    case (Some r)
    obtain p h t where r: "r = (p, h, t)" by (cases r)
    show ?thesis
    proof (cases "count = 0")
      case False
      from spec Some r obtain f where
        f: "?a \<le> f" "f + unat count \<le> ?b" "p = of_nat f * PAGE_SIZE" "took_run f (unat count) s t" by auto
      have "0 < unat count" using False by (simp add: unat_gt_0)
      then have "f < ?b" using f(2) by linarith
      with page_address(1) [OF wf] f(3) have "unat p = 4096 * f" by simp
      with f False Some r show ?thesis by (auto simp: phys_alloc_pages_def took_run_hint)
    qed (simp add: phys_alloc_pages_def)
  qed
qed

lemma free_run_in_one: "free_run_in s 1 a b \<longleftrightarrow> (\<exists>i. a \<le> i \<and> i < b \<and> page_refcounts s ! i = 0)"
  by (auto simp: free_run_in_def Suc_le_eq)

lemma phys_alloc_page_complete:
  assumes wf: "phys_wf s"
  shows "phys_alloc_page s = None \<longleftrightarrow>
    \<not> (\<exists>i. general_pool_floor_page s \<le> i \<and> i < tracked_page_count s \<and> page_refcounts s ! i = 0)"
proof (cases "phys_alloc_pages 1 s")
  case None
  let ?a = "general_pool_floor_page s" and ?b = "tracked_page_count s"
  obtain st where "\<not> free_run_in s 1 ?a st" "\<not> free_run_in s 1 st ?b"
    using phys_alloc_pages_spec [OF wf, of 1] None by (auto simp: Let_def)
  then have "\<not> (\<exists>i. ?a \<le> i \<and> i < ?b \<and> page_refcounts s ! i = 0)" unfolding free_run_in_one by (metis not_le)
  with None show ?thesis by (simp add: phys_alloc_page_def)
next
  case (Some r)
  with phys_alloc_pages_spec [OF wf, of 1] obtain f where
    f: "general_pool_floor_page s \<le> f" "took_run f 1 s (snd r)" by (cases r) auto
  then have "f < tracked_page_count s \<and> page_refcounts s ! f = 0" by (auto simp: took_run_def)
  with Some f(1) show ?thesis by (auto simp: phys_alloc_page_def)
qed

text \<open>
  Property C28.  phys_alloc_pages hands out a page-aligned run of the requested length at or above the
  floor of the general pool whose pages were all free, gives each of them one reference, and changes
  no other page.  It fails only when the pool holds no free run on either side of the search hint; a
  single page is found whenever the pool has a free one.
\<close>

theorem phys_alloc_pages_correct:
  assumes "phys_wf s"
  shows "(case phys_alloc_pages count s of
      Some (p, s') \<Rightarrow> \<exists>f. general_pool_floor_page s \<le> f \<and> unat p = 4096 * f \<and> took_run f (unat count) s s'
    | None \<Rightarrow> count = 0 \<or>
        (let start = search_start (general_pool_floor_page s) (tracked_page_count s) (general_search_hint s) in
         \<not> free_run_in s (unat count) (general_pool_floor_page s) start \<and>
         \<not> free_run_in s (unat count) start (tracked_page_count s)))
    \<and> (phys_alloc_page s = None \<longleftrightarrow>
         \<not> (\<exists>i. general_pool_floor_page s \<le> i \<and> i < tracked_page_count s \<and> page_refcounts s ! i = 0))"
  using phys_alloc_pages_spec [OF assms, of count] phys_alloc_page_complete [OF assms]
  by (auto simp: Let_def split: option.splits)

theorem phys_alloc_pages_correct_witness:
  "\<exists>p s' f. phys_alloc_pages 3 eight_pages = Some (p, s') \<and> unat p = 4096 * f \<and> took_run f 3 eight_pages s'"
proof -
  have "map_option fst (phys_alloc_pages 3 eight_pages) = Some PAGE_SIZE" by code_simp
  then obtain p s' where "phys_alloc_pages 3 eight_pages = Some (p, s')" by auto
  with phys_alloc_pages_correct [OF eight_pages_wf, of 3] show ?thesis by auto
qed

text \<open>
  Property C29.  phys_free_pages gives back what phys_alloc_pages handed out: it does not panic, every
  page of the run is free again and zeroed, and all other reference counts are as before the allocation.
\<close>

theorem phys_free_inverts_alloc:
  assumes wf: "phys_wf s" and alloc: "phys_alloc_pages count s = Some (p, s')"
  shows "\<exists>s''. phys_free_pages p count s' = Some s'' \<and> phys_wf s'' \<and>
    page_refcounts s'' = page_refcounts s \<and> free_page_count_value s'' = free_page_count_value s \<and>
    (\<forall>i < unat count. phys_words s'' (p + of_nat i * PAGE_SIZE) = (\<lambda>_. 0))"
proof -
  from phys_alloc_pages_spec [OF wf, of count] alloc obtain f where
    p: "p = of_nat f * PAGE_SIZE" and T: "took_run f (unat count) s s'" by auto
  have t: "phys_wf s'" "same_frame s s'" "f + unat count \<le> tracked_page_count s'"
    "\<And>i. i \<in> {f ..< f + unat count} \<Longrightarrow> page_refcounts s' ! i = 1"
    using T same_frame_pages [of s s'] by (auto simp: took_run_def)
  from put_pages_run [OF t(1,3,4)] obtain u where
    u: "put_pages p (unat count) s' = Some u" "phys_wf u" "same_frame s' u"
      "\<And>i. i < tracked_page_count s' \<Longrightarrow> page_refcounts u ! i = (if i \<in> {f ..< f + unat count} then 0 else page_refcounts s' ! i)"
      "\<And>i. i < tracked_page_count s' \<Longrightarrow> i \<in> {f ..< f + unat count} \<Longrightarrow> phys_words u (of_nat i * PAGE_SIZE) = (\<lambda>_. 0)"
    unfolding p by auto
  have n: "tracked_page_count s' = tracked_page_count s" "tracked_page_count u = tracked_page_count s"
    using same_frame_pages t(2) u(3) by metis+
  have refs: "page_refcounts u ! i = page_refcounts s ! i" if i: "i < tracked_page_count s" for i
    using T i u(4) [of i] n by (auto simp: took_run_def)
  then have eq: "page_refcounts u = page_refcounts s"
    using phys_wfD(2) [OF wf] phys_wfD(2) [OF u(2)] n by (intro nth_equalityI) auto
  have "phys_words u (p + of_nat i * PAGE_SIZE) = (\<lambda>_. 0)" if "i < unat count" for i
    using u(5) [of "f + i"] that t(3) unfolding p by (simp add: algebra_simps)
  moreover have "free_page_count_value u = free_page_count_value s"
    using phys_wfD(6) [OF wf] phys_wfD(6) [OF u(2)] n eq by simp
  ultimately show ?thesis using u(1,2) eq by (auto simp: phys_free_pages_def)
qed

theorem phys_free_inverts_alloc_witness:
  "\<exists>p s' s''. phys_alloc_pages 3 eight_pages = Some (p, s') \<and> phys_free_pages p 3 s' = Some s'' \<and>
     page_refcounts s'' = page_refcounts eight_pages"
proof -
  have "map_option fst (phys_alloc_pages 3 eight_pages) = Some PAGE_SIZE" by code_simp
  then obtain p s' where "phys_alloc_pages 3 eight_pages = Some (p, s')" by auto
  with phys_free_inverts_alloc [OF eight_pages_wf this] show ?thesis by blast
qed

section \<open>Histories\<close>

text \<open>
  The callers of the allocator as a history.  \<open>held i\<close> counts the references that callers hold to page
  \<open>i\<close>; a caller takes or drops a reference only to a page it holds one of.
\<close>

datatype phys_op = PAlloc u64 | PAllocBelow u64 u64 | PGet u64 | PPut u64

fun phys_ok :: "phys_op \<Rightarrow> (nat \<Rightarrow> nat) \<Rightarrow> bool" where
  "phys_ok (PGet p) held \<longleftrightarrow> phys_page_aligned p \<and> 0 < held (phys_to_page_index p) \<and> held (phys_to_page_index p) < 2 ^ 32 - 2"
| "phys_ok (PPut p) held \<longleftrightarrow> phys_page_aligned p \<and> 0 < held (phys_to_page_index p)"
| "phys_ok _ held \<longleftrightarrow> True"

definition hold_run :: "u64 \<Rightarrow> u64 \<Rightarrow> (nat \<Rightarrow> nat) \<Rightarrow> nat \<Rightarrow> nat" where
  "hold_run p count held i =
     (if phys_to_page_index p \<le> i \<and> i < phys_to_page_index p + unat count then held i + 1 else held i)"

fun phys_exec :: "phys_op \<Rightarrow> (nat \<Rightarrow> nat) \<times> phys_state \<Rightarrow> ((nat \<Rightarrow> nat) \<times> phys_state) option" where
  "phys_exec (PAlloc n) (held, s) =
     Some (case phys_alloc_pages n s of None \<Rightarrow> (held, s) | Some (p, s) \<Rightarrow> (hold_run p n held, s))"
| "phys_exec (PAllocBelow n lim) (held, s) =
     Some (case phys_alloc_pages_below n lim s of None \<Rightarrow> (held, s) | Some (p, s) \<Rightarrow> (hold_run p n held, s))"
| "phys_exec (PGet p) (held, s) =
     map_option (Pair (held(phys_to_page_index p := held (phys_to_page_index p) + 1))) (phys_page_get p s)"
| "phys_exec (PPut p) (held, s) =
     map_option (Pair (held(phys_to_page_index p := held (phys_to_page_index p) - 1))) (phys_page_put p s)"

fun phys_run :: "phys_op list \<Rightarrow> (nat \<Rightarrow> nat) \<times> phys_state \<Rightarrow> ((nat \<Rightarrow> nat) \<times> phys_state) option" where
  "phys_run [] c = Some c"
| "phys_run (op # ops) c = (if phys_ok op (fst c) then Option.bind (phys_exec op c) (phys_run ops) else phys_run ops c)"

definition phys_refs :: "(nat \<Rightarrow> nat) \<Rightarrow> phys_state \<Rightarrow> bool" where
  "phys_refs held s \<longleftrightarrow> phys_wf s \<and>
     (\<forall>i. held i = (if i < tracked_page_count s \<and> page_refcounts s ! i \<noteq> UINT32_MAX then unat (page_refcounts s ! i) else 0))"

text \<open>Frame of a history: the same pages stay managed.\<close>

definition same_pages :: "phys_state \<Rightarrow> phys_state \<Rightarrow> bool" where
  "same_pages s s' \<longleftrightarrow> same_frame s s' \<and>
     (\<forall>i < tracked_page_count s. page_refcounts s' ! i = UINT32_MAX \<longleftrightarrow> page_refcounts s ! i = UINT32_MAX)"

lemma same_pages_refl [simp]: "same_pages s s"
  by (simp add: same_pages_def)

lemma same_pages_trans: "same_pages s t \<Longrightarrow> same_pages t u \<Longrightarrow> same_pages s u"
  using same_frame_trans [of s t u] same_frame_pages [of s t] by (auto simp: same_pages_def)

lemma phys_alloc_pages_below_spec:
  assumes wf: "phys_wf s" and alloc: "phys_alloc_pages_below count lim s = Some (p, s')"
  shows "\<exists>f. p = of_nat f * PAGE_SIZE \<and> took_run f (unat count) s s' \<and>
    f + unat count \<le> unat (align_up_u64 lim PAGE_SIZE div PAGE_SIZE)"
proof -
  define e where "e = (let end_page = unat (align_up_u64 lim PAGE_SIZE div PAGE_SIZE) in
      if end_page > tracked_page_count s then tracked_page_count s else end_page)"
  have e: "e \<le> tracked_page_count s" "e \<le> unat (align_up_u64 lim PAGE_SIZE div PAGE_SIZE)" by (auto simp: e_def Let_def)
  from alloc obtain h t where "alloc_run_from_interval 1 e (constrained_search_hint s) count s = Some (p, h, t)"
    "s' = t\<lparr>constrained_search_hint := h\<rparr>"
    by (auto simp: phys_alloc_pages_below_def e_def Let_def split: if_splits option.splits)
  with alloc_run_spec [OF wf e(1), where a = 1 and hint = "constrained_search_hint s" and count = count] e(2)
  show ?thesis by (auto simp: took_run_hint intro: order_trans)
qed

lemma took_run_refs:
  assumes refs: "phys_refs held s" and T: "took_run f (unat n) s s'" and n: "0 < unat n"
  shows "phys_refs (hold_run (of_nat f * PAGE_SIZE) n held) s'" "same_pages s s'"
proof -
  have wf: "phys_wf s" using refs by (simp add: phys_refs_def)
  have t: "f + unat n \<le> tracked_page_count s" "phys_wf s'" "same_frame s s'" "\<And>i. i \<in> {f ..< f + unat n} \<Longrightarrow> page_refcounts s ! i = 0"
    "\<And>i. i < tracked_page_count s \<Longrightarrow> page_refcounts s' ! i = (if i \<in> {f ..< f + unat n} then 1 else page_refcounts s ! i)"
    using T unfolding took_run_def by blast+
  have N: "tracked_page_count s' = tracked_page_count s" by (rule same_frame_pages [OF t(3)])
  have "f < tracked_page_count s" using t(1) n by linarith
  then have idx: "phys_to_page_index (of_nat f * PAGE_SIZE) = f" by (rule page_address(3) [OF wf])
  have "hold_run (of_nat f * PAGE_SIZE) n held i =
      (if i < tracked_page_count s' \<and> page_refcounts s' ! i \<noteq> UINT32_MAX then unat (page_refcounts s' ! i) else 0)" for i
  proof (cases "i \<in> {f ..< f + unat n}")
    case True
    then have "held i = 0" "i < tracked_page_count s" using refs t(1,4) by (auto simp: phys_refs_def)
    with True t(5) [of i] show ?thesis by (simp add: hold_run_def idx N)
  next
    case False
    then have "hold_run (of_nat f * PAGE_SIZE) n held i = held i" by (auto simp: hold_run_def idx)
    with False t(5) [of i] refs show ?thesis by (auto simp: phys_refs_def N)
  qed
  with t(2) show "phys_refs (hold_run (of_nat f * PAGE_SIZE) n held) s'" by (simp add: phys_refs_def)
  have "page_refcounts s' ! i = UINT32_MAX \<longleftrightarrow> page_refcounts s ! i = UINT32_MAX" if "i < tracked_page_count s" for i
    using t(4,5) [of i] that by auto
  with t(3) show "same_pages s s'" by (simp add: same_pages_def)
qed

lemma held_page:
  assumes refs: "phys_refs held s" and p: "phys_page_aligned p" "0 < held (phys_to_page_index p)"
  shows "phys_page_is_managed p s" "page_refcounts s ! phys_to_page_index p \<noteq> 0"
    "held (phys_to_page_index p) = unat (page_refcounts s ! phys_to_page_index p)" "phys_to_page_index p < tracked_page_count s"
proof -
  have *: "phys_to_page_index p < tracked_page_count s" "page_refcounts s ! phys_to_page_index p \<noteq> UINT32_MAX"
    "held (phys_to_page_index p) = unat (page_refcounts s ! phys_to_page_index p)"
    using refs p(2) unfolding phys_refs_def by (metis less_irrefl)+
  then show "phys_to_page_index p < tracked_page_count s" "held (phys_to_page_index p) = unat (page_refcounts s ! phys_to_page_index p)" by simp_all
  show "phys_page_is_managed p s" using in_use_managed [OF _ p(1) *(1,2)] refs by (simp add: phys_refs_def)
  show "page_refcounts s ! phys_to_page_index p \<noteq> 0" using *(3) p(2) by auto
qed

lemma unat_succ32: "w \<noteq> UINT32_MAX \<Longrightarrow> unat (w + 1) = unat w + 1" for w :: u32
  by (metis Suc_eq_plus1 add.commute add_eq_0_iff unatSuc)

lemma unat_pred32: "w \<noteq> 0 \<Longrightarrow> unat (w - 1) = unat w - 1" for w :: u32
  by (metis unat_minus_one)

lemma phys_get_refs:
  assumes refs: "phys_refs held s" and ok: "phys_ok (PGet p) held"
  shows "\<exists>s'. phys_page_get p s = Some s' \<and>
    phys_refs (held(phys_to_page_index p := held (phys_to_page_index p) + 1)) s' \<and> same_pages s s'"
proof -
  define i where "i = phys_to_page_index p"
  have p: "phys_page_aligned p" "0 < held (phys_to_page_index p)" "held i < 2 ^ 32 - 2" using ok by (simp_all add: i_def)
  note H = held_page [OF refs p(1,2), folded i_def]
  have wf: "phys_wf s" using refs by (simp add: phys_refs_def)
  let ?r = "page_refcounts s ! i"
  have "unat (UINT32_MAX - 1) = 2 ^ 32 - 2" by simp
  then have r1: "?r \<noteq> UINT32_MAX - 1" using H(3) p(3) by (metis less_irrefl)
  have r2: "?r \<noteq> UINT32_MAX" using H(1) by (simp add: phys_page_is_managed_def i_def)
  note G = phys_page_get_spec [OF wf H(1) i_def H(2) r1]
  have r3: "?r + 1 \<noteq> UINT32_MAX" using r1 by (metis add_diff_cancel_right')
  let ?t = "set_refcount i (?r + 1) s"
  have N: "tracked_page_count ?t = tracked_page_count s" by (rule same_frame_pages [OF set_refcount_frame(1)])
  have rc: "page_refcounts ?t ! j = (if j = i then ?r + 1 else page_refcounts s ! j)" if "j < tracked_page_count s" for j
    using that H(4) phys_wfD(2) [OF wf] by (simp add: set_refcount_def nth_list_update)
  have eq: "(held(i := held i + 1)) j =
      (if j < tracked_page_count ?t \<and> page_refcounts ?t ! j \<noteq> UINT32_MAX then unat (page_refcounts ?t ! j) else 0)" for j
  proof (cases "j = i")
    case True
    with rc [OF H(4)] r3 H(3,4) show ?thesis by (simp add: N unat_succ32 [OF r2])
  next
    case False
    with rc [of j] refs show ?thesis by (auto simp: phys_refs_def N)
  qed
  have "same_pages s ?t" unfolding same_pages_def using set_refcount_frame(1) rc r2 r3 by auto
  with G eq show ?thesis unfolding phys_refs_def i_def by blast
qed

lemma phys_put_refs:
  assumes refs: "phys_refs held s" and ok: "phys_ok (PPut p) held"
  shows "\<exists>s'. phys_page_put p s = Some s' \<and>
    phys_refs (held(phys_to_page_index p := held (phys_to_page_index p) - 1)) s' \<and> same_pages s s'"
proof -
  define i where "i = phys_to_page_index p"
  have p: "phys_page_aligned p" "0 < held (phys_to_page_index p)" using ok by simp_all
  note H = held_page [OF refs p, folded i_def]
  have wf: "phys_wf s" using refs by (simp add: phys_refs_def)
  let ?r = "page_refcounts s ! i"
  have r2: "?r \<noteq> UINT32_MAX" using H(1) by (simp add: phys_page_is_managed_def i_def)
  have r3: "?r - 1 \<noteq> UINT32_MAX" using H(2) unfolding diff_eq_eq by simp
  from phys_page_put_spec [OF wf H(1) i_def H(2)] obtain t where
    t: "phys_page_put p s = Some t" "phys_wf t" "same_frame s t"
      "\<And>j. j < tracked_page_count s \<Longrightarrow> page_refcounts t ! j = (if j = i then ?r - 1 else page_refcounts s ! j)" by blast
  have N: "tracked_page_count t = tracked_page_count s" by (rule same_frame_pages [OF t(3)])
  have eq: "(held(i := held i - 1)) j =
      (if j < tracked_page_count t \<and> page_refcounts t ! j \<noteq> UINT32_MAX then unat (page_refcounts t ! j) else 0)" for j
  proof (cases "j = i")
    case True
    with t(4) [OF H(4)] r3 H(3,4) show ?thesis by (simp add: N unat_pred32 [OF H(2)])
  next
    case False
    with t(4) [of j] refs show ?thesis by (auto simp: phys_refs_def N)
  qed
  have "same_pages s t" unfolding same_pages_def using t(3,4) r2 r3 by auto
  with t(1,2) eq show ?thesis unfolding phys_refs_def i_def by blast
qed

lemma phys_exec_refs:
  assumes refs: "phys_refs held s" and ok: "phys_ok op held"
  shows "\<exists>held' s'. phys_exec op (held, s) = Some (held', s') \<and> phys_refs held' s' \<and> same_pages s s'"
proof (cases op)
  case (PAlloc n)
  show ?thesis
  proof (cases "phys_alloc_pages n s")
    case (Some r)
    have "n \<noteq> 0" using Some by (auto simp: phys_alloc_pages_def)
    then have n: "0 < unat n" by (simp add: unat_gt_0)
    have wf: "phys_wf s" using refs by (simp add: phys_refs_def)
    from phys_alloc_pages_spec [OF wf, of n] Some obtain f where "fst r = of_nat f * PAGE_SIZE" "took_run f (unat n) s (snd r)"
      by (cases r) auto
    with took_run_refs [OF refs this(2) n] Some PAlloc show ?thesis by (cases r) auto
  qed (use PAlloc refs in auto)
next
  case (PAllocBelow n lim)
  show ?thesis
  proof (cases "phys_alloc_pages_below n lim s")
    case (Some r)
    have "n \<noteq> 0" using Some by (auto simp: phys_alloc_pages_below_def)
    then have n: "0 < unat n" by (simp add: unat_gt_0)
    have wf: "phys_wf s" using refs by (simp add: phys_refs_def)
    from phys_alloc_pages_below_spec [OF wf, of n lim "fst r" "snd r"] Some obtain f where
      "fst r = of_nat f * PAGE_SIZE" "took_run f (unat n) s (snd r)" by auto
    with took_run_refs [OF refs this(2) n] Some PAllocBelow show ?thesis by (cases r) auto
  qed (use PAllocBelow refs in auto)
next
  case (PGet p) then show ?thesis using phys_get_refs [OF refs, of p] ok by auto
next
  case (PPut p) then show ?thesis using phys_put_refs [OF refs, of p] ok by auto
qed

lemma phys_run_refs:
  "phys_refs held s \<Longrightarrow> \<exists>held' s'. phys_run ops (held, s) = Some (held', s') \<and> phys_refs held' s' \<and> same_pages s s'"
proof (induction ops arbitrary: held s)
  case (Cons op ops)
  show ?case
  proof (cases "phys_ok op held")
    case True
    from phys_exec_refs [OF Cons.prems this] obtain h t where
      t: "phys_exec op (held, s) = Some (h, t)" "phys_refs h t" "same_pages s t" by blast
    from Cons.IH [OF t(2)] t(1,3) True show ?thesis using same_pages_trans by fastforce
  next
    case False
    then show ?thesis using Cons by simp
  qed
qed simp


end
