(* ===== verification/Kvalloc.thy ===== *)
theory Kvalloc
  imports Prelude
begin

text \<open>
  The allocator of kernel virtual address ranges (src/kernel/core/kvalloc.c): a list of regions in
  address order, first fit.  The list is the linked list of the code; whether kmalloc succeeds is an
  argument.
\<close>

definition KVALLOC_BASE :: u64 where "KVALLOC_BASE = 0xfffff00000000000"
definition KVALLOC_SIZE :: u64 where "KVALLOC_SIZE = 0x0000008000000000"
definition KVALLOC_END :: u64 where "KVALLOC_END = KVALLOC_BASE + KVALLOC_SIZE"

type_synonym kvalloc_region = "u64 \<times> u64"

record kvalloc_state =
  regions :: "kvalloc_region list"
  kvalloc_initialized :: bool

definition round_up_page :: "u64 \<Rightarrow> u64 option" where
  "round_up_page sz =
     (if sz = 0 then None
      else if sz > UINT64_MAX - (PAGE_SIZE - 1) then None
      else Some ((sz + (PAGE_SIZE - 1)) AND NOT (PAGE_SIZE - 1)))"

definition kvalloc_init :: kvalloc_state where
  "kvalloc_init = \<lparr>regions = [], kvalloc_initialized = True\<rparr>"

text \<open>The search loop from \<open>candidate\<close> on, and the insertion before the region where it stopped.\<close>

definition kvalloc_fits :: "u64 \<Rightarrow> u64 \<Rightarrow> bool" where
  "kvalloc_fits candidate len \<longleftrightarrow> \<not> (candidate > KVALLOC_END \<or> len > KVALLOC_END - candidate)"

fun kvalloc_search :: "u64 \<Rightarrow> u64 \<Rightarrow> kvalloc_region list \<Rightarrow> (u64 \<times> kvalloc_region list) option" where
  "kvalloc_search len candidate [] =
     (if kvalloc_fits candidate len then Some (candidate, [(candidate, len)]) else None)"
| "kvalloc_search len candidate (cur # rest) =
     (if candidate \<le> fst cur \<and> len \<le> fst cur - candidate then
        (if kvalloc_fits candidate len then Some (candidate, (candidate, len) # cur # rest) else None)
      else if fst cur > UINT64_MAX - snd cur then None
      else map_option (\<lambda>(a, rs). (a, cur # rs)) (kvalloc_search len (fst cur + snd cur) rest))"

definition kvalloc :: "bool \<Rightarrow> u64 \<Rightarrow> kvalloc_state \<Rightarrow> u64 option \<times> kvalloc_state" where
  "kvalloc mem_ok sz s =
     (if \<not> kvalloc_initialized s then (None, s)
      else case round_up_page sz of
        None \<Rightarrow> (None, s)
      | Some len \<Rightarrow>
          if \<not> mem_ok then (None, s)
          else case kvalloc_search len KVALLOC_BASE (regions s) of
            None \<Rightarrow> (None, s)
          | Some (a, rs) \<Rightarrow> (Some a, s\<lparr>regions := rs\<rparr>))"

fun kvfree_walk :: "u64 \<Rightarrow> kvalloc_region list \<Rightarrow> kvalloc_region list option" where
  "kvfree_walk addr [] = None"
| "kvfree_walk addr (cur # rest) =
     (if fst cur = addr then Some rest
      else if fst cur > addr then None
      else map_option ((#) cur) (kvfree_walk addr rest))"

definition kvfree :: "u64 \<Rightarrow> kvalloc_state \<Rightarrow> int \<times> kvalloc_state" where
  "kvfree addr s =
     (if \<not> kvalloc_initialized s then (-1, s)
      else case kvfree_walk addr (regions s) of
        None \<Rightarrow> (-1, s)
      | Some rs \<Rightarrow> (0, s\<lparr>regions := rs\<rparr>))"

section \<open>Regions in order\<close>

definition span :: "kvalloc_region \<Rightarrow> nat set" where
  "span r = {unat (fst r) ..< unat (fst r) + unat (snd r)}"

abbreviation arena_lo :: nat where "arena_lo \<equiv> unat KVALLOC_BASE"
abbreviation arena_hi :: nat where "arena_hi \<equiv> unat KVALLOC_END"

text \<open>Regions from \<open>c\<close> upwards: in order, disjoint, page aligned, not empty, inside the arena.\<close>

fun chain :: "nat \<Rightarrow> kvalloc_region list \<Rightarrow> bool" where
  "chain c [] \<longleftrightarrow> True"
| "chain c (r # rs) \<longleftrightarrow> c \<le> unat (fst r) \<and> 0 < unat (snd r) \<and> unat (fst r) mod 4096 = 0 \<and> unat (snd r) mod 4096 = 0 \<and>
     unat (fst r) + unat (snd r) \<le> arena_hi \<and> chain (unat (fst r) + unat (snd r)) rs"

definition kvalloc_wf :: "kvalloc_state \<Rightarrow> bool" where
  "kvalloc_wf s \<longleftrightarrow> chain arena_lo (regions s)"

lemma arena_values: "arena_lo = 0xfffff00000000000" "arena_hi = 0xfffff08000000000"
  by (simp_all add: KVALLOC_END_def KVALLOC_BASE_def KVALLOC_SIZE_def)

lemma chain_mono: "chain c rs \<Longrightarrow> b \<le> c \<Longrightarrow> chain b rs"
  by (cases rs) auto

lemma chain_above: "chain c rs \<Longrightarrow> r \<in> set rs \<Longrightarrow> c \<le> unat (fst r) \<and> unat (fst r) + unat (snd r) \<le> arena_hi"
  by (induction rs arbitrary: c) fastforce+

lemma chain_append_Cons_disjoint:
  "chain c (xs @ r # ys) \<Longrightarrow> q \<in> set (xs @ ys) \<Longrightarrow> span q \<inter> span r = {}"
proof (induction xs arbitrary: c)
  case Nil
  then have "chain (unat (fst r) + unat (snd r)) ys" "q \<in> set ys" by simp_all
  from chain_above [OF this] show ?case by (auto simp: span_def)
next
  case (Cons x xs)
  show ?case
  proof (cases "q = x")
    case True
    from Cons.prems have "chain (unat (fst x) + unat (snd x)) (xs @ r # ys)" by simp
    from chain_above [OF this, of r] True show ?thesis by (auto simp: span_def)
  next
    case False
    with Cons show ?thesis by auto
  qed
qed

lemma fits_iff: "kvalloc_fits c len \<longleftrightarrow> unat c + unat len \<le> arena_hi"
proof -
  have "len \<le> KVALLOC_END - c \<longleftrightarrow> unat len \<le> arena_hi - unat c" if "c \<le> KVALLOC_END"
    using that by (simp add: word_le_nat_alt unat_sub)
  moreover have "0 \<le> unat len" by simp
  ultimately show ?thesis unfolding kvalloc_fits_def not_less de_Morgan_disj by (auto simp: word_le_nat_alt not_less)
qed

lemma gap_iff: "candidate \<le> b \<and> len \<le> b - candidate \<longleftrightarrow> unat candidate + unat len \<le> unat b" for candidate b len :: u64
proof -
  have "len \<le> b - candidate \<longleftrightarrow> unat len \<le> unat b - unat candidate" if "candidate \<le> b"
    using that by (simp add: word_le_nat_alt unat_sub)
  then show ?thesis by (auto simp: word_le_nat_alt)
qed

lemma chain_no_wrap:
  assumes "chain c (r # rs)"
  shows "\<not> fst r > UINT64_MAX - snd r" "unat (fst r + snd r) = unat (fst r) + unat (snd r)"
proof -
  have sum: "unat (fst r) + unat (snd r) < 2 ^ 64" using assms unat_bound [of KVALLOC_END] by simp
  then show "unat (fst r + snd r) = unat (fst r) + unat (snd r)" by (rule unat_add_no_wrap)
  show "\<not> fst r > UINT64_MAX - snd r" using range_wraps_iff [of "snd r" "fst r"] sum by (simp add: add.commute)
qed

section \<open>The search\<close>

lemma search_sound:
  assumes "kvalloc_search len cand rs = Some (a, rs')" "chain (unat cand) rs" "0 < unat len"
    "unat len mod 4096 = 0" "unat cand mod 4096 = 0"
  shows "chain (unat cand) rs' \<and> (\<exists>xs ys. rs = xs @ ys \<and> rs' = xs @ (a, len) # ys)"
  using assms
proof (induction len cand rs arbitrary: a rs' rule: kvalloc_search.induct)
  case (1 len cand)
  then have "a = cand" "rs' = [(cand, len)]" "kvalloc_fits cand len" by (auto split: if_splits)
  then show ?case using 1 by (simp add: fits_iff)
next
  case (2 len cand cur rest)
  show ?case
  proof (cases "cand \<le> fst cur \<and> len \<le> fst cur - cand")
    case True
    with 2(2) have eq: "a = cand" "rs' = (cand, len) # cur # rest" "kvalloc_fits cand len" by (auto split: if_splits)
    with True 2(3-6) have "chain (unat cand) rs'" unfolding gap_iff fits_iff by simp
    moreover have "cur # rest = [] @ cur # rest \<and> rs' = [] @ (a, len) # cur # rest" using eq by simp
    ultimately show ?thesis by blast
  next
    case False
    note nw = chain_no_wrap [OF 2(3)]
    from False nw(1) 2(2) obtain rs1 where rs1: "kvalloc_search len (fst cur + snd cur) rest = Some (a, rs1)" "rs' = cur # rs1"
      by (auto split: if_splits)
    have "chain (unat (fst cur + snd cur)) rest" "unat (fst cur + snd cur) mod 4096 = 0"
      unfolding nw(2) using 2(3) by (simp_all add: mod_add_eq [symmetric])
    from 2(1) [OF False nw(1) rs1(1) this(1) 2(4,5) this(2)]
    obtain xs ys where "chain (unat (fst cur + snd cur)) rs1" "rest = xs @ ys" "rs1 = xs @ (a, len) # ys" by blast
    with 2(3) rs1(2) nw(2) have "chain (unat cand) rs'" "cur # rest = (cur # xs) @ ys" "rs' = (cur # xs) @ (a, len) # ys" by simp_all
    then show ?thesis by blast
  qed
qed

lemma search_complete:
  assumes "kvalloc_search len cand rs = None" "chain (unat cand) rs" "0 < unat len"
    and "unat cand \<le> x" "x + unat len \<le> arena_hi"
  shows "\<exists>r \<in> set rs. span r \<inter> {x ..< x + unat len} \<noteq> {}"
  using assms
proof (induction len cand rs rule: kvalloc_search.induct)
  case (1 len cand)
  then show ?case by (simp add: fits_iff split: if_splits)
next
  case (2 len cand cur rest)
  note nw = chain_no_wrap [OF 2(3)]
  have ng: "\<not> (cand \<le> fst cur \<and> len \<le> fst cur - cand)"
  proof
    assume gap: "cand \<le> fst cur \<and> len \<le> fst cur - cand"
    with 2(2) have "\<not> kvalloc_fits cand len" by (simp split: if_splits)
    with gap 2(3) show False unfolding gap_iff fits_iff by simp
  qed
  show ?case
  proof (cases "unat (fst cur) + unat (snd cur) \<le> x")
    case True
    have "kvalloc_search len (fst cur + snd cur) rest = None" using ng nw(1) 2(2) by (simp split: if_splits)
    from 2(1) [OF ng nw(1) this] True 2(3,4,6) nw(2) show ?thesis by auto
  next
    case False
    have "x < unat (fst cur) + unat (snd cur)" "unat (fst cur) < x + unat len"
      using False ng 2(5) unfolding gap_iff by linarith+
    then have "max x (unat (fst cur)) \<in> span cur \<inter> {x ..< x + unat len}" using 2(3,4) by (auto simp: span_def)
    then show ?thesis by auto
  qed
qed

lemma round_up_page_spec:
  "round_up_page sz = None \<longleftrightarrow> sz = 0 \<or> 2 ^ 64 \<le> unat sz + 4095"
  "round_up_page sz = Some len \<Longrightarrow> unat len = page_ceil (unat sz) \<and> 0 < unat sz"
proof -
  have m: "unat (PAGE_SIZE - 1) = 4095" by simp
  have wrap: "sz > UINT64_MAX - (PAGE_SIZE - 1) \<longleftrightarrow> 2 ^ 64 \<le> unat sz + 4095"
    unfolding range_wraps_iff m by (simp only: add.commute)
  then show "round_up_page sz = None \<longleftrightarrow> sz = 0 \<or> 2 ^ 64 \<le> unat sz + 4095" by (auto simp: round_up_page_def)
  assume "round_up_page sz = Some len"
  then have sz: "sz \<noteq> 0" "unat sz + 4095 < 2 ^ 64" and len: "len = (sz + (PAGE_SIZE - 1)) AND NOT (PAGE_SIZE - 1)"
    using wrap by (auto simp: round_up_page_def split: if_splits)
  have "0 < unat sz" using sz(1) by (simp add: unat_gt_0)
  with unat_page_ceil [OF sz(2)] show "unat len = page_ceil (unat sz) \<and> 0 < unat sz" unfolding len by simp
qed

section \<open>What the allocator promises\<close>

lemma BASE_aligned: "arena_lo mod 4096 = 0"
  unfolding arena_values by simp

lemma chain_aligned: "chain c rs \<Longrightarrow> r \<in> set rs \<Longrightarrow> unat (fst r) mod 4096 = 0"
  by (induction rs arbitrary: c) auto

lemma chain_nonempty: "chain c rs \<Longrightarrow> r \<in> set rs \<Longrightarrow> 0 < unat (snd r)"
  by (induction rs arbitrary: c) auto

definition disjoint_from :: "kvalloc_region list \<Rightarrow> nat set \<Rightarrow> bool" where
  "disjoint_from rs A \<longleftrightarrow> (\<forall>r \<in> set rs. span r \<inter> A = {})"

lemma kvalloc_Some:
  assumes "kvalloc_wf s" "kvalloc mem sz s = (Some a, s')"
  obtains len xs ys where "regions s = xs @ ys" "regions s' = xs @ (a, len) # ys" "unat len = page_ceil (unat sz)"
    "chain arena_lo (regions s')" "kvalloc_initialized s'"
proof -
  from assms(2) obtain len where len: "round_up_page sz = Some len" "kvalloc_search len KVALLOC_BASE (regions s) = Some (a, regions s')"
    "kvalloc_initialized s'"
    by (auto simp: kvalloc_def split: if_splits option.splits)
  note rl = round_up_page_spec(2) [OF len(1)]
  have "0 < unat len" "unat len mod 4096 = 0" using rl page_ceil_bounds by simp_all
  from search_sound [OF len(2) assms(1) [unfolded kvalloc_wf_def] this BASE_aligned] rl len(3) show ?thesis using that by blast
qed

lemma kvalloc_None:
  assumes "kvalloc_wf s" "kvalloc_initialized s" "kvalloc True sz s = (None, s')"
  shows "s' = s" "sz \<noteq> 0 \<Longrightarrow> unat sz + 4095 < 2 ^ 64 \<Longrightarrow> arena_lo \<le> x \<Longrightarrow> x + page_ceil (unat sz) \<le> arena_hi \<Longrightarrow>
    \<not> disjoint_from (regions s) {x ..< x + page_ceil (unat sz)}"
proof -
  show "s' = s" using assms(3) by (auto simp: kvalloc_def split: if_splits option.splits)
  assume sz: "sz \<noteq> 0" "unat sz + 4095 < 2 ^ 64" and x: "arena_lo \<le> x" "x + page_ceil (unat sz) \<le> arena_hi"
  then obtain len where len: "round_up_page sz = Some len" using round_up_page_spec(1) [of sz] by (cases "round_up_page sz") auto
  note rl = round_up_page_spec(2) [OF len]
  have none: "kvalloc_search len KVALLOC_BASE (regions s) = None"
    using assms(2,3) len by (auto simp: kvalloc_def split: option.splits)
  have pos: "0 < unat len" using rl page_ceil_bounds by simp
  from search_complete [OF none assms(1) [unfolded kvalloc_wf_def] pos x(1)] x(2) rl
  show "\<not> disjoint_from (regions s) {x ..< x + page_ceil (unat sz)}" by (auto simp: disjoint_from_def)
qed

text \<open>
  Property C22.  kvalloc returns a page-aligned range, the requested size rounded up to pages, inside
  the arena and disjoint from every range handed out before, and keeps the list in order.  With
  memory for the entry it fails, changing nothing, only for a size of zero, a size whose rounding
  wraps, or when every range of that length in the arena meets an allocated one.
\<close>

theorem kvalloc_correct:
  assumes "kvalloc_wf s" "kvalloc_initialized s"
  shows "case kvalloc True sz s of
           (Some a, s') \<Rightarrow> kvalloc_wf s' \<and> unat a mod 4096 = 0 \<and> arena_lo \<le> unat a \<and>
             unat a + page_ceil (unat sz) \<le> arena_hi \<and>
             disjoint_from (regions s) {unat a ..< unat a + page_ceil (unat sz)} \<and>
             (\<exists>r. set (regions s') = insert r (set (regions s)) \<and> span r = {unat a ..< unat a + page_ceil (unat sz)})
         | (None, s') \<Rightarrow> s' = s \<and>
             (sz = 0 \<or> 2 ^ 64 \<le> unat sz + 4095 \<or>
              (\<forall>x. arena_lo \<le> x \<and> x + page_ceil (unat sz) \<le> arena_hi \<longrightarrow>
                 \<not> disjoint_from (regions s) {x ..< x + page_ceil (unat sz)}))"
proof (cases "kvalloc True sz s")
  case (Pair q s')
  show ?thesis
  proof (cases q)
    case None
    then show ?thesis using kvalloc_None [OF assms, of sz s'] Pair by (auto simp: not_le)
  next
    case (Some a)
    then obtain len xs ys where r: "regions s = xs @ ys" "regions s' = xs @ (a, len) # ys" "unat len = page_ceil (unat sz)"
      "chain arena_lo (regions s')" using kvalloc_Some [OF assms(1)] Pair by metis
    have mem: "(a, len) \<in> set (regions s')" using r(2) by simp
    have "disjoint_from (regions s) (span (a, len))" unfolding disjoint_from_def
      using chain_append_Cons_disjoint [of arena_lo xs "(a, len)" ys] r by simp
    moreover have "set (regions s') = insert (a, len) (set (regions s))" using r by auto
    ultimately show ?thesis using Pair Some chain_above [OF r(4) mem] chain_aligned [OF r(4) mem] r(3,4)
      unfolding kvalloc_wf_def span_def by (simp del: split_paired_Ex) (metis fst_conv snd_conv)
  qed
qed

theorem kvalloc_correct_witness:
  "fst (kvalloc True 5000 kvalloc_init) = Some KVALLOC_BASE \<and> kvalloc_wf (snd (kvalloc True 5000 kvalloc_init))"
proof -
  have "kvalloc_wf kvalloc_init" "kvalloc_initialized kvalloc_init" by (simp_all add: kvalloc_wf_def kvalloc_init_def)
  from kvalloc_correct [OF this, of 5000]
  have "fst (kvalloc True 5000 kvalloc_init) = Some a \<Longrightarrow> kvalloc_wf (snd (kvalloc True 5000 kvalloc_init))" for a
    by (cases "kvalloc True 5000 kvalloc_init") auto
  moreover have "fst (kvalloc True 5000 kvalloc_init) = Some KVALLOC_BASE" by code_simp
  ultimately show ?thesis by blast
qed

text \<open>Freeing removes exactly the region that starts at the address.\<close>

lemma kvfree_walk_spec:
  "chain c rs \<Longrightarrow> kvfree_walk addr rs =
     (if addr \<in> fst ` set rs then Some (filter (\<lambda>r. fst r \<noteq> addr) rs) else None)"
proof (induction rs arbitrary: c)
  case (Cons r rs)
  from Cons.prems have ch: "chain (unat (fst r) + unat (snd r)) rs" "0 < unat (snd r)" by simp_all
  have above: "unat (fst r) < unat (fst q)" if "q \<in> set rs" for q using chain_above [OF ch(1) that] ch(2) by linarith
  show ?case
  proof (cases "fst r = addr")
    case True
    then have "\<forall>q \<in> set rs. fst q \<noteq> addr" using above by fastforce
    then have "filter (\<lambda>r. fst r \<noteq> addr) rs = rs" by (rule filter_True)
    then show ?thesis using True by simp
  next
    case False
    have "fst r > addr \<Longrightarrow> addr \<notin> fst ` set rs" using above by (force simp: word_less_nat_alt)
    then show ?thesis using False Cons.IH [OF ch(1)] by auto
  qed
qed simp

lemma chain_filter: "chain c rs \<Longrightarrow> chain c (filter P rs)"
proof (induction rs arbitrary: c)
  case (Cons r rs)
  then have "chain (unat (fst r) + unat (snd r)) (filter P rs)" "c \<le> unat (fst r) + unat (snd r)" by simp_all
  with Cons.prems show ?case using chain_mono by auto
qed simp

text \<open>
  Property C23.  kvfree of an address that kvalloc returned gives back exactly that range: the state
  is the one before the allocation.  kvfree of any other address fails and changes nothing.
\<close>

theorem kvfree_inverts_kvalloc:
  assumes "kvalloc_wf s" "kvalloc mem sz s = (Some a, s')"
  shows "kvfree a s' = (0, s) \<and> (b \<notin> fst ` set (regions s') \<longrightarrow> kvfree b s' = (-1, s'))"
proof -
  obtain len xs ys where r: "regions s = xs @ ys" "regions s' = xs @ (a, len) # ys" "unat len = page_ceil (unat sz)"
    "chain arena_lo (regions s')" "kvalloc_initialized s'" using kvalloc_Some [OF assms] by metis
  have init: "s = s'\<lparr>regions := regions s\<rparr>" using assms(2) by (auto simp: kvalloc_def split: if_splits option.splits)
  have "0 < unat len" using assms(2) r(3) page_ceil_bounds(4) [of "unat sz"] round_up_page_spec
    by (auto simp: kvalloc_def split: if_splits option.splits)
  then have "fst q \<noteq> a" if "q \<in> set (xs @ ys)" for q
  proof -
    have "0 < unat (snd q)" using chain_nonempty [OF r(4), of q] that unfolding r(2) by auto
    then show ?thesis using chain_append_Cons_disjoint [of arena_lo xs "(a, len)" ys q] that r \<open>0 < unat len\<close>
      by (auto simp: span_def)
  qed
  then have "filter (\<lambda>r. fst r \<noteq> a) (regions s') = regions s" using r by (auto intro!: filter_True)
  then show ?thesis using kvfree_walk_spec [OF r(4)] r init by (auto simp: kvfree_def)
qed

theorem kvfree_inverts_kvalloc_witness:
  "kvfree KVALLOC_BASE (snd (kvalloc True 1 kvalloc_init)) = (0, kvalloc_init)"
proof -
  have "kvalloc_wf kvalloc_init" by (simp add: kvalloc_wf_def kvalloc_init_def)
  moreover have "fst (kvalloc True 1 kvalloc_init) = Some KVALLOC_BASE" by code_simp
  then have "kvalloc True 1 kvalloc_init = (Some KVALLOC_BASE, snd (kvalloc True 1 kvalloc_init))" by (simp add: prod_eq_iff)
  ultimately show ?thesis using kvfree_inverts_kvalloc [of kvalloc_init True 1 KVALLOC_BASE] by blast
qed

lemma kvfree_wf: "kvalloc_wf s \<Longrightarrow> kvalloc_wf (snd (kvfree a s))"
  by (auto simp: kvfree_def kvalloc_wf_def kvfree_walk_spec chain_filter)

end
