(* ===== verification/Physboot.thy ===== *)
theory Physboot
  imports Physmem Kvalloc "HOL-Library.Monad_Syntax"
begin

text \<open>
  The boot of the memory manager (memory_init of src/kernel/core/memory.c): parsing the multiboot
  memory map, the reserved ranges, the bootstrap allocator, the extension of the physical map, and the
  first state of the page allocator.  \<open>None\<close> is memory_panic.  What the boot loader left in memory is an
  argument: the information structure, its modules and the memory-map entry at each address.  Cursor
  and candidate addresses of the loops are natural numbers; they stay far below 2 ^ 64, since the
  pointers have 32 bits and the bootstrap window is 1 GiB.
\<close>

section \<open>Boot ranges\<close>

type_synonym boot_range_t = "u64 \<times> u64"

record boot_ranges =
  usable_ranges :: "boot_range_t list"
  reserved_ranges :: "boot_range_t list"
  total_ram_bytes_value :: u64

record multiboot_info_t =
  mb_flags :: u32
  mem_lower :: u32
  mem_upper :: u32
  cmdline :: u32
  mods_count :: u32
  mods_addr :: u32
  mmap_length :: u32
  mmap_addr :: u32
  drives_length :: u32
  drives_addr :: u32
  config_table :: u32
  boot_loader_name :: u32
  apm_table :: u32

record multiboot_module_t =
  mod_start :: u32
  mod_end :: u32
  mod_string :: u32

record multiboot_mmap_entry_t =
  me_size :: u32
  me_addr :: u64
  me_len :: u64
  me_type :: u32

abbreviation MAX_BOOT_RANGES :: nat where "MAX_BOOT_RANGES \<equiv> 128"
abbreviation MB_INFO_MEMORY :: u32 where "MB_INFO_MEMORY \<equiv> 1"
abbreviation MB_INFO_CMDLINE :: u32 where "MB_INFO_CMDLINE \<equiv> 4"
abbreviation MB_INFO_MODS :: u32 where "MB_INFO_MODS \<equiv> 8"
abbreviation MB_INFO_MMAP :: u32 where "MB_INFO_MMAP \<equiv> 64"
abbreviation MB_INFO_DRIVES :: u32 where "MB_INFO_DRIVES \<equiv> 128"
abbreviation MB_INFO_CONFIG_TABLE :: u32 where "MB_INFO_CONFIG_TABLE \<equiv> 256"
abbreviation MB_INFO_BOOT_LOADER :: u32 where "MB_INFO_BOOT_LOADER \<equiv> 512"
abbreviation MB_INFO_APM_TABLE :: u32 where "MB_INFO_APM_TABLE \<equiv> 1024"
abbreviation MULTIBOOT_MEMORY_AVAILABLE :: u32 where "MULTIBOOT_MEMORY_AVAILABLE \<equiv> 1"
abbreviation MULTIBOOT_BOOTLOADER_MAGIC :: u32 where "MULTIBOOT_BOOTLOADER_MAGIC \<equiv> 0x2badb002"
abbreviation BOOTSTRAP_PHYS_WINDOW_LIMIT :: u64 where "BOOTSTRAP_PHYS_WINDOW_LIMIT \<equiv> 0x40000000"
abbreviation BOOTSTUB32_PHYS_BASE :: u64 where "BOOTSTUB32_PHYS_BASE \<equiv> 0x02000000"
abbreviation BOOTSTUB32_RESERVED_BYTES :: u64 where "BOOTSTUB32_RESERVED_BYTES \<equiv> 0x00200000"
abbreviation LEGACY_DMA_RESERVE_LIMIT :: u64 where "LEGACY_DMA_RESERVE_LIMIT \<equiv> 0x01000000"
abbreviation PHYSMAP_GIB :: u64 where "PHYSMAP_GIB \<equiv> 0x40000000"
abbreviation HUGE_PAGE_SIZE :: u64 where "HUGE_PAGE_SIZE \<equiv> 0x00200000"

definition flag_set :: "u32 \<Rightarrow> multiboot_info_t \<Rightarrow> bool" where
  "flag_set f mbi \<longleftrightarrow> mb_flags mbi AND f \<noteq> 0"

definition reserve_range :: "u64 \<Rightarrow> u64 \<Rightarrow> boot_ranges \<Rightarrow> boot_ranges option" where
  "reserve_range start stop b =
     (if length (reserved_ranges b) \<ge> MAX_BOOT_RANGES then None
      else if stop \<le> start then Some b
      else Some (b\<lparr>reserved_ranges := reserved_ranges b @ [(start, stop)]\<rparr>))"

definition add_usable_range :: "u64 \<Rightarrow> u64 \<Rightarrow> boot_ranges \<Rightarrow> boot_ranges option" where
  "add_usable_range start stop b =
     (if length (usable_ranges b) \<ge> MAX_BOOT_RANGES then None
      else if stop \<le> start then Some b
      else Some (b\<lparr>usable_ranges := usable_ranges b @ [(start, stop)]\<rparr>))"

definition ranges_overlap :: "u64 \<Rightarrow> u64 \<Rightarrow> u64 \<Rightarrow> u64 \<Rightarrow> bool" where
  "ranges_overlap a_start a_end b_start b_end \<longleftrightarrow> a_start < b_end \<and> b_start < a_end"

definition range_is_reserved :: "u64 \<Rightarrow> u64 \<Rightarrow> boot_ranges \<Rightarrow> bool" where
  "range_is_reserved start stop b \<longleftrightarrow> list_ex (\<lambda>(a, e). ranges_overlap start stop a e) (reserved_ranges b)"

definition reserve_pages :: "u64 \<Rightarrow> u64 \<Rightarrow> boot_ranges \<Rightarrow> boot_ranges option" where
  \<comment> \<open>the whole pages around a range of bytes\<close>
  "reserve_pages start stop b = reserve_range (align_down_u64 start PAGE_SIZE) (align_up_u64 stop PAGE_SIZE) b"

definition reserve_pointer_page :: "u32 \<Rightarrow> boot_ranges \<Rightarrow> boot_ranges option" where
  "reserve_pointer_page pointer b =
     (if pointer = 0 then Some b else reserve_pages (ucast pointer) (ucast pointer + 1) b)"

definition when_flag :: "u32 \<Rightarrow> multiboot_info_t \<Rightarrow> (boot_ranges \<Rightarrow> boot_ranges option) \<Rightarrow> boot_ranges \<Rightarrow> boot_ranges option" where
  "when_flag f mbi act b = (if flag_set f mbi then act b else Some b)"

fun reserve_modules :: "multiboot_module_t list \<Rightarrow> boot_ranges \<Rightarrow> boot_ranges option" where
  "reserve_modules [] b = Some b"
| "reserve_modules (m # ms) b =
     do { b \<leftarrow> reserve_pages (ucast (mod_start m)) (ucast (mod_end m)) b;
          b \<leftarrow> reserve_pointer_page (mod_string m) b;
          reserve_modules ms b }"

definition reserve_multiboot_payloads :: "u64 \<Rightarrow> multiboot_info_t \<Rightarrow> multiboot_module_t list \<Rightarrow> boot_ranges \<Rightarrow> boot_ranges option" where
  \<comment> \<open>88 is the size of the information structure, 16 that of a module\<close>
  "reserve_multiboot_payloads mbi_addr mbi mods b =
     do { b \<leftarrow> reserve_pages mbi_addr (mbi_addr + 88) b;
          b \<leftarrow> when_flag MB_INFO_CMDLINE mbi (reserve_pointer_page (cmdline mbi)) b;
          b \<leftarrow> when_flag MB_INFO_BOOT_LOADER mbi (reserve_pointer_page (boot_loader_name mbi)) b;
          b \<leftarrow> when_flag MB_INFO_CONFIG_TABLE mbi (reserve_pointer_page (config_table mbi)) b;
          b \<leftarrow> when_flag MB_INFO_APM_TABLE mbi (reserve_pointer_page (apm_table mbi)) b;
          b \<leftarrow> when_flag MB_INFO_DRIVES mbi
                (reserve_pages (ucast (drives_addr mbi)) (ucast (drives_addr mbi) + ucast (drives_length mbi))) b;
          b \<leftarrow> when_flag MB_INFO_MMAP mbi
                (reserve_pages (ucast (mmap_addr mbi)) (ucast (mmap_addr mbi) + ucast (mmap_length mbi))) b;
          when_flag MB_INFO_MODS mbi
            (\<lambda>b. do { b \<leftarrow> reserve_pages (ucast (mods_addr mbi)) (ucast (mods_addr mbi) + ucast (mods_count mbi) * 16) b;
                      reserve_modules mods b }) b }"

section \<open>The memory map\<close>

definition mmap_entry :: "multiboot_mmap_entry_t \<Rightarrow> u64 \<times> boot_ranges \<Rightarrow> (u64 \<times> boot_ranges) option" where
  \<comment> \<open>the body of the loop: the highest end so far, and the ranges\<close>
  "mmap_entry e hb =
     (let (hi, b) = hb; entry_end = me_addr e + me_len e in
      if me_len e \<noteq> 0 \<and> entry_end > me_addr e \<and> me_type e = MULTIBOOT_MEMORY_AVAILABLE then
        do { b \<leftarrow> add_usable_range (me_addr e) entry_end b;
             Some (if entry_end > hi then entry_end else hi, b\<lparr>total_ram_bytes_value := total_ram_bytes_value b + me_len e\<rparr>) }
      else Some (hi, b))"

function mmap_walk :: "(nat \<Rightarrow> multiboot_mmap_entry_t) \<Rightarrow> nat \<Rightarrow> nat \<Rightarrow> u64 \<times> boot_ranges \<Rightarrow> (u64 \<times> boot_ranges) option" where
  \<comment> \<open>24 is the size of an entry\<close>
  "mmap_walk entry_at cursor stop hb =
     (if cursor + 24 \<le> stop then
        Option.bind (mmap_entry (entry_at cursor) hb)
          (mmap_walk entry_at (cursor + unat (me_size (entry_at cursor)) + 4) stop)
      else Some hb)"
  by pat_completeness auto
termination by (relation "measure (\<lambda>(_, cursor, stop, _). stop - cursor)") auto

declare mmap_walk.simps [simp del]

definition memory_entries :: "multiboot_info_t \<Rightarrow> boot_ranges \<Rightarrow> (u64 \<times> boot_ranges) option" where
  \<comment> \<open>the branch without a memory map\<close>
  "memory_entries mbi b =
     do { b \<leftarrow> (if mem_lower mbi \<noteq> 0 then add_usable_range 0 (ucast (mem_lower mbi) * 1024) b else Some b);
          b \<leftarrow> (if mem_upper mbi \<noteq> 0
                then add_usable_range 0x00100000 (0x00100000 + ucast (mem_upper mbi) * 1024) b else Some b);
          let b = b\<lparr>total_ram_bytes_value := ucast (mem_lower mbi + mem_upper mbi) * 1024\<rparr>;
          Some (foldl (\<lambda>hi r. if snd r > hi then snd r else hi) 0 (usable_ranges b), b) }"

definition parse_multiboot_memory_map ::
  "u64 \<Rightarrow> u64 \<Rightarrow> multiboot_info_t \<Rightarrow> multiboot_module_t list \<Rightarrow> (nat \<Rightarrow> multiboot_mmap_entry_t) \<Rightarrow> (u64 \<times> boot_ranges) option" where
  \<comment> \<open>tracked_phys_limit and the ranges\<close>
  "parse_multiboot_memory_map kernel_end mbi_addr mbi mods entry_at =
     (let b = \<lparr>usable_ranges = [], reserved_ranges = [], total_ram_bytes_value = 0\<rparr> in
      do { (hi, b) \<leftarrow>
             (if flag_set MB_INFO_MMAP mbi
              then mmap_walk entry_at (unat (mmap_addr mbi)) (unat (mmap_addr mbi) + unat (mmap_length mbi)) (0, b)
              else if flag_set MB_INFO_MEMORY mbi then memory_entries mbi b
              else None);
           b \<leftarrow> (if usable_ranges b = [] \<or> hi = 0 then None else Some b);
           b \<leftarrow> reserve_range 0 0x00100000 b;
           b \<leftarrow> reserve_range 0x00100000 (align_up_u64 kernel_end PAGE_SIZE) b;
           b \<leftarrow> reserve_range BOOTSTUB32_PHYS_BASE (BOOTSTUB32_PHYS_BASE + BOOTSTUB32_RESERVED_BYTES) b;
           b \<leftarrow> reserve_multiboot_payloads mbi_addr mbi mods b;
           Some (align_up_u64 hi PAGE_SIZE, b) })"

section \<open>The bootstrap allocator\<close>

record bootstrap_allocator_t =
  bs_start :: u64
  bs_current :: u64
  bs_end :: u64
  bs_active :: bool

definition bootstrap_bytes_required :: "u64 \<Rightarrow> u64" where
  "bootstrap_bytes_required phys_limit =
     (let pages = align_up_u64 phys_limit PAGE_SIZE div PAGE_SIZE;
          bitmap_bytes = align_up_u64 ((pages + 7) div 8) PAGE_SIZE;
          refcount_bytes = align_up_u64 (pages * 4) PAGE_SIZE;
          physmap_gib = align_up_u64 phys_limit PHYSMAP_GIB div PHYSMAP_GIB;
          extra_pd_pages = (if physmap_gib > 1 then physmap_gib - 1 else 0) in
      bitmap_bytes + refcount_bytes + extra_pd_pages * PAGE_SIZE)"

function find_candidate :: "nat \<Rightarrow> nat \<Rightarrow> nat \<Rightarrow> boot_ranges \<Rightarrow> u64 option" where
  "find_candidate candidate rounded stop b =
     (if candidate + rounded > stop then None
      else if \<not> range_is_reserved (of_nat candidate) (of_nat (candidate + rounded)) b then Some (of_nat candidate)
      else find_candidate (candidate + 4096) rounded stop b)"
  by pat_completeness auto
termination by (relation "measure (\<lambda>(candidate, rounded, stop, _). stop + 1 - candidate)") auto

declare find_candidate.simps [simp del]

fun find_in_ranges :: "nat \<Rightarrow> boot_range_t list \<Rightarrow> boot_ranges \<Rightarrow> u64 option" where
  "find_in_ranges rounded [] b = None"
| "find_in_ranges rounded (r # rs) b =
     (let start = align_up_u64 (fst r) PAGE_SIZE; stop = align_down_u64 (snd r) PAGE_SIZE in
      if start \<ge> stop \<or> start \<ge> BOOTSTRAP_PHYS_WINDOW_LIMIT then find_in_ranges rounded rs b
      else
        let stop = (if stop > BOOTSTRAP_PHYS_WINDOW_LIMIT then BOOTSTRAP_PHYS_WINDOW_LIMIT else stop) in
        case find_candidate (unat start) rounded (unat stop) b of
          Some c \<Rightarrow> Some c
        | None \<Rightarrow> find_in_ranges rounded rs b)"

definition find_bootstrap_region :: "u64 \<Rightarrow> boot_ranges \<Rightarrow> u64 option" where
  "find_bootstrap_region bytes b = find_in_ranges (unat (align_up_u64 bytes PAGE_SIZE)) (usable_ranges b) b"

definition bootstrap_begin :: "u64 \<Rightarrow> u64 \<Rightarrow> bootstrap_allocator_t" where
  "bootstrap_begin start bytes =
     \<lparr>bs_start = start, bs_current = start, bs_end = start + align_up_u64 bytes PAGE_SIZE, bs_active = True\<rparr>"

definition bootstrap_alloc :: "u64 \<Rightarrow> u64 \<Rightarrow> bootstrap_allocator_t \<Rightarrow> (u64 \<times> bootstrap_allocator_t) option" where
  "bootstrap_alloc bytes alignment a =
     (if \<not> bs_active a then None
      else
        let alignment = (if alignment = 0 then PAGE_SIZE else alignment);
            current = align_up_u64 (bs_current a) alignment in
        if current > bs_end a \<or> bytes > bs_end a - current then None
        else Some (current, a\<lparr>bs_current := current + bytes\<rparr>))"

definition bootstrap_finish :: "bootstrap_allocator_t \<Rightarrow> bootstrap_allocator_t" where
  "bootstrap_finish a = a\<lparr>bs_active := False\<rparr>"

section \<open>The physical map\<close>

abbreviation PAGE_PRESENT :: u64 where "PAGE_PRESENT \<equiv> 1"
abbreviation PAGE_WRITABLE :: u64 where "PAGE_WRITABLE \<equiv> 2"
abbreviation PAGE_USER :: u64 where "PAGE_USER \<equiv> 4"
abbreviation HUGE_PAGE_FLAG :: u64 where "HUGE_PAGE_FLAG \<equiv> 0x80"
abbreviation PAGE_ADDR_MASK :: u64 where "PAGE_ADDR_MASK \<equiv> 0x000ffffffffff000"

type_synonym phys_memory = "u64 \<Rightarrow> nat \<Rightarrow> u64"

definition page_table :: "u64 \<Rightarrow> phys_memory \<Rightarrow> nat \<Rightarrow> u64" where
  "page_table physical m = m (physical AND PAGE_ADDR_MASK)"

definition table_write :: "u64 \<Rightarrow> nat \<Rightarrow> u64 \<Rightarrow> phys_memory \<Rightarrow> phys_memory" where
  "table_write physical i v m = m(physical AND PAGE_ADDR_MASK := (page_table physical m)(i := v))"

definition bootstrap_alloc_page :: "phys_memory \<times> bootstrap_allocator_t \<Rightarrow> (u64 \<times> phys_memory \<times> bootstrap_allocator_t) option" where
  "bootstrap_alloc_page ma =
     do { (page, a) \<leftarrow> bootstrap_alloc PAGE_SIZE PAGE_SIZE (snd ma);
          Some (page, (fst ma)(page := (\<lambda>_. 0)), a) }"

definition map_gib :: "u64 \<Rightarrow> nat \<Rightarrow> phys_memory \<times> bootstrap_allocator_t \<Rightarrow> (phys_memory \<times> bootstrap_allocator_t) option" where
  \<comment> \<open>one turn of the loop: a page directory of 2 MiB pages for this GiB, unless it is present\<close>
  "map_gib pdpt gib ma =
     (if page_table pdpt (fst ma) gib AND PAGE_PRESENT \<noteq> 0 then Some ma
      else
        do { (pd_phys, m, a) \<leftarrow> bootstrap_alloc_page ma;
             let m = m(pd_phys AND PAGE_ADDR_MASK :=
                         (\<lambda>i. if i < 512 then (of_nat gib * PHYSMAP_GIB + of_nat i * HUGE_PAGE_SIZE)
                                                OR PAGE_PRESENT OR PAGE_WRITABLE OR HUGE_PAGE_FLAG else 0));
             Some (table_write pdpt gib (pd_phys OR PAGE_PRESENT OR PAGE_WRITABLE) m, a) })"

fun map_gibs :: "u64 \<Rightarrow> nat list \<Rightarrow> phys_memory \<times> bootstrap_allocator_t \<Rightarrow> (phys_memory \<times> bootstrap_allocator_t) option" where
  "map_gibs pdpt [] ma = Some ma"
| "map_gibs pdpt (g # gs) ma = Option.bind (map_gib pdpt g ma) (map_gibs pdpt gs)"

definition expand_physmap :: "u64 \<Rightarrow> u64 \<Rightarrow> phys_memory \<times> bootstrap_allocator_t \<Rightarrow> (phys_memory \<times> bootstrap_allocator_t) option" where
  "expand_physmap pml4 limit ma =
     (let needed_gib = align_up_u64 limit PHYSMAP_GIB div PHYSMAP_GIB;
          pdpt = page_table pml4 (fst ma) 256 AND PAGE_ADDR_MASK in
      if needed_gib > 512 then None else map_gibs pdpt [1 ..< unat needed_gib] ma)"

section \<open>The first state of the allocator\<close>

definition mark_managed :: "nat \<Rightarrow> phys_state \<Rightarrow> phys_state" where
  "mark_managed i s =
     (if page_index_valid i s \<and> page_refcounts s ! i = UINT32_MAX then
        let s = set_refcount i 0 (bitmap_clear i s) in
        s\<lparr>managed_page_count_value := managed_page_count_value s + 1, free_page_count_value := free_page_count_value s + 1\<rparr>
      else s)"

definition allocator_mark_managed_range :: "u64 \<Rightarrow> u64 \<Rightarrow> phys_state \<Rightarrow> phys_state" where
  "allocator_mark_managed_range start stop s =
     fold mark_managed [phys_to_page_index (align_up_u64 start PAGE_SIZE) ..< phys_to_page_index (align_down_u64 stop PAGE_SIZE)] s"

definition mark_unmanaged :: "nat \<Rightarrow> phys_state \<Rightarrow> phys_state" where
  "mark_unmanaged i s =
     (if page_index_valid i s then
        let s = (if page_refcounts s ! i \<noteq> UINT32_MAX then
                   let s = (if \<not> bitmap_test i s then s\<lparr>free_page_count_value := free_page_count_value s - 1\<rparr> else s) in
                   s\<lparr>managed_page_count_value := managed_page_count_value s - 1\<rparr>
                 else s) in
        set_refcount i UINT32_MAX (bitmap_set i s)
      else s)"

definition allocator_mark_unmanaged_range :: "u64 \<Rightarrow> u64 \<Rightarrow> phys_state \<Rightarrow> phys_state" where
  "allocator_mark_unmanaged_range start stop s =
     fold mark_unmanaged [phys_to_page_index (align_down_u64 start PAGE_SIZE) ..< phys_to_page_index (align_up_u64 stop PAGE_SIZE)] s"

definition unmanaged_pages :: "u64 \<Rightarrow> phys_memory \<Rightarrow> phys_state" where
  "unmanaged_pages limit m =
     (let pages = unat (limit div PAGE_SIZE); pool_floor = unat (align_up_u64 LEGACY_DMA_RESERVE_LIMIT PAGE_SIZE div PAGE_SIZE) in
      \<lparr>tracked_phys_limit = limit, managed_page_count_value = 0, free_page_count_value = 0,
       general_search_hint = pool_floor, constrained_search_hint = 1, general_pool_floor_page = pool_floor,
       alloc_bitmap = replicate ((pages + 7) div 8) 0xff, page_refcounts = replicate pages UINT32_MAX, phys_words = m\<rparr>)"

definition allocator_init_metadata ::
  "u64 \<Rightarrow> boot_ranges \<Rightarrow> phys_memory \<times> bootstrap_allocator_t \<Rightarrow> (u64 \<times> u64 \<times> phys_state \<times> bootstrap_allocator_t) option" where
  \<comment> \<open>also returns where the bitmap and the reference counts are stored\<close>
  "allocator_init_metadata limit b ma =
     (let pages = limit div PAGE_SIZE in
      do { (bitmap_phys, a) \<leftarrow> bootstrap_alloc ((pages + 7) div 8) PAGE_SIZE (snd ma);
           (refcount_phys, a) \<leftarrow> bootstrap_alloc (pages * 4) PAGE_SIZE a;
           let s = fold (\<lambda>(start, stop). allocator_mark_managed_range start stop) (usable_ranges b) (unmanaged_pages limit (fst ma));
           let s = fold (\<lambda>(start, stop). allocator_mark_unmanaged_range start stop) (reserved_ranges b) s;
           Some (bitmap_phys, refcount_phys, s, a) })"

definition ensure_kernel_pml4_slot :: "u64 \<Rightarrow> u64 \<Rightarrow> phys_state \<Rightarrow> phys_state option" where
  "ensure_kernel_pml4_slot pml4 va s =
     (let i = unat (drop_bit 39 va AND 0x1ff) in
      if page_table pml4 (phys_words s) i AND PAGE_PRESENT \<noteq> 0 then Some s
      else case phys_alloc_page s of
        None \<Rightarrow> None
      | Some (pdpt_phys, s) \<Rightarrow>
          let m = (phys_words s)(pdpt_phys AND PAGE_ADDR_MASK := (\<lambda>_. 0)) in
          Some (s\<lparr>phys_words := table_write pml4 i (pdpt_phys OR PAGE_PRESENT OR PAGE_WRITABLE) m\<rparr>))"

record boot_env =
  be_magic :: u32
  be_mbi_addr :: u32
  be_mbi :: multiboot_info_t
  be_mods :: "multiboot_module_t list"
  be_entry_at :: "nat \<Rightarrow> multiboot_mmap_entry_t"
  kernel_physical_end :: u64
  bootstrap_pml4 :: u64
  be_memory :: phys_memory

definition memory_init :: "boot_env \<Rightarrow> (boot_ranges \<times> (u64 \<times> u64) \<times> phys_state) option" where
  \<comment> \<open>the final ranges, the physical addresses of the bitmap and of the reference counts, the allocator\<close>
  "memory_init e =
     (if be_magic e \<noteq> MULTIBOOT_BOOTLOADER_MAGIC \<or> be_mbi_addr e = 0 then None
      else
        do { (limit, b) \<leftarrow> parse_multiboot_memory_map (kernel_physical_end e) (ucast (be_mbi_addr e)) (be_mbi e) (be_mods e) (be_entry_at e);
             let bytes = bootstrap_bytes_required limit;
             start \<leftarrow> find_bootstrap_region bytes b;
             b \<leftarrow> reserve_range start (start + bytes) b;
             ma \<leftarrow> expand_physmap (bootstrap_pml4 e) limit (be_memory e, bootstrap_begin start bytes);
             (bitmap_phys, refcount_phys, s, _) \<leftarrow> allocator_init_metadata limit b ma;
             s \<leftarrow> ensure_kernel_pml4_slot (bootstrap_pml4 e) KVALLOC_BASE s;
             Some (b, (bitmap_phys, refcount_phys), s\<lparr>phys_words := table_write (bootstrap_pml4 e) 0 0 (phys_words s)\<rparr>) })"

section \<open>Rounding to pages\<close>

lemma align_down_index: "phys_to_page_index (align_down_u64 x PAGE_SIZE) = unat x div 4096"
proof -
  have "unat (align_down_u64 x PAGE_SIZE) = unat x - unat x mod 4096"
    unfolding align_down_u64_def by (rule unat_page_floor)
  also have "\<dots> = 4096 * (unat x div 4096)" by (rule minus_mod_eq_mult_div)
  finally show ?thesis unfolding phys_to_page_index_def unat_page_div by simp
qed

lemma align_up_eq: "align_up_u64 x PAGE_SIZE = (x + (PAGE_SIZE - 1)) AND NOT (PAGE_SIZE - 1)"
  unfolding align_up_u64_def add_diff_eq ..

lemma unat_align_up: "unat x + 4095 < 2 ^ 64 \<Longrightarrow> unat (align_up_u64 x PAGE_SIZE) = page_ceil (unat x)"
  unfolding align_up_eq by (rule unat_page_ceil)

lemma align_up_wraps: "2 ^ 64 \<le> unat x + 4095 \<Longrightarrow> align_up_u64 x PAGE_SIZE = 0"
  unfolding align_up_eq by (rule page_ceil_wraps)

lemma align_up_index:
  "unat x + 4095 < 2 ^ 64 \<Longrightarrow> phys_to_page_index (align_up_u64 x PAGE_SIZE) = (unat x + 4095) div 4096"
  unfolding phys_to_page_index_def unat_page_div by (simp add: unat_align_up page_ceil_def)

lemma align_up_multiple: "unat (align_up_u64 x PAGE_SIZE) mod 4096 = 0"
  by (cases "unat x + 4095 < 2 ^ 64") (simp_all add: unat_align_up page_ceil_bounds align_up_wraps)

lemma align_down_multiple: "unat (align_down_u64 x PAGE_SIZE) mod 4096 = 0"
  unfolding align_down_u64_def unat_page_floor minus_mod_eq_mult_div by simp

section \<open>Marking pages\<close>

lemma card_point:
  assumes "i < (n :: nat)" "\<And>j. j < n \<Longrightarrow> r' j = (if j = i then v else r j)"
  shows "card {j. j < n \<and> P (r' j)} + of_bool (P (r i)) = card {j. j < n \<and> P (r j)} + of_bool (P v)"
proof -
  let ?rest = "{j. j < n \<and> j \<noteq> i \<and> P (r j)}"
  have split: "{j. j < n \<and> P (f j)} = (if P (f i) then insert i {j. j < n \<and> j \<noteq> i \<and> P (f j)} else {j. j < n \<and> j \<noteq> i \<and> P (f j)})" for f
    using assms(1) by auto
  have rest: "{j. j < n \<and> j \<noteq> i \<and> P (r' j)} = ?rest" using assms(2) by auto
  have fin: "finite ?rest" "i \<notin> ?rest" by (rule finite_subset [of _ "{..< n}"]) auto
  have "card {j. j < n \<and> P (r' j)} = card ?rest + of_bool (P v)"
    unfolding split [of r'] rest using fin assms by simp
  moreover have "card {j. j < n \<and> P (r j)} = card ?rest + of_bool (P (r i))"
    unfolding split [of r] using fin by simp
  ultimately show ?thesis by simp
qed

text \<open>At boot every page is either unmanaged or free.\<close>

definition boot_wf :: "phys_state \<Rightarrow> bool" where
  "boot_wf s \<longleftrightarrow> phys_wf s \<and> (\<forall>i < tracked_page_count s. page_refcounts s ! i = 0 \<or> page_refcounts s ! i = UINT32_MAX)"

definition boot_frame :: "phys_state \<Rightarrow> phys_state \<Rightarrow> bool" where
  "boot_frame s s' \<longleftrightarrow> tracked_phys_limit s' = tracked_phys_limit s \<and> phys_words s' = phys_words s \<and>
     general_pool_floor_page s' = general_pool_floor_page s"

lemma boot_frame_pages: "boot_frame s s' \<Longrightarrow> tracked_page_count s' = tracked_page_count s"
  by (simp add: boot_frame_def tracked_page_count_def)

lemma boot_point:
  assumes wf: "boot_wf s" and i: "i < tracked_page_count s" and v: "v = 0 \<or> v = UINT32_MAX"
    and f: "boot_frame s s'" "page_refcounts s' = (page_refcounts s)[i := v]" "length (alloc_bitmap s') = length (alloc_bitmap s)"
    and b: "\<And>j. bitmap_test j s' \<longleftrightarrow> (if j = i then v \<noteq> 0 else bitmap_test j s)"
    and m: "managed_page_count_value s' + of_bool (page_refcounts s ! i \<noteq> UINT32_MAX) = managed_page_count_value s + of_bool (v \<noteq> UINT32_MAX)"
    and fr: "free_page_count_value s' + of_bool (page_refcounts s ! i = 0) = free_page_count_value s + of_bool (v = 0)"
  shows "boot_wf s'" "\<And>j. j < tracked_page_count s \<Longrightarrow> page_refcounts s' ! j = (if j = i then v else page_refcounts s ! j)"
proof -
  have W: "phys_wf s" using wf by (simp add: boot_wf_def)
  note w = phys_wfD [OF W]
  have N: "tracked_page_count s' = tracked_page_count s" by (rule boot_frame_pages [OF f(1)])
  have rc: "page_refcounts s' ! j = (if j = i then v else page_refcounts s ! j)" if "j < tracked_page_count s" for j
    using that i w(2) f(2) by (simp add: nth_list_update)
  then show "\<And>j. j < tracked_page_count s \<Longrightarrow> page_refcounts s' ! j = (if j = i then v else page_refcounts s ! j)" .
  note C = card_point [OF i, of "\<lambda>j. page_refcounts s' ! j" v "\<lambda>j. page_refcounts s ! j", OF rc]
  have 1: "managed_page_count_value s' = card {j. j < tracked_page_count s \<and> page_refcounts s' ! j \<noteq> UINT32_MAX}"
    using C [of "\<lambda>r. r \<noteq> UINT32_MAX"] m w(5) by linarith
  have 2: "free_page_count_value s' = card {j. j < tracked_page_count s \<and> page_refcounts s' ! j = 0}"
    using C [of "\<lambda>r. r = 0"] fr w(6) by linarith
  have 3: "bitmap_test j s' \<longleftrightarrow> page_refcounts s' ! j \<noteq> 0" if "j < tracked_page_count s" for j
    using b [of j] rc [OF that] w(4) [OF that] by simp
  have "phys_wf s'" unfolding phys_wf_def N using w(1-3) f 1 2 3 by (simp add: boot_frame_def)
  moreover have "page_refcounts s' ! j = 0 \<or> page_refcounts s' ! j = UINT32_MAX" if "j < tracked_page_count s" for j
    using rc [OF that] v wf that by (auto simp: boot_wf_def)
  ultimately show "boot_wf s'" by (simp add: boot_wf_def N)
qed

definition boot_marked :: "nat set \<Rightarrow> u32 \<Rightarrow> phys_state \<Rightarrow> phys_state \<Rightarrow> bool" where
  "boot_marked I v s s' \<longleftrightarrow> boot_wf s' \<and> boot_frame s s' \<and>
     (\<forall>j < tracked_page_count s. page_refcounts s' ! j = (if j \<in> I then v else page_refcounts s ! j))"

lemma mark_managed_spec:
  assumes wf: "boot_wf s"
  shows "boot_marked {i} 0 s (mark_managed i s)"
proof (cases "page_index_valid i s \<and> page_refcounts s ! i = UINT32_MAX")
  case True
  let ?s = "mark_managed i s"
  have i: "i < tracked_page_count s" and r: "page_refcounts s ! i = UINT32_MAX" using True by (auto simp: page_index_valid_def)
  have len: "i div 8 < length (alloc_bitmap s)" using byte_in_bitmap [OF i] wf by (simp add: boot_wf_def phys_wfD(3))
  have eq: "?s = (set_refcount i 0 (bitmap_clear i s))\<lparr>managed_page_count_value := managed_page_count_value s + 1,
      free_page_count_value := free_page_count_value s + 1\<rparr>"
    using True by (simp add: mark_managed_def Let_def set_refcount_def bitmap_clear_def)
  have f: "boot_frame s ?s" unfolding eq by (simp add: boot_frame_def set_refcount_def bitmap_clear_def)
  have "bitmap_test j ?s = bitmap_test j (bitmap_clear i s)" for j unfolding eq by (simp add: bitmap_test_def set_refcount_def)
  then have b: "bitmap_test j ?s \<longleftrightarrow> (if j = i then (0 :: u32) \<noteq> 0 else bitmap_test j s)" for j
    using bitmap_test_clear [OF len] by simp
  note P = boot_point [OF wf i _ f _ _ b, simplified]
  show ?thesis unfolding boot_marked_def
    using P f by (simp add: eq set_refcount_def r)
next
  case False
  then have "mark_managed i s = s" by (simp only: mark_managed_def if_False)
  moreover have "page_refcounts s ! i = 0" if "i < tracked_page_count s"
    using False that wf by (auto simp: boot_wf_def page_index_valid_def)
  ultimately show ?thesis using wf by (auto simp: boot_marked_def boot_frame_def)
qed

lemma mark_unmanaged_spec:
  assumes wf: "boot_wf s"
  shows "boot_marked {i} UINT32_MAX s (mark_unmanaged i s)"
proof (cases "page_index_valid i s")
  case True
  let ?s = "mark_unmanaged i s"
  have i: "i < tracked_page_count s" using True by (simp add: page_index_valid_def)
  have W: "phys_wf s" using wf by (simp add: boot_wf_def)
  have len: "i div 8 < length (alloc_bitmap s)" using byte_in_bitmap [OF i] by (simp add: phys_wfD(3) [OF W])
  have t: "bitmap_test i s \<longleftrightarrow> page_refcounts s ! i \<noteq> 0" by (rule phys_wfD(4) [OF W i])
  have pos: "0 < managed_page_count_value s \<and> 0 < free_page_count_value s" if "page_refcounts s ! i = 0"
    unfolding phys_wfD(5,6) [OF W] card_gt_0_iff using i that by auto
  have z: "page_refcounts s ! i \<noteq> UINT32_MAX \<longleftrightarrow> page_refcounts s ! i = 0" using wf i by (auto simp: boot_wf_def)
  define u where "u = (if page_refcounts s ! i = 0 then
      s\<lparr>free_page_count_value := free_page_count_value s - 1, managed_page_count_value := managed_page_count_value s - 1\<rparr> else s)"
  have eq: "?s = set_refcount i UINT32_MAX (bitmap_set i u)"
    unfolding mark_unmanaged_def if_P [OF True] z t Let_def u_def by simp
  have uf: "page_refcounts u = page_refcounts s" "alloc_bitmap u = alloc_bitmap s" "tracked_phys_limit u = tracked_phys_limit s"
    "phys_words u = phys_words s" "general_pool_floor_page u = general_pool_floor_page s" by (simp_all add: u_def)
  have f: "boot_frame s ?s" unfolding eq by (simp add: boot_frame_def set_refcount_def bitmap_set_def uf)
  have "bitmap_test j ?s = (j = i \<or> bitmap_test j u)" for j unfolding eq using len by (simp add: bitmap_test_set uf)
  moreover have "bitmap_test j u = bitmap_test j s" for j by (simp add: bitmap_test_def uf)
  ultimately have b: "bitmap_test j ?s \<longleftrightarrow> (if j = i then UINT32_MAX \<noteq> (0 :: u32) else bitmap_test j s)" for j by simp
  have cnt: "managed_page_count_value ?s = managed_page_count_value u" "free_page_count_value ?s = free_page_count_value u"
    unfolding eq by (simp_all add: set_refcount_def bitmap_set_def)
  have g: "page_refcounts ?s = (page_refcounts s)[i := UINT32_MAX]" "length (alloc_bitmap ?s) = length (alloc_bitmap s)"
    unfolding eq by (simp_all add: set_refcount_def bitmap_set_def uf)
  have m: "managed_page_count_value ?s + of_bool (page_refcounts s ! i \<noteq> UINT32_MAX) =
      managed_page_count_value s + of_bool (UINT32_MAX \<noteq> (UINT32_MAX :: u32))" unfolding cnt z using pos by (simp add: u_def)
  have n: "free_page_count_value ?s + of_bool (page_refcounts s ! i = 0) =
      free_page_count_value s + of_bool (UINT32_MAX = (0 :: u32))" unfolding cnt using pos by (simp add: u_def)
  show ?thesis unfolding boot_marked_def using boot_point [OF wf i _ f g b m n] f by simp
next
  case False
  then have "mark_unmanaged i s = s" by (simp only: mark_unmanaged_def if_False)
  with False wf show ?thesis by (auto simp: boot_marked_def boot_frame_def page_index_valid_def)
qed

lemma boot_marked_refl: "boot_wf s \<Longrightarrow> boot_marked {} v s s"
  by (simp add: boot_marked_def boot_frame_def)

lemma boot_marked_trans: "boot_marked I v s t \<Longrightarrow> boot_marked J v t u \<Longrightarrow> boot_marked (I \<union> J) v s u"
  using boot_frame_pages [of s t] by (auto simp: boot_marked_def boot_frame_def)

lemma boot_marked_wf: "boot_marked I v s t \<Longrightarrow> boot_wf t"
  by (simp add: boot_marked_def)

lemma mark_fold:
  assumes "\<And>x s. boot_wf s \<Longrightarrow> boot_marked (F x) v s (f x s)" "boot_wf s"
  shows "boot_marked (\<Union>x \<in> set xs. F x) v s (fold f xs s)"
  using assms(2)
proof (induction xs arbitrary: s)
  case (Cons x xs)
  have 1: "boot_marked (F x) v s (f x s)" by (rule assms(1) [OF Cons.prems])
  from boot_marked_trans [OF 1 Cons.IH [OF boot_marked_wf [OF 1]]] show ?case by simp
qed (simp add: boot_marked_refl)

lemma mark_managed_range:
  assumes "boot_wf s"
  shows "boot_marked {phys_to_page_index (align_up_u64 a PAGE_SIZE) ..< phys_to_page_index (align_down_u64 e PAGE_SIZE)} 0 s
    (allocator_mark_managed_range a e s)"
  using mark_fold [of "\<lambda>i. {i}" 0 mark_managed, OF mark_managed_spec assms,
      of "[phys_to_page_index (align_up_u64 a PAGE_SIZE) ..< phys_to_page_index (align_down_u64 e PAGE_SIZE)]"]
  by (simp add: allocator_mark_managed_range_def)

lemma mark_unmanaged_range:
  assumes "boot_wf s"
  shows "boot_marked {phys_to_page_index (align_down_u64 a PAGE_SIZE) ..< phys_to_page_index (align_up_u64 e PAGE_SIZE)} UINT32_MAX s
    (allocator_mark_unmanaged_range a e s)"
  using mark_fold [of "\<lambda>i. {i}" UINT32_MAX mark_unmanaged, OF mark_unmanaged_spec assms,
      of "[phys_to_page_index (align_down_u64 a PAGE_SIZE) ..< phys_to_page_index (align_up_u64 e PAGE_SIZE)]"]
  by (simp add: allocator_mark_unmanaged_range_def)

section \<open>The pages managed after the boot\<close>

lemma unmanaged_pages_wf:
  assumes "unat limit mod 4096 = 0"
  shows "boot_wf (unmanaged_pages limit m)" "tracked_page_count (unmanaged_pages limit m) = unat limit div 4096"
    "i < unat limit div 4096 \<Longrightarrow> page_refcounts (unmanaged_pages limit m) ! i = UINT32_MAX"
    "tracked_phys_limit (unmanaged_pages limit m) = limit" "phys_words (unmanaged_pages limit m) = m"
    "general_pool_floor_page (unmanaged_pages limit m) = 4096"
proof -
  let ?n = "unat limit div 4096"
  let ?s = "unmanaged_pages limit m"
  show N: "tracked_page_count ?s = ?n"
    by (simp add: unmanaged_pages_def Let_def tracked_page_count_def unat_page_div)
  show R: "page_refcounts ?s ! i = UINT32_MAX" if "i < ?n" for i
    using that by (simp add: unmanaged_pages_def Let_def unat_page_div)
  show "tracked_phys_limit ?s = limit" "phys_words ?s = m" by (simp_all add: unmanaged_pages_def Let_def)
  have "unat (align_up_u64 LEGACY_DMA_RESERVE_LIMIT PAGE_SIZE div PAGE_SIZE) = 4096" by code_simp
  then show "general_pool_floor_page ?s = 4096" unfolding unmanaged_pages_def Let_def by simp
  have "bit (0xff :: u8) k" if "k < 8" for k
  proof -
    have "(0xff :: u8) = mask 8" by (simp add: mask_eq_exp_minus_1)
    moreover have "bit (mask 8 :: u8) k" unfolding bit_mask_iff using that by simp
    ultimately show ?thesis by metis
  qed
  then have B: "bitmap_test i ?s" if "i < ?n" for i
    unfolding bitmap_test_bit using byte_in_bitmap [OF that] by (simp add: unmanaged_pages_def Let_def unat_page_div)
  have lens: "length (page_refcounts ?s) = ?n" "length (alloc_bitmap ?s) = (?n + 7) div 8"
    "managed_page_count_value ?s = 0" "free_page_count_value ?s = 0"
    by (simp_all add: unmanaged_pages_def Let_def unat_page_div)
  have lim: "unat (tracked_phys_limit ?s) = 4096 * ?n"
    using assms by (simp add: unmanaged_pages_def Let_def) (metis mult_div_mod_eq add.right_neutral)
  have "{i. i < ?n \<and> page_refcounts ?s ! i \<noteq> UINT32_MAX} = {}" "{i. i < ?n \<and> page_refcounts ?s ! i = 0} = {}" using R by auto
  then have "phys_wf ?s" unfolding phys_wf_def N lens lim using R B by simp
  then show "boot_wf ?s" using R by (simp add: boot_wf_def N)
qed

definition in_usable :: "boot_ranges \<Rightarrow> nat \<Rightarrow> bool" where
  \<comment> \<open>a page that lies inside one usable range\<close>
  "in_usable b i \<longleftrightarrow> (\<exists>(a, e) \<in> set (usable_ranges b). unat a \<le> 4096 * i \<and> 4096 * i + 4096 \<le> unat e)"

definition meets_reserved :: "boot_ranges \<Rightarrow> nat \<Rightarrow> bool" where
  "meets_reserved b i \<longleftrightarrow> (\<exists>(a, e) \<in> set (reserved_ranges b). unat a < 4096 * i + 4096 \<and> 4096 * i < unat e)"

definition boot_ranges_ok :: "u64 \<Rightarrow> boot_ranges \<Rightarrow> bool" where
  "boot_ranges_ok limit b \<longleftrightarrow>
     (\<exists>hi. limit = align_up_u64 hi PAGE_SIZE \<and> (\<forall>(a, e) \<in> set (usable_ranges b). a < e \<and> e \<le> hi)) \<and>
     (\<forall>(a, e) \<in> set (reserved_ranges b). a < e \<and> unat e mod 4096 = 0)"

lemma usable_span:
  assumes "a < e" "unat a + 4095 < 2 ^ 64"
  shows "i \<in> {phys_to_page_index (align_up_u64 a PAGE_SIZE) ..< phys_to_page_index (align_down_u64 e PAGE_SIZE)} \<longleftrightarrow>
    unat a \<le> 4096 * i \<and> 4096 * i + 4096 \<le> unat e"
proof -
  have "(unat a + 4095) div 4096 \<le> i \<longleftrightarrow> unat a \<le> 4096 * i" by linarith
  moreover have "i < unat e div 4096 \<longleftrightarrow> 4096 * i + 4096 \<le> unat e" by linarith
  ultimately show ?thesis by (simp add: align_down_index align_up_index [OF assms(2)])
qed

lemma reserved_span:
  assumes "unat e mod 4096 = 0"
  shows "i \<in> {phys_to_page_index (align_down_u64 a PAGE_SIZE) ..< phys_to_page_index (align_up_u64 e PAGE_SIZE)} \<longleftrightarrow>
    unat a < 4096 * i + 4096 \<and> 4096 * i < unat e"
proof -
  have "unat e = 4096 * (unat e div 4096)" using assms by (metis mult_div_mod_eq add.right_neutral)
  moreover have "unat e div 4096 < 4503599627370496" using unat_bound [of e] by (simp add: less_mult_imp_div_less)
  ultimately have "unat e + 4095 < 2 ^ 64" by simp
  moreover have "i < (unat e + 4095) div 4096 \<longleftrightarrow> 4096 * i < unat e" by linarith
  moreover have "unat a div 4096 \<le> i \<longleftrightarrow> unat a < 4096 * i + 4096" by linarith
  ultimately show ?thesis by (simp add: align_down_index align_up_index)
qed

lemma allocator_pages:
  assumes ok: "boot_ranges_ok limit b" and init: "allocator_init_metadata limit b ma = Some (bp, rp, s, a)"
  shows "boot_wf s" "tracked_phys_limit s = limit" "phys_words s = fst ma" "general_pool_floor_page s = 4096"
    "\<And>i. i < tracked_page_count s \<Longrightarrow> page_refcounts s ! i \<noteq> UINT32_MAX \<longleftrightarrow> in_usable b i \<and> \<not> meets_reserved b i"
proof -
  obtain hi where hi: "limit = align_up_u64 hi PAGE_SIZE" "\<forall>r \<in> set (usable_ranges b). fst r < snd r \<and> snd r \<le> hi"
    and res: "\<forall>r \<in> set (reserved_ranges b). fst r < snd r \<and> unat (snd r) mod 4096 = 0"
    using ok unfolding boot_ranges_ok_def split_def by (elim conjE exE)
  have al: "unat limit mod 4096 = 0" unfolding hi(1) by (rule align_up_multiple)
  define u where "u = unmanaged_pages limit (fst ma)"
  define t where "t = fold (\<lambda>(start, stop). allocator_mark_managed_range start stop) (usable_ranges b) u"
  note U = unmanaged_pages_wf [OF al, where m = "fst ma", folded u_def]
  have s: "s = fold (\<lambda>(start, stop). allocator_mark_unmanaged_range start stop) (reserved_ranges b) t"
    using init unfolding allocator_init_metadata_def t_def u_def Let_def bind_eq_Some_conv by (elim exE conjE) (auto simp: split_def bind_eq_Some_conv)
  let ?U = "\<lambda>r. {phys_to_page_index (align_up_u64 (fst r) PAGE_SIZE) ..< phys_to_page_index (align_down_u64 (snd r) PAGE_SIZE)}"
  let ?R = "\<lambda>r. {phys_to_page_index (align_down_u64 (fst r) PAGE_SIZE) ..< phys_to_page_index (align_up_u64 (snd r) PAGE_SIZE)}"
  have 1: "boot_marked (\<Union>r \<in> set (usable_ranges b). ?U r) 0 u t"
    unfolding t_def by (rule mark_fold [OF _ U(1)]) (auto simp: split_def intro: mark_managed_range)
  have 2: "boot_marked (\<Union>r \<in> set (reserved_ranges b). ?R r) UINT32_MAX t s"
    unfolding s by (rule mark_fold [OF _ boot_marked_wf [OF 1]]) (auto simp: split_def intro: mark_unmanaged_range)
  have fr: "boot_frame u t" "boot_frame t s" using 1 2 by (simp_all add: boot_marked_def)
  show "boot_wf s" by (rule boot_marked_wf [OF 2])
  show "tracked_phys_limit s = limit" "phys_words s = fst ma" "general_pool_floor_page s = 4096"
    using fr U by (simp_all add: boot_frame_def)
  fix i assume "i < tracked_page_count s"
  then have i: "i < unat limit div 4096" using fr U(2) boot_frame_pages by metis
  have "\<not> 2 ^ 64 \<le> unat hi + 4095" using i align_up_wraps [of hi] hi(1) by auto
  then have nowrap: "unat hi + 4095 < 2 ^ 64" by (simp only: not_le)
  have "i \<in> ?U r \<longleftrightarrow> unat (fst r) \<le> 4096 * i \<and> 4096 * i + 4096 \<le> unat (snd r)" if "r \<in> set (usable_ranges b)" for r
  proof -
    have r: "fst r < snd r" "snd r \<le> hi" using hi(2) that by simp_all
    then have "unat (fst r) + 4095 < 2 ^ 64" using nowrap unfolding word_le_nat_alt word_less_nat_alt by linarith
    then show ?thesis by (rule usable_span [OF r(1)])
  qed
  then have us: "i \<in> (\<Union>r \<in> set (usable_ranges b). ?U r) \<longleftrightarrow> in_usable b i"
    unfolding in_usable_def UN_iff split_def by (rule bex_cong [OF refl])
  have "i \<in> ?R r \<longleftrightarrow> unat (fst r) < 4096 * i + 4096 \<and> 4096 * i < unat (snd r)" if "r \<in> set (reserved_ranges b)" for r
    using res that by (intro reserved_span) simp
  then have rs: "i \<in> (\<Union>r \<in> set (reserved_ranges b). ?R r) \<longleftrightarrow> meets_reserved b i"
    unfolding meets_reserved_def UN_iff split_def by (rule bex_cong [OF refl])
  have "page_refcounts t ! i = (if in_usable b i then 0 else UINT32_MAX)"
    using 1 U(2) U(3) [OF i] i us unfolding boot_marked_def by presburger
  moreover have "page_refcounts s ! i = (if meets_reserved b i then UINT32_MAX else page_refcounts t ! i)"
    using 2 U(2) i rs boot_frame_pages [OF fr(1)] unfolding boot_marked_def by presburger
  ultimately show "page_refcounts s ! i \<noteq> UINT32_MAX \<longleftrightarrow> in_usable b i \<and> \<not> meets_reserved b i" by simp
qed

section \<open>What the boot reserves\<close>

definition res_ok :: "boot_ranges \<Rightarrow> bool" where
  "res_ok b \<longleftrightarrow> (\<forall>(a, e) \<in> set (reserved_ranges b). a < e \<and> unat e mod 4096 = 0)"

definition res_step :: "boot_ranges \<Rightarrow> boot_ranges \<Rightarrow> bool" where
  "res_step b b' \<longleftrightarrow> usable_ranges b' = usable_ranges b \<and> (res_ok b \<longrightarrow> res_ok b') \<and>
     set (reserved_ranges b) \<subseteq> set (reserved_ranges b')"

lemma res_step_refl: "res_step b b"
  by (simp add: res_step_def)

lemma res_step_trans: "res_step b c \<Longrightarrow> res_step c d \<Longrightarrow> res_step b d"
  by (auto simp: res_step_def)

lemma reserve_range_step:
  assumes "reserve_range a e b = Some b'" "unat e mod 4096 = 0"
  shows "res_step b b'" "a < e \<Longrightarrow> (a, e) \<in> set (reserved_ranges b')"
  using assms by (auto simp: reserve_range_def res_step_def res_ok_def split: if_splits)

lemma reserve_pages_step: "reserve_pages a e b = Some b' \<Longrightarrow> res_step b b'"
  unfolding reserve_pages_def by (rule reserve_range_step(1) [OF _ align_up_multiple])

lemma reserve_pointer_step: "reserve_pointer_page p b = Some b' \<Longrightarrow> res_step b b'"
  by (auto simp: reserve_pointer_page_def res_step_refl intro: reserve_pages_step split: if_splits)

lemma when_flag_step:
  assumes "when_flag f mbi act b = Some b'" "\<And>b b'. act b = Some b' \<Longrightarrow> res_step b b'"
  shows "res_step b b'"
  using assms by (auto simp: when_flag_def res_step_refl split: if_splits)

lemma reserve_modules_step: "reserve_modules ms b = Some b' \<Longrightarrow> res_step b b'"
proof (induction ms arbitrary: b)
  case (Cons m ms)
  then obtain c d where 1: "reserve_pages (ucast (mod_start m)) (ucast (mod_end m)) b = Some c"
    and 2: "reserve_pointer_page (mod_string m) c = Some d" and 3: "reserve_modules ms d = Some b'"
    by (auto simp: bind_eq_Some_conv)
  show ?case
    by (rule res_step_trans [OF reserve_pages_step [OF 1] res_step_trans [OF reserve_pointer_step [OF 2] Cons.IH [OF 3]]])
qed (simp add: res_step_refl)

lemma payloads_step: "reserve_multiboot_payloads p mbi ms b = Some b' \<Longrightarrow> res_step b b'"
  unfolding reserve_multiboot_payloads_def bind_eq_Some_conv
  apply (elim exE conjE)
  apply (drule reserve_pages_step)
  apply (drule when_flag_step, erule reserve_pointer_step)+
  apply (drule when_flag_step, erule reserve_pages_step)+
  apply (drule when_flag_step)
   apply (auto dest!: reserve_pages_step reserve_modules_step simp: bind_eq_Some_conv intro: res_step_trans)[1]
  by (blast intro: res_step_trans)

definition usable_below :: "u64 \<Rightarrow> boot_ranges \<Rightarrow> bool" where
  "usable_below hi b \<longleftrightarrow> reserved_ranges b = [] \<and> (\<forall>(a, e) \<in> set (usable_ranges b). a < e \<and> e \<le> hi)"

lemma add_usable_below:
  assumes "add_usable_range a e b = Some b'" "usable_below hi b"
  shows "usable_below (if e > hi then e else hi) b'"
proof -
  have "usable_below (if e > hi then e else hi) b" using assms(2) by (force simp: usable_below_def)
  then show ?thesis using assms(1) by (auto simp: add_usable_range_def usable_below_def split: if_splits)
qed

lemma mmap_entry_below:
  assumes "mmap_entry en (hi, b) = Some (hi', b')" "usable_below hi b"
  shows "usable_below hi' b'"
proof (cases "me_len en \<noteq> 0 \<and> me_addr en + me_len en > me_addr en \<and> me_type en = MULTIBOOT_MEMORY_AVAILABLE")
  case True
  with assms(1) obtain c where c: "add_usable_range (me_addr en) (me_addr en + me_len en) b = Some c"
    "hi' = (if me_addr en + me_len en > hi then me_addr en + me_len en else hi)"
    "b' = c\<lparr>total_ram_bytes_value := total_ram_bytes_value c + me_len en\<rparr>"
    unfolding mmap_entry_def Let_def by (auto simp: bind_eq_Some_conv)
  from add_usable_below [OF c(1) assms(2)] show ?thesis unfolding c(2,3) by (simp add: usable_below_def)
next
  case False
  then have "mmap_entry en (hi, b) = Some (hi, b)" unfolding mmap_entry_def Let_def by (simp only: prod.case if_False)
  with assms show ?thesis by simp
qed

lemma mmap_walk_below:
  "mmap_walk entry_at c stop (hi, b) = Some (hi', b') \<Longrightarrow> usable_below hi b \<Longrightarrow> usable_below hi' b'"
proof (induction entry_at c stop "(hi, b)" arbitrary: hi b rule: mmap_walk.induct)
  case (1 entry_at c stop)
  show ?case
  proof (cases "c + 24 \<le> stop")
    case True
    with "1.prems"(1) obtain h d where hd: "mmap_entry (entry_at c) (hi, b) = Some (h, d)"
      "mmap_walk entry_at (c + unat (me_size (entry_at c)) + 4) stop (h, d) = Some (hi', b')"
      by (subst (asm) mmap_walk.simps) (auto simp: bind_eq_Some_conv)
    show ?thesis using "1.hyps" True hd mmap_entry_below [OF hd(1) "1.prems"(2)] by blast
  next
    case False
    with "1.prems" show ?thesis by (subst (asm) mmap_walk.simps) simp
  qed
qed

lemma foldl_max:
  "h \<le> foldl (\<lambda>hi r. if snd r > hi then snd r else hi) h rs \<and>
   (\<forall>r \<in> set rs. snd r \<le> foldl (\<lambda>hi r. if snd r > hi then snd r else hi) h rs)" for h :: u64
proof (induction rs arbitrary: h)
  case (Cons r rs)
  show ?case using Cons.IH [of "if snd r > h then snd r else h"] by (auto split: if_splits)
qed simp

lemma memory_entries_below:
  assumes "memory_entries mbi b = Some (hi, b')" "usable_below h0 b"
  shows "usable_below hi b'"
proof -
  from assms(1) obtain c d where c: "(if mem_lower mbi \<noteq> 0 then add_usable_range 0 (ucast (mem_lower mbi) * 1024) b else Some b) = Some c"
    and d: "(if mem_upper mbi \<noteq> 0 then add_usable_range 0x00100000 (0x00100000 + ucast (mem_upper mbi) * 1024) c else Some c) = Some d"
    and b': "usable_ranges b' = usable_ranges d" "reserved_ranges b' = reserved_ranges d"
    and hi: "hi = foldl (\<lambda>hi r. if snd r > hi then snd r else hi) 0 (usable_ranges d)"
    unfolding memory_entries_def bind_eq_Some_conv by (elim exE conjE) (rule that, assumption+, auto simp: Let_def)
  obtain h1 where h1: "usable_below h1 c" using c assms(2) add_usable_below by (cases "mem_lower mbi = 0") (auto, blast)
  obtain h2 where "usable_below h2 d" using d h1 add_usable_below by (cases "mem_upper mbi = 0") (auto, blast)
  then show ?thesis using foldl_max [of 0 "usable_ranges d"] by (auto simp: usable_below_def b' hi)
qed

lemma parse_ok:
  assumes "parse_multiboot_memory_map ke p mbi ms entry_at = Some (limit, b)"
  shows "boot_ranges_ok limit b" "{(0, 0x00100000), (BOOTSTUB32_PHYS_BASE, 0x02200000)} \<subseteq> set (reserved_ranges b)"
    "0x00100000 < align_up_u64 ke PAGE_SIZE \<Longrightarrow> (0x00100000, align_up_u64 ke PAGE_SIZE) \<in> set (reserved_ranges b)"
proof -
  let ?b0 = "\<lparr>usable_ranges = [], reserved_ranges = [], total_ram_bytes_value = 0\<rparr>"
  from assms obtain hi c d1 d2 d3 where
    c: "(if flag_set MB_INFO_MMAP mbi then mmap_walk entry_at (unat (mmap_addr mbi)) (unat (mmap_addr mbi) + unat (mmap_length mbi)) (0, ?b0)
        else if flag_set MB_INFO_MEMORY mbi then memory_entries mbi ?b0 else None) = Some (hi, c)"
    and d1: "reserve_range 0 0x00100000 c = Some d1"
    and d2: "reserve_range 0x00100000 (align_up_u64 ke PAGE_SIZE) d1 = Some d2"
    and d3: "reserve_range BOOTSTUB32_PHYS_BASE (BOOTSTUB32_PHYS_BASE + BOOTSTUB32_RESERVED_BYTES) d2 = Some d3"
    and d4: "reserve_multiboot_payloads p mbi ms d3 = Some b" and limit: "limit = align_up_u64 hi PAGE_SIZE"
    unfolding parse_multiboot_memory_map_def Let_def bind_eq_Some_conv
    by (elim exE conjE) (auto simp: bind_eq_Some_conv split: if_splits)
  have b0: "usable_below 0 ?b0" by (simp add: usable_below_def)
  have below: "usable_below hi c"
    using c mmap_walk_below [OF _ b0] memory_entries_below [OF _ b0] by (auto split: if_splits)
  have s1: "res_step c d1" "(0, 0x00100000) \<in> set (reserved_ranges d1)" using reserve_range_step [OF d1] by simp_all
  note s2 = reserve_range_step [OF d2 align_up_multiple]
  have s3: "res_step d2 d3" "(BOOTSTUB32_PHYS_BASE, 0x02200000) \<in> set (reserved_ranges d3)"
    using reserve_range_step [OF d3] by simp_all
  note s4 = payloads_step [OF d4]
  have all: "res_step c b" using s1(1) s2(1) s3(1) s4 res_step_trans by blast
  have "res_ok c" using below by (simp add: res_ok_def usable_below_def)
  with all have "res_ok b" "usable_ranges b = usable_ranges c" by (auto simp: res_step_def)
  with below show "boot_ranges_ok limit b" unfolding boot_ranges_ok_def res_ok_def usable_below_def using limit by auto
  show "{(0, 0x00100000), (BOOTSTUB32_PHYS_BASE, 0x02200000)} \<subseteq> set (reserved_ranges b)"
    using s1(2) s2(1) s3 s4 unfolding res_step_def by blast
  show "(0x00100000, align_up_u64 ke PAGE_SIZE) \<in> set (reserved_ranges b)" if "0x00100000 < align_up_u64 ke PAGE_SIZE"
    using s2(2) [OF that] s3(1) s4 unfolding res_step_def by blast
qed

section \<open>Where the allocator keeps its own data\<close>

lemma aligned_sum: "unat x mod 4096 = 0 \<Longrightarrow> unat y mod 4096 = 0 \<Longrightarrow> unat (x + y) mod 4096 = 0" for x y :: u64
  unfolding unat_word_ariths mod_eq_0_iff_dvd by (intro dvd_mod dvd_add) (simp_all add: mod_eq_0_iff_dvd)

lemma bytes_required_aligned: "unat (bootstrap_bytes_required limit) mod 4096 = 0"
proof -
  have "unat (z * PAGE_SIZE) mod 4096 = 0" for z :: u64
    unfolding unat_word_ariths mod_eq_0_iff_dvd by (intro dvd_mod dvd_mult) simp_all
  then show ?thesis unfolding bootstrap_bytes_required_def Let_def by (intro aligned_sum align_up_multiple)
qed

lemma find_candidate_spec:
  "find_candidate k n stop b = Some c \<Longrightarrow> stop < 2 ^ 64 \<Longrightarrow>
   k \<le> unat c \<and> unat c mod 4096 = k mod 4096 \<and> unat c + n \<le> stop"
proof (induction k n stop b rule: find_candidate.induct)
  case (1 k n stop b)
  have k: "\<not> k + n > stop" using "1.prems"(1) by (subst (asm) find_candidate.simps) (auto split: if_splits)
  show ?case
  proof (cases "range_is_reserved (of_nat k) (of_nat (k + n)) b")
    case True
    then have "find_candidate (k + 4096) n stop b = Some c"
      using k "1.prems"(1) by (subst (asm) find_candidate.simps) simp
    from "1.IH" [OF k _ this "1.prems"(2)] True have "k + 4096 \<le> unat c \<and> unat c mod 4096 = (k + 4096) mod 4096 \<and> unat c + n \<le> stop"
      by simp
    then show ?thesis by simp
  next
    case False
    then have "c = of_nat k" using k "1.prems"(1) by (subst (asm) find_candidate.simps) simp
    moreover have "k < 2 ^ 64" using k "1.prems"(2) by linarith
    ultimately show ?thesis using k unat_of_nat_small [of k] by simp
  qed
qed

lemma find_in_ranges_spec:
  "find_in_ranges n rs b = Some c \<Longrightarrow> unat c mod 4096 = 0 \<and> unat c + n \<le> 0x40000000"
proof (induction rs)
  case (Cons r rs)
  let ?a = "align_up_u64 (fst r) PAGE_SIZE" and ?e = "align_down_u64 (snd r) PAGE_SIZE"
  let ?stop = "if ?e > BOOTSTRAP_PHYS_WINDOW_LIMIT then BOOTSTRAP_PHYS_WINDOW_LIMIT else ?e"
  have lim: "unat ?stop \<le> 0x40000000" by (auto simp: word_less_nat_alt)
  show ?case
  proof (cases "?a \<ge> ?e \<or> ?a \<ge> BOOTSTRAP_PHYS_WINDOW_LIMIT")
    case True
    then have "find_in_ranges n (r # rs) b = find_in_ranges n rs b" by (simp only: find_in_ranges.simps Let_def if_True)
    with Cons show ?thesis by simp
  next
    case False
    then have eq: "find_in_ranges n (r # rs) b = (case find_candidate (unat ?a) n (unat ?stop) b of Some c \<Rightarrow> Some c | None \<Rightarrow> find_in_ranges n rs b)"
      by (simp only: find_in_ranges.simps Let_def if_False)
    show ?thesis
    proof (cases "find_candidate (unat ?a) n (unat ?stop) b")
      case None
      with eq Cons show ?thesis by simp
    next
      case (Some d)
      with eq Cons.prems have "find_candidate (unat ?a) n (unat ?stop) b = Some c" by simp
      from find_candidate_spec [OF this] lim align_up_multiple [of "fst r"] show ?thesis by simp
    qed
  qed
qed simp

lemma align_up_aligned: "unat x mod 4096 = 0 \<Longrightarrow> align_up_u64 x PAGE_SIZE = x"
proof -
  assume x: "unat x mod 4096 = 0"
  then obtain k where k: "unat x = 4096 * k" by (metis dvdE mod_eq_0_iff_dvd)
  then have "k < 4503599627370496" using unat_bound [of x] by simp
  then have "unat x + 4095 < 2 ^ 64" using k by simp
  from unat_align_up [OF this] k have "unat (align_up_u64 x PAGE_SIZE) = unat x" by (simp add: page_ceil_def)
  then show ?thesis by (rule unsigned_word_eqI)
qed

definition bs_inv :: "nat \<Rightarrow> nat \<Rightarrow> bootstrap_allocator_t \<Rightarrow> bool" where
  "bs_inv lo hi a \<longleftrightarrow> lo \<le> unat (bs_current a) \<and> unat (bs_current a) \<le> hi \<and> unat (bs_end a) = hi \<and> hi \<le> 0x40000000"

lemma bootstrap_alloc_spec:
  assumes inv: "bs_inv lo hi a" and alloc: "bootstrap_alloc n PAGE_SIZE a = Some (p, a')"
  shows "lo \<le> unat p \<and> unat p + unat n \<le> hi \<and> bs_inv (unat p + unat n) hi a'"
proof -
  have cur: "unat (bs_current a) + 4095 < 2 ^ 64" using inv by (simp add: bs_inv_def)
  have p: "p = align_up_u64 (bs_current a) PAGE_SIZE" "\<not> p > bs_end a" "\<not> n > bs_end a - p" "a' = a\<lparr>bs_current := p + n\<rparr>"
    using alloc unfolding bootstrap_alloc_def Let_def by (auto split: if_splits)
  have lo: "lo \<le> unat p" unfolding p(1) unat_align_up [OF cur] using page_ceil_bounds(2) [of "unat (bs_current a)"] inv by (simp add: bs_inv_def)
  have le: "p \<le> bs_end a" "n \<le> bs_end a - p" using p(2,3) by simp_all
  have sum: "unat p + unat n \<le> hi"
    using le inv unat_sub [OF le(1)] unfolding bs_inv_def word_le_nat_alt by linarith
  then have "unat (p + n) = unat p + unat n" using inv by (intro unat_add_no_wrap) (simp add: bs_inv_def)
  with lo sum inv show ?thesis by (simp add: bs_inv_def p(4))
qed

lemma bs_inv_lower: "bs_inv lo hi a \<Longrightarrow> lo' \<le> lo \<Longrightarrow> bs_inv lo' hi a"
  by (simp add: bs_inv_def)

lemma map_gibs_inv: "map_gibs pdpt gs ma = Some ma' \<Longrightarrow> bs_inv lo hi (snd ma) \<Longrightarrow> bs_inv lo hi (snd ma')"
proof (induction gs arbitrary: ma)
  case (Cons g gs)
  then obtain mb where b: "map_gib pdpt g ma = Some mb" "map_gibs pdpt gs mb = Some ma'" by (auto simp: bind_eq_Some_conv)
  have "bs_inv lo hi (snd mb)"
  proof (cases "page_table pdpt (fst ma) g AND PAGE_PRESENT \<noteq> 0")
    case True
    then have "map_gib pdpt g ma = Some ma" unfolding map_gib_def by (rule if_P)
    with b(1) Cons.prems(2) show ?thesis by simp
  next
    case False
    then obtain page where "bootstrap_alloc PAGE_SIZE PAGE_SIZE (snd ma) = Some (page, snd mb)"
      using b(1) unfolding map_gib_def bootstrap_alloc_page_def by (auto simp: bind_eq_Some_conv Let_def)
    from bootstrap_alloc_spec [OF Cons.prems(2) this] show ?thesis by (auto intro: bs_inv_lower)
  qed
  with Cons.IH [OF b(2)] show ?case .
qed simp

lemma metadata_placed:
  assumes "bs_inv lo hi (snd ma)" "allocator_init_metadata limit b ma = Some (bp, rp, s, a)"
  defines "n \<equiv> unat limit div 4096"
  shows "lo \<le> unat bp \<and> unat bp + (n + 7) div 8 \<le> unat rp \<and> unat rp + 4 * n \<le> hi"
proof -
  have n: "n < 4503599627370496" using unat_bound [of limit] by (simp add: n_def less_mult_imp_div_less)
  have u: "unat (limit div PAGE_SIZE) = n" by (simp add: n_def unat_page_div)
  have "unat (limit div PAGE_SIZE + 7) = n + 7" using unat_add_no_wrap [of "limit div PAGE_SIZE" 7] n by (simp add: u)
  then have 1: "unat ((limit div PAGE_SIZE + 7) div 8) = (n + 7) div 8" by (simp add: unat_div)
  have 2: "unat (limit div PAGE_SIZE * 4) = 4 * n" unfolding unat_word_ariths(2) u using n by simp
  from assms(2) obtain c where c: "bootstrap_alloc ((limit div PAGE_SIZE + 7) div 8) PAGE_SIZE (snd ma) = Some (bp, c)"
    "bootstrap_alloc (limit div PAGE_SIZE * 4) PAGE_SIZE c = Some (rp, a)"
    unfolding allocator_init_metadata_def Let_def by (auto simp: bind_eq_Some_conv)
  note s1 = bootstrap_alloc_spec [OF assms(1) c(1), unfolded 1]
  then have "bs_inv (unat bp + (n + 7) div 8) hi c" by simp
  from bootstrap_alloc_spec [OF this c(2), unfolded 2] s1 show ?thesis by simp
qed

section \<open>The boot as a whole\<close>

lemma phys_words_irrelevant [simp]:
  "phys_refs h (s\<lparr>phys_words := m\<rparr>) = phys_refs h s" "same_pages t (s\<lparr>phys_words := m\<rparr>) = same_pages t s"
  "tracked_page_count (s\<lparr>phys_words := m\<rparr>) = tracked_page_count s"
  by (simp_all add: phys_refs_def phys_wf_def tracked_page_count_def bitmap_test_def same_pages_def same_frame_def)

lemma boot_wf_refs: "boot_wf s \<Longrightarrow> phys_refs (\<lambda>_. 0) s"
  by (auto simp: boot_wf_def phys_refs_def)

lemma ensure_slot_refs:
  assumes refs: "phys_refs h s" and slot: "ensure_kernel_pml4_slot pml4 va s = Some s'"
  shows "\<exists>h'. phys_refs h' s' \<and> same_pages s s'"
proof (cases "page_table pml4 (phys_words s) (unat (drop_bit 39 va AND 0x1ff)) AND PAGE_PRESENT \<noteq> 0")
  case True
  then have "s' = s" using slot unfolding ensure_kernel_pml4_slot_def Let_def if_P [OF True] by simp
  with refs show ?thesis by auto
next
  case False
  from slot obtain p t m where t: "phys_alloc_page s = Some (p, t)" "s' = t\<lparr>phys_words := m\<rparr>"
    unfolding ensure_kernel_pml4_slot_def Let_def if_not_P [OF False] by (auto split: option.splits)
  have "phys_exec (PAlloc 1) (h, s) = Some (hold_run p 1 h, t)" using t(1) by (simp add: phys_alloc_page_def)
  with phys_exec_refs [OF refs, of "PAlloc 1"] have "phys_refs (hold_run p 1 h) t \<and> same_pages s t" by auto
  with t(2) show ?thesis by auto
qed

lemma memory_init_stages:
  assumes "memory_init e = Some (b, (bp, rp), s)"
  obtains limit c start ma t a u where
    "parse_multiboot_memory_map (kernel_physical_end e) (ucast (be_mbi_addr e)) (be_mbi e) (be_mods e) (be_entry_at e) = Some (limit, c)"
    "find_bootstrap_region (bootstrap_bytes_required limit) c = Some start"
    "reserve_range start (start + bootstrap_bytes_required limit) c = Some b"
    "expand_physmap (bootstrap_pml4 e) limit (be_memory e, bootstrap_begin start (bootstrap_bytes_required limit)) = Some ma"
    "allocator_init_metadata limit b ma = Some (bp, rp, t, a)"
    "ensure_kernel_pml4_slot (bootstrap_pml4 e) KVALLOC_BASE t = Some u"
    "s = u\<lparr>phys_words := table_write (bootstrap_pml4 e) 0 0 (phys_words u)\<rparr>"
  using assms unfolding memory_init_def Let_def
  by (auto simp: bind_eq_Some_conv split: if_splits)

lemma memory_init_facts:
  assumes init: "memory_init e = Some (b, (bp, rp), s)"
  shows "\<exists>h. phys_refs h s"
    "\<forall>i < tracked_page_count s. page_refcounts s ! i \<noteq> UINT32_MAX \<longleftrightarrow> in_usable b i \<and> \<not> meets_reserved b i"
    "{(0, 0x00100000), (BOOTSTUB32_PHYS_BASE, 0x02200000)} \<subseteq> set (reserved_ranges b)"
    "0x00100000 < align_up_u64 (kernel_physical_end e) PAGE_SIZE \<Longrightarrow>
       (0x00100000, align_up_u64 (kernel_physical_end e) PAGE_SIZE) \<in> set (reserved_ranges b)"
    "0 < tracked_page_count s \<Longrightarrow> \<exists>(x, y) \<in> set (reserved_ranges b). unat x \<le> unat bp \<and>
       unat bp + (tracked_page_count s + 7) div 8 \<le> unat rp \<and> unat rp + 4 * tracked_page_count s \<le> unat y"
proof -
  from memory_init_stages [OF init] obtain limit c start ma t a u where
    parse: "parse_multiboot_memory_map (kernel_physical_end e) (ucast (be_mbi_addr e)) (be_mbi e) (be_mods e) (be_entry_at e) = Some (limit, c)"
    and find: "find_bootstrap_region (bootstrap_bytes_required limit) c = Some start"
    and res: "reserve_range start (start + bootstrap_bytes_required limit) c = Some b"
    and expand: "expand_physmap (bootstrap_pml4 e) limit (be_memory e, bootstrap_begin start (bootstrap_bytes_required limit)) = Some ma"
    and meta: "allocator_init_metadata limit b ma = Some (bp, rp, t, a)"
    and slot: "ensure_kernel_pml4_slot (bootstrap_pml4 e) KVALLOC_BASE t = Some u"
    and s: "s = u\<lparr>phys_words := table_write (bootstrap_pml4 e) 0 0 (phys_words u)\<rparr>" .
  let ?n = "bootstrap_bytes_required limit"
  have rnd: "align_up_u64 ?n PAGE_SIZE = ?n" by (rule align_up_aligned [OF bytes_required_aligned])
  note F = find_in_ranges_spec [OF find [unfolded find_bootstrap_region_def], unfolded rnd]
  have sum: "unat (start + ?n) = unat start + unat ?n" using F by (intro unat_add_no_wrap) simp
  have al: "unat (start + ?n) mod 4096 = 0" using F bytes_required_aligned by (intro aligned_sum) auto
  note R = reserve_range_step [OF res al]
  have ok: "boot_ranges_ok limit b"
    using parse_ok(1) [OF parse] R(1) by (auto simp: boot_ranges_ok_def res_step_def res_ok_def)
  note A = allocator_pages [OF ok meta]
  from ensure_slot_refs [OF boot_wf_refs [OF A(1)] slot] obtain h where h: "phys_refs h u" "same_pages t u" by blast
  with s show "\<exists>h. phys_refs h s" by auto
  have N: "tracked_page_count s = tracked_page_count t" using same_frame_pages [of t u] h(2) by (simp add: s same_pages_def)
  show "\<forall>i < tracked_page_count s. page_refcounts s ! i \<noteq> UINT32_MAX \<longleftrightarrow> in_usable b i \<and> \<not> meets_reserved b i"
    unfolding N using A(5) h(2) by (simp add: s same_pages_def)
  show "{(0, 0x00100000), (BOOTSTUB32_PHYS_BASE, 0x02200000)} \<subseteq> set (reserved_ranges b)"
    using parse_ok(2) [OF parse] R(1) unfolding res_step_def by blast
  show "(0x00100000, align_up_u64 (kernel_physical_end e) PAGE_SIZE) \<in> set (reserved_ranges b)"
    if "0x00100000 < align_up_u64 (kernel_physical_end e) PAGE_SIZE"
    using parse_ok(3) [OF parse that] R(1) unfolding res_step_def by blast
  have "bs_inv (unat start) (unat (start + ?n)) (bootstrap_begin start ?n)"
    using F sum by (simp add: bs_inv_def bootstrap_begin_def rnd)
  with map_gibs_inv have "bs_inv (unat start) (unat (start + ?n)) (snd ma)"
    using expand unfolding expand_physmap_def Let_def by (auto split: if_splits)
  note M = metadata_placed [OF this meta]
  assume pos: "0 < tracked_page_count s"
  have n: "tracked_page_count s = unat limit div 4096"
    unfolding N unfolding tracked_page_count_def A(2) by (rule unat_page_div)
  have "start < start + ?n" unfolding word_less_nat_alt using M pos n by linarith
  with R(2) M show "\<exists>(x, y) \<in> set (reserved_ranges b). unat x \<le> unat bp \<and>
       unat bp + (tracked_page_count s + 7) div 8 \<le> unat rp \<and> unat rp + 4 * tracked_page_count s \<le> unat y"
    unfolding n by blast
qed

text \<open>
  Property C31.  When memory_init returns, the allocator is consistent and manages exactly the pages that
  lie inside a usable range of the memory map and meet no reserved range.  The first megabyte, the
  bootstub and the kernel image are reserved, and so is the memory that holds the bitmap and the
  reference counts, which do not overlap.
\<close>

theorem memory_init_managed_exact:
  assumes "memory_init e = Some (b, (bp, rp), s)"
  shows "phys_wf s \<and>
    (\<forall>i < tracked_page_count s. page_refcounts s ! i \<noteq> UINT32_MAX \<longleftrightarrow> in_usable b i \<and> \<not> meets_reserved b i) \<and>
    {(0, 0x00100000), (BOOTSTUB32_PHYS_BASE, 0x02200000)} \<subseteq> set (reserved_ranges b) \<and>
    (0x00100000 < align_up_u64 (kernel_physical_end e) PAGE_SIZE \<longrightarrow>
       (0x00100000, align_up_u64 (kernel_physical_end e) PAGE_SIZE) \<in> set (reserved_ranges b)) \<and>
    (0 < tracked_page_count s \<longrightarrow> (\<exists>(x, y) \<in> set (reserved_ranges b). unat x \<le> unat bp \<and>
       unat bp + (tracked_page_count s + 7) div 8 \<le> unat rp \<and> unat rp + 4 * tracked_page_count s \<le> unat y))"
  using memory_init_facts [OF assms] unfolding phys_refs_def by blast

text \<open>A machine with 64 KiB of memory at 1 MiB, of which the kernel takes one page.\<close>

definition small_machine :: boot_env where
  "small_machine = \<lparr>be_magic = MULTIBOOT_BOOTLOADER_MAGIC, be_mbi_addr = 0x1000,
     be_mbi = \<lparr>mb_flags = MB_INFO_MMAP, mem_lower = 0, mem_upper = 0, cmdline = 0, mods_count = 0, mods_addr = 0,
       mmap_length = 24, mmap_addr = 0x2000, drives_length = 0, drives_addr = 0, config_table = 0, boot_loader_name = 0, apm_table = 0\<rparr>,
     be_mods = [], be_entry_at = (\<lambda>_. \<lparr>me_size = 20, me_addr = 0x100000, me_len = 0x10000, me_type = 1\<rparr>),
     kernel_physical_end = 0x101000, bootstrap_pml4 = 0x100000, be_memory = (\<lambda>_ _. 1)\<rparr>"

abbreviation small_ranges :: boot_ranges where
  "small_ranges \<equiv> \<lparr>usable_ranges = [(0x100000, 0x110000)], reserved_ranges = [(0, 0x100000), (0x100000, 0x101000),
     (0x2000000, 0x2200000), (0x1000, 0x2000), (0x2000, 0x3000)], total_ram_bytes_value = 0x10000\<rparr>"

lemma small_machine_parse:
  "parse_multiboot_memory_map (kernel_physical_end small_machine) (ucast (be_mbi_addr small_machine)) (be_mbi small_machine)
     (be_mods small_machine) (be_entry_at small_machine) = Some (0x110000, small_ranges)"
  by (simp add: small_machine_def parse_multiboot_memory_map_def flag_set_def mmap_walk.simps mmap_entry_def add_usable_range_def
      reserve_range_def reserve_multiboot_payloads_def reserve_pages_def when_flag_def align_up_u64_def align_down_u64_def)

lemma small_machine_region: "find_bootstrap_region 0x2000 small_ranges = Some 0x101000"
  by (simp add: find_bootstrap_region_def align_up_u64_def align_down_u64_def find_candidate.simps range_is_reserved_def ranges_overlap_def)

lemma small_machine_metadata:
  "\<exists>s a. allocator_init_metadata 0x110000 b (m, bootstrap_begin 0x101000 0x2000) = Some (0x101000, 0x102000, s, a)"
proof -
  have "bootstrap_alloc ((0x110000 div PAGE_SIZE + 7) div 8) PAGE_SIZE (bootstrap_begin 0x101000 0x2000) =
      Some (0x101000, \<lparr>bs_start = 0x101000, bs_current = 0x101022, bs_end = 0x103000, bs_active = True\<rparr>)"
    "bootstrap_alloc (0x110000 div PAGE_SIZE * 4) PAGE_SIZE \<lparr>bs_start = 0x101000, bs_current = 0x101022, bs_end = 0x103000, bs_active = True\<rparr> =
      Some (0x102000, \<lparr>bs_start = 0x101000, bs_current = 0x102440, bs_end = 0x103000, bs_active = True\<rparr>)" by code_simp+
  then show ?thesis unfolding allocator_init_metadata_def Let_def by (simp only: snd_conv bind.bind_lunit prod.case) blast
qed

lemma small_machine_boots: "\<exists>b bp rp s. memory_init small_machine = Some (b, (bp, rp), s)"
proof -
  let ?e = small_machine and ?a = "bootstrap_begin 0x101000 0x2000"
  let ?c = "small_ranges\<lparr>reserved_ranges := reserved_ranges small_ranges @ [(0x101000, 0x103000)]\<rparr>"
  have n: "bootstrap_bytes_required 0x110000 = 0x2000" by code_simp
  have 1: "reserve_range 0x101000 (0x101000 + 0x2000) small_ranges = Some ?c" by (simp add: reserve_range_def)
  have "align_up_u64 0x110000 PHYSMAP_GIB div PHYSMAP_GIB = 1" by code_simp
  then have 2: "expand_physmap (bootstrap_pml4 ?e) 0x110000 (be_memory ?e, ?a) = Some (be_memory ?e, ?a)" by (simp add: expand_physmap_def)
  obtain s a where 3: "allocator_init_metadata 0x110000 ?c (be_memory ?e, ?a) = Some (0x101000, 0x102000, s, a)"
    using small_machine_metadata by blast
  have "align_up_u64 0x110000 PAGE_SIZE = 0x110000" by code_simp
  then have ok: "boot_ranges_ok 0x110000 ?c" unfolding boot_ranges_ok_def by (intro conjI exI [of _ "0x110000"]) simp_all
  have "phys_words s = (\<lambda>_ _. 1)" using allocator_pages(3) [OF ok 3] by (simp add: small_machine_def)
  then have 4: "ensure_kernel_pml4_slot (bootstrap_pml4 ?e) KVALLOC_BASE s = Some s"
    by (simp add: ensure_kernel_pml4_slot_def Let_def page_table_def)
  have "be_magic ?e = MULTIBOOT_BOOTLOADER_MAGIC" "be_mbi_addr ?e \<noteq> 0" by (simp_all add: small_machine_def)
  then show ?thesis
    unfolding memory_init_def Let_def small_machine_parse bind.bind_lunit prod.case n small_machine_region 1 2 3 4 by simp
qed

theorem memory_init_managed_exact_witness:
  "\<exists>b m s. memory_init small_machine = Some (b, m, s) \<and> phys_wf s \<and> (0, 0x00100000) \<in> set (reserved_ranges b)"
proof -
  obtain b bp rp s where s: "memory_init small_machine = Some (b, (bp, rp), s)" using small_machine_boots by blast
  from memory_init_managed_exact [OF s] s show ?thesis by blast
qed

text \<open>
  Property C32.  After the boot no history of allocations, gets and puts by callers that hold what they
  use panics, the reference count of every page is the number of references held, and no caller ever
  holds a page outside the usable memory or in a reserved range.
\<close>

theorem phys_history_safe:
  assumes "memory_init e = Some (b, m, s)"
  shows "\<exists>held. phys_refs held s \<and>
    (\<forall>ops. \<exists>held' s'. phys_run ops (held, s) = Some (held', s') \<and> phys_refs held' s' \<and>
       (\<forall>i. 0 < held' i \<longrightarrow> in_usable b i \<and> \<not> meets_reserved b i))"
proof -
  obtain bp rp where m: "m = (bp, rp)" by (cases m)
  note F = memory_init_facts [OF assms [unfolded m]]
  obtain h where h: "phys_refs h s" using F(1) by blast
  have "\<exists>held' s'. phys_run ops (h, s) = Some (held', s') \<and> phys_refs held' s' \<and>
       (\<forall>i. 0 < held' i \<longrightarrow> in_usable b i \<and> \<not> meets_reserved b i)" for ops
  proof -
    from phys_run_refs [OF h] obtain h' s' where r: "phys_run ops (h, s) = Some (h', s')" "phys_refs h' s'" "same_pages s s'" by blast
    have "in_usable b i \<and> \<not> meets_reserved b i" if "0 < h' i" for i
    proof -
      have i: "i < tracked_page_count s'" "page_refcounts s' ! i \<noteq> UINT32_MAX"
        using r(2) that unfolding phys_refs_def by (metis less_irrefl)+
      then have "i < tracked_page_count s" "page_refcounts s ! i \<noteq> UINT32_MAX"
        using r(3) same_frame_pages [of s s'] by (auto simp: same_pages_def)
      with F(2) show ?thesis by blast
    qed
    with r show ?thesis by blast
  qed
  with h show ?thesis by blast
qed

theorem phys_history_safe_witness:
  "\<exists>b m s held. memory_init small_machine = Some (b, m, s) \<and> phys_refs held s \<and>
     (\<exists>held' s'. phys_run [PAllocBelow 1 0x110000] (held, s) = Some (held', s') \<and> phys_refs held' s')"
proof -
  obtain b bp rp s where s: "memory_init small_machine = Some (b, (bp, rp), s)" using small_machine_boots by blast
  from phys_history_safe [OF s] s show ?thesis by blast
qed

end
