(* ===== verification/Paging.thy ===== *)
theory Paging
  imports Physboot
begin

text \<open>
  Page tables and address spaces (src/kernel/core/memory.c): the four-level walk, creation of missing
  tables, mapping, unmapping and protecting of pages and ranges, over the physical memory and
  the reference counts of Physmem.  An address space is an object in a store; the kernel's own is at a
  fixed address.  \<open>None\<close> is memory_panic or the use of a freed object.
\<close>

section \<open>Data\<close>

record address_space_mapping_t =
  virtual_address :: u64
  physical :: u64
  owned :: bool

record address_space_t =
  pml4_phys :: u64
  mappings :: "address_space_mapping_t list"
  as_flags :: u32
  as_references :: nat
  live_threads :: nat
  permanent :: bool
  capset :: u64
  vmoset :: u64

record vm_state =
  vm_phys :: phys_state
  vm_spaces :: "addr \<Rightarrow> address_space_t option"

record page_walk_t =
  w_pml4 :: u64
  w_pdpt :: u64
  w_pd :: u64
  w_pt :: u64
  pml4_index :: nat
  pdpt_index :: nat
  pd_index :: nat
  pt_index :: nat

abbreviation PHYSMAP_BASE :: u64 where "PHYSMAP_BASE \<equiv> 0xffff800000000000"
abbreviation USER_CANONICAL_TOP :: u64 where "USER_CANONICAL_TOP \<equiv> 0x0000800000000000"
abbreviation PAGE_NX :: u64 where "PAGE_NX \<equiv> 0x8000000000000000"
abbreviation ADDRESS_SPACE_MAP_OWNED :: u64 where "ADDRESS_SPACE_MAP_OWNED \<equiv> 0x0001000000000000"

definition address_space_kernel :: addr where
  "address_space_kernel = 0"

section \<open>Walking the tables\<close>

definition page_walk_present :: "u64 \<Rightarrow> bool" where
  "page_walk_present e \<longleftrightarrow> e AND PAGE_PRESENT \<noteq> 0"

definition level_index :: "nat \<Rightarrow> u64 \<Rightarrow> nat" where
  "level_index shift va = unat (drop_bit shift va AND 0x1ff)"

definition walk_to_pte :: "u64 \<Rightarrow> u64 \<Rightarrow> phys_memory \<Rightarrow> page_walk_t option" where
  "walk_to_pte root va m =
     (let i4 = level_index 39 va; i3 = level_index 30 va; i2 = level_index 21 va; i1 = level_index 12 va;
          e4 = page_table root m i4 in
      if \<not> page_walk_present e4 then None
      else
        let pdpt = e4 AND PAGE_ADDR_MASK; e3 = page_table pdpt m i3 in
        if \<not> page_walk_present e3 then None
        else
          let pd = e3 AND PAGE_ADDR_MASK; e2 = page_table pd m i2 in
          if \<not> page_walk_present e2 \<or> e2 AND HUGE_PAGE_FLAG \<noteq> 0 then None
          else Some \<lparr>w_pml4 = root, w_pdpt = pdpt, w_pd = pd, w_pt = e2 AND PAGE_ADDR_MASK,
                     pml4_index = i4, pdpt_index = i3, pd_index = i2, pt_index = i1\<rparr>)"

definition pte :: "page_walk_t \<Rightarrow> phys_memory \<Rightarrow> u64" where
  "pte w m = page_table (w_pt w) m (pt_index w)"

definition write_entry :: "u64 \<Rightarrow> nat \<Rightarrow> u64 \<Rightarrow> phys_state \<Rightarrow> phys_state" where
  "write_entry t i e s = s\<lparr>phys_words := table_write t i e (phys_words s)\<rparr>"

definition allocate_page_table :: "phys_state \<Rightarrow> (u64 \<times> phys_state) option" where
  "allocate_page_table s =
     (case phys_alloc_page s of
        None \<Rightarrow> None
      | Some (p, s) \<Rightarrow> Some (p, s\<lparr>phys_words := (phys_words s)(p AND PAGE_ADDR_MASK := (\<lambda>_. 0))\<rparr>))"

definition ensure_entry :: "u64 \<Rightarrow> nat \<Rightarrow> u64 \<Rightarrow> phys_state \<Rightarrow> phys_state option" where
  \<comment> \<open>one level of ensure_page_table; \<open>None\<close> when no page is left\<close>
  "ensure_entry t i entry_flags s =
     (if page_walk_present (page_table t (phys_words s) i) then Some s
      else case allocate_page_table s of
        None \<Rightarrow> None
      | Some (p, s) \<Rightarrow> Some (write_entry t i (p OR entry_flags) s))"

definition ensure_page_table :: "u64 \<Rightarrow> u64 \<Rightarrow> bool \<Rightarrow> phys_state \<Rightarrow> page_walk_t option \<times> phys_state" where
  "ensure_page_table root va user s =
     (let entry_flags = PAGE_PRESENT OR PAGE_WRITABLE OR (if user then PAGE_USER else 0);
          i4 = level_index 39 va; i3 = level_index 30 va; i2 = level_index 21 va; i1 = level_index 12 va in
      case ensure_entry root i4 entry_flags s of
        None \<Rightarrow> (None, s)
      | Some s \<Rightarrow>
          let pdpt = page_table root (phys_words s) i4 AND PAGE_ADDR_MASK in
          case ensure_entry pdpt i3 entry_flags s of
            None \<Rightarrow> (None, s)
          | Some s \<Rightarrow>
              let pd = page_table pdpt (phys_words s) i3 AND PAGE_ADDR_MASK;
                  e2 = page_table pd (phys_words s) i2 in
              if page_walk_present e2 \<and> e2 AND HUGE_PAGE_FLAG \<noteq> 0 then (None, s)
              else
                case ensure_entry pd i2 entry_flags s of
                  None \<Rightarrow> (None, s)
                | Some s \<Rightarrow>
                    (Some \<lparr>w_pml4 = root, w_pdpt = pdpt, w_pd = pd, w_pt = page_table pd (phys_words s) i2 AND PAGE_ADDR_MASK,
                           pml4_index = i4, pdpt_index = i3, pd_index = i2, pt_index = i1\<rparr>, s))"

definition table_empty :: "u64 \<Rightarrow> phys_memory \<Rightarrow> bool" where
  "table_empty t m \<longleftrightarrow> (\<forall>i < 512. page_table t m i AND PAGE_PRESENT = 0)"

definition page_range_length :: "u64 \<Rightarrow> u64 option" where
  "page_range_length len =
     (if len = 0 then None
      else if len > UINT64_MAX - (PAGE_SIZE - 1) then None
      else Some ((len + PAGE_SIZE - 1) AND NOT (PAGE_SIZE - 1)))"

definition mapping_allowed :: "addr option \<Rightarrow> u64 \<Rightarrow> bool \<Rightarrow> bool" where
  "mapping_allowed a va kernel_region \<longleftrightarrow>
     a \<noteq> None \<and> va AND (PAGE_SIZE - 1) = 0 \<and>
     (if kernel_region then a = Some address_space_kernel \<and> va \<ge> PHYSMAP_BASE else va < USER_CANONICAL_TOP)"

definition page_is_mapped :: "addr \<Rightarrow> u64 \<Rightarrow> vm_state \<Rightarrow> bool option" where
  "page_is_mapped a va st =
     map_option (\<lambda>as. case walk_to_pte (pml4_phys as) va (phys_words (vm_phys st)) of
        None \<Rightarrow> False | Some w \<Rightarrow> page_walk_present (pte w (phys_words (vm_phys st)))) (vm_spaces st a)"

definition set_space :: "addr \<Rightarrow> address_space_t \<Rightarrow> phys_state \<Rightarrow> vm_state \<Rightarrow> vm_state" where
  "set_space a as s st = st\<lparr>vm_phys := s, vm_spaces := (vm_spaces st)(a \<mapsto> as)\<rparr>"

section \<open>Pages\<close>

definition map_page_internal ::
  "addr option \<Rightarrow> u64 \<Rightarrow> u64 \<Rightarrow> u64 \<Rightarrow> bool \<Rightarrow> bool \<Rightarrow> bool \<Rightarrow> vm_state \<Rightarrow> (int \<times> vm_state) option" where
  \<comment> \<open>the last flag is the outcome of kmalloc for the mapping record\<close>
  "map_page_internal ao va pa flags kernel_region track_mapping mem_ok st =
     (if \<not> mapping_allowed ao va kernel_region \<or> \<not> phys_page_aligned pa then Some (-1, st)
      else if track_mapping \<and> \<not> mem_ok then Some (-1, st)
      else
        do { as \<leftarrow> vm_spaces st (the ao);
             case ensure_page_table (pml4_phys as) va (\<not> kernel_region) (vm_phys st) of
               (None, s) \<Rightarrow> Some (-1, st\<lparr>vm_phys := s\<rparr>)
             | (Some w, s) \<Rightarrow>
                 if page_walk_present (pte w (phys_words s)) then Some (-1, st\<lparr>vm_phys := s\<rparr>)
                 else
                   do { let transfer_ref = (flags AND ADDRESS_SPACE_MAP_OWNED \<noteq> 0);
                        s \<leftarrow> (if phys_page_is_managed pa s \<and> \<not> transfer_ref then phys_page_get pa s else Some s);
                        let s = write_entry (w_pt w) (pt_index w)
                                  ((pa AND PAGE_ADDR_MASK) OR PAGE_PRESENT OR (flags AND (PAGE_WRITABLE OR PAGE_USER OR PAGE_NX))) s;
                        let as = (if track_mapping
                                  then as\<lparr>mappings := \<lparr>virtual_address = va, physical = pa, owned = transfer_ref\<rparr> # mappings as\<rparr>
                                  else as);
                        Some (0, set_space (the ao) as s st) } })"

definition put_if_managed :: "u64 \<Rightarrow> phys_state \<Rightarrow> phys_state option" where
  "put_if_managed p s = (if phys_page_is_managed p s then phys_page_put p s else Some s)"

fun remove_mapping :: "u64 \<Rightarrow> address_space_mapping_t list \<Rightarrow> address_space_mapping_t list" where
  "remove_mapping va [] = []"
| "remove_mapping va (m # ms) = (if virtual_address m = va then ms else m # remove_mapping va ms)"

definition drop_tables :: "page_walk_t \<Rightarrow> phys_state \<Rightarrow> phys_state option" where
  \<comment> \<open>the end of unmap_page_internal: tables that became empty, innermost first\<close>
  "drop_tables w s =
     (if \<not> table_empty (w_pt w) (phys_words s) then Some s
      else
        do { let t = page_table (w_pd w) (phys_words s) (pd_index w) AND PAGE_ADDR_MASK;
             s \<leftarrow> put_if_managed t (write_entry (w_pd w) (pd_index w) 0 s);
             if \<not> table_empty (w_pd w) (phys_words s) then Some s
             else
               do { let t = page_table (w_pdpt w) (phys_words s) (pdpt_index w) AND PAGE_ADDR_MASK;
                    s \<leftarrow> put_if_managed t (write_entry (w_pdpt w) (pdpt_index w) 0 s);
                    if \<not> (table_empty (w_pdpt w) (phys_words s) \<and> pml4_index w < 256) then Some s
                    else
                      do { let t = page_table (w_pml4 w) (phys_words s) (pml4_index w) AND PAGE_ADDR_MASK;
                           put_if_managed t (write_entry (w_pml4 w) (pml4_index w) 0 s) } } })"

definition unmap_page_internal :: "addr option \<Rightarrow> u64 \<Rightarrow> bool \<Rightarrow> bool \<Rightarrow> vm_state \<Rightarrow> (int \<times> vm_state) option" where
  "unmap_page_internal ao va kernel_region track_mapping st =
     (if \<not> mapping_allowed ao va kernel_region then Some (-1, st)
      else
        do { as \<leftarrow> vm_spaces st (the ao);
             case walk_to_pte (pml4_phys as) va (phys_words (vm_phys st)) of
               None \<Rightarrow> Some (-1, st)
             | Some w \<Rightarrow>
                 if \<not> page_walk_present (pte w (phys_words (vm_phys st))) then Some (-1, st)
                 else
                   do { let pa = pte w (phys_words (vm_phys st)) AND PAGE_ADDR_MASK;
                        s \<leftarrow> put_if_managed pa (write_entry (w_pt w) (pt_index w) 0 (vm_phys st));
                        let as = (if track_mapping then as\<lparr>mappings := remove_mapping va (mappings as)\<rparr> else as);
                        s \<leftarrow> drop_tables w s;
                        Some (0, set_space (the ao) as s st) } })"

definition address_space_map_page :: "addr option \<Rightarrow> u64 \<Rightarrow> u64 \<Rightarrow> u64 \<Rightarrow> bool \<Rightarrow> vm_state \<Rightarrow> (int \<times> vm_state) option" where
  "address_space_map_page ao va pa flags mem_ok st = map_page_internal ao va pa flags False True mem_ok st"

definition address_space_unmap_page :: "addr option \<Rightarrow> u64 \<Rightarrow> vm_state \<Rightarrow> (int \<times> vm_state) option" where
  "address_space_unmap_page ao va st = unmap_page_internal ao va False True st"

definition translate :: "u64 \<Rightarrow> u64 \<Rightarrow> phys_memory \<Rightarrow> u64" where
  "translate root va m =
     (case walk_to_pte root va m of
        None \<Rightarrow> UINT64_MAX
      | Some w \<Rightarrow> if page_walk_present (pte w m) then (pte w m AND PAGE_ADDR_MASK) OR (va AND (PAGE_SIZE - 1)) else UINT64_MAX)"

definition address_space_translate :: "addr option \<Rightarrow> u64 \<Rightarrow> vm_state \<Rightarrow> u64 option" where
  "address_space_translate ao va st =
     (case ao of
        None \<Rightarrow> Some UINT64_MAX
      | Some a \<Rightarrow> map_option (\<lambda>as. translate (pml4_phys as) va (phys_words (vm_phys st))) (vm_spaces st a))"

definition kernel_map_page :: "u64 \<Rightarrow> u64 \<Rightarrow> u64 \<Rightarrow> bool \<Rightarrow> vm_state \<Rightarrow> (int \<times> vm_state) option" where
  "kernel_map_page va pa flags transfer_ref st =
     map_page_internal (Some address_space_kernel) va pa (flags OR (if transfer_ref then ADDRESS_SPACE_MAP_OWNED else 0)) True False True st"

definition kernel_unmap_page :: "u64 \<Rightarrow> vm_state \<Rightarrow> (int \<times> vm_state) option" where
  "kernel_unmap_page va st = unmap_page_internal (Some address_space_kernel) va True False st"

section \<open>Ranges\<close>

text \<open>The page offsets of a rounded length.\<close>

definition offsets :: "u64 \<Rightarrow> u64 list" where
  "offsets rounded = map (\<lambda>i. of_nat i * PAGE_SIZE) [0 ..< unat (rounded div PAGE_SIZE)]"

fun all_mapped :: "bool \<Rightarrow> addr \<Rightarrow> u64 \<Rightarrow> u64 list \<Rightarrow> vm_state \<Rightarrow> bool option" where
  \<comment> \<open>the check before a range operation: each page is mapped, or each page is not\<close>
  "all_mapped want a va [] st = Some True"
| "all_mapped want a va (off # offs) st =
     do { b \<leftarrow> page_is_mapped a (va + off) st;
          if b = want then all_mapped want a va offs st else Some False }"

fun unmap_pages :: "addr \<Rightarrow> u64 \<Rightarrow> bool \<Rightarrow> u64 list \<Rightarrow> vm_state \<Rightarrow> vm_state option" where
  \<comment> \<open>a page that cannot be unmapped is a panic\<close>
  "unmap_pages a va kr [] st = Some st"
| "unmap_pages a va kr (off # offs) st =
     do { (r, st) \<leftarrow> unmap_page_internal (Some a) (va + off) kr True st;
          if r \<noteq> 0 then None else unmap_pages a va kr offs st }"

fun map_pages :: "addr \<Rightarrow> u64 \<Rightarrow> u64 \<Rightarrow> u64 \<Rightarrow> bool \<Rightarrow> u64 list \<Rightarrow> u64 list \<Rightarrow> bool list \<Rightarrow> vm_state \<Rightarrow> (int \<times> vm_state) option" where
  \<comment> \<open>\<open>done\<close>: the offsets mapped so far, the last one first, for the rollback; one kmalloc outcome per page\<close>
  "map_pages a va pa flags kr dn [] oks st = Some (0, st)"
| "map_pages a va pa flags kr dn (off # offs) oks st =
     do { (r, st) \<leftarrow> map_page_internal (Some a) (va + off) (pa + off) flags kr True (oks \<noteq> [] \<and> hd oks) st;
          if r \<noteq> 0 then map_option (Pair (-1)) (unmap_pages a va kr dn st)
          else map_pages a va pa flags kr (off # dn) offs (tl oks) st }"

definition range_ok :: "addr option \<Rightarrow> u64 \<Rightarrow> u64 \<Rightarrow> (u64 \<times> bool) option" where
  \<comment> \<open>the checks common to the three range operations; the rounded length and whether it is the kernel's space\<close>
  "range_ok ao va len =
     (if ao = None \<or> va AND (PAGE_SIZE - 1) \<noteq> 0 then None
      else case page_range_length len of
        None \<Rightarrow> None
      | Some rounded \<Rightarrow>
          let kr = (ao = Some address_space_kernel) in
          if va > UINT64_MAX - (rounded - 1) then None
          else if \<not> mapping_allowed ao va kr \<or> \<not> mapping_allowed ao (va + rounded - PAGE_SIZE) kr then None
          else Some (rounded, kr))"

definition address_space_map_range ::
  "addr option \<Rightarrow> u64 \<Rightarrow> u64 \<Rightarrow> u64 \<Rightarrow> u64 \<Rightarrow> bool list \<Rightarrow> vm_state \<Rightarrow> (int \<times> vm_state) option" where
  "address_space_map_range ao va pa len flags oks st =
     (case range_ok ao va len of
        None \<Rightarrow> Some (-1, st)
      | Some (rounded, kr) \<Rightarrow>
          if pa AND (PAGE_SIZE - 1) \<noteq> 0 \<or> pa > UINT64_MAX - (rounded - 1) \<or> flags AND ADDRESS_SPACE_MAP_OWNED \<noteq> 0 then Some (-1, st)
          else
            do { free \<leftarrow> all_mapped False (the ao) va (offsets rounded) st;
                 if \<not> free then Some (-1, st)
                 else map_pages (the ao) va pa flags kr [] (offsets rounded) oks st })"

definition address_space_unmap_range :: "addr option \<Rightarrow> u64 \<Rightarrow> u64 \<Rightarrow> vm_state \<Rightarrow> (int \<times> vm_state) option" where
  "address_space_unmap_range ao va len st =
     (case range_ok ao va len of
        None \<Rightarrow> Some (-1, st)
      | Some (rounded, kr) \<Rightarrow>
          do { full \<leftarrow> all_mapped True (the ao) va (offsets rounded) st;
               if \<not> full then Some (-1, st)
               else map_option (Pair 0) (unmap_pages (the ao) va kr (offsets rounded) st) })"

definition protect_page_internal :: "addr option \<Rightarrow> u64 \<Rightarrow> u64 \<Rightarrow> bool \<Rightarrow> vm_state \<Rightarrow> (int \<times> vm_state) option" where
  "protect_page_internal ao va flags kernel_region st =
     (let allowed_flags = PAGE_WRITABLE OR PAGE_USER OR PAGE_NX in
      if \<not> mapping_allowed ao va kernel_region then Some (-1, st)
      else
        do { as \<leftarrow> vm_spaces st (the ao);
             case walk_to_pte (pml4_phys as) va (phys_words (vm_phys st)) of
               None \<Rightarrow> Some (-1, st)
             | Some w \<Rightarrow>
                 if \<not> page_walk_present (pte w (phys_words (vm_phys st))) then Some (-1, st)
                 else
                   let entry = (pte w (phys_words (vm_phys st)) AND NOT allowed_flags) OR (flags AND allowed_flags) in
                   Some (0, st\<lparr>vm_phys := write_entry (w_pt w) (pt_index w) entry (vm_phys st)\<rparr>) })"

fun protect_pages :: "addr \<Rightarrow> u64 \<Rightarrow> u64 \<Rightarrow> bool \<Rightarrow> u64 list \<Rightarrow> vm_state \<Rightarrow> vm_state option" where
  "protect_pages a va flags kr [] st = Some st"
| "protect_pages a va flags kr (off # offs) st =
     do { (r, st) \<leftarrow> protect_page_internal (Some a) (va + off) flags kr st;
          if r \<noteq> 0 then None else protect_pages a va flags kr offs st }"

definition address_space_protect_range :: "addr option \<Rightarrow> u64 \<Rightarrow> u64 \<Rightarrow> u64 \<Rightarrow> vm_state \<Rightarrow> (int \<times> vm_state) option" where
  "address_space_protect_range ao va len flags st =
     (case range_ok ao va len of
        None \<Rightarrow> Some (-1, st)
      | Some (rounded, kr) \<Rightarrow>
          do { full \<leftarrow> all_mapped True (the ao) va (offsets rounded) st;
               if \<not> full then Some (-1, st)
               else map_option (Pair 0) (protect_pages (the ao) va flags kr (offsets rounded) st) })"

end
