(* ===== verification/Page_Tree.thy ===== *)
theory Page_Tree
  imports Paging
begin

text \<open>
  The page tables of memory.c seen as trees: the page a path of indices leads to, the slots that a set of
  roots owns, the invariant that ties reference counts to slots, and the effect of one written entry on
  it.  The walks, the creation of tables and the dropping of empty tables of Paging are specified here in these terms.
\<close>

section \<open>Reference counts by address\<close>

definition refs_at :: "phys_state \<Rightarrow> u64 \<Rightarrow> nat" where
  "refs_at s p = unat (page_refcounts s ! phys_to_page_index p)"

definition same_managed :: "phys_state \<Rightarrow> phys_state \<Rightarrow> bool" where
  "same_managed s s' \<longleftrightarrow> tracked_phys_limit s' = tracked_phys_limit s \<and>
     (\<forall>p. phys_page_is_managed p s' \<longleftrightarrow> phys_page_is_managed p s)"

lemma same_managed_trans: "same_managed s t \<Longrightarrow> same_managed t u \<Longrightarrow> same_managed s u"
  by (simp add: same_managed_def)

lemma same_managed_refl [simp]: "same_managed s s"
  by (simp add: same_managed_def)

lemma index_inj:
  assumes "phys_page_aligned p" "phys_page_aligned q" "phys_to_page_index p = phys_to_page_index q"
  shows "p = q"
proof -
  have "unat p = 4096 * (unat p div 4096)" "unat q = 4096 * (unat q div 4096)"
    using assms(1,2) unfolding aligned_unat by (metis add.right_neutral mult_div_mod_eq)+
  with assms(3) have "unat p = unat q" unfolding phys_to_page_index_def unat_page_div by metis
  then show ?thesis by (simp only: word_unat_eq_iff)
qed

lemma managed_aligned: "phys_page_is_managed p s \<Longrightarrow> phys_page_aligned p"
  by (simp add: phys_page_is_managed_def)

lemma same_pages_managed:
  assumes wf: "phys_wf s" and same: "same_pages s s'"
  shows "same_managed s s'"
proof -
  have lim: "tracked_phys_limit s' = tracked_phys_limit s" using same by (simp add: same_pages_def same_frame_def)
  have "page_refcounts s' ! phys_to_page_index p = UINT32_MAX \<longleftrightarrow> page_refcounts s ! phys_to_page_index p = UINT32_MAX"
    if "p < tracked_phys_limit s" for p
  proof -
    have "unat p < 4096 * tracked_page_count s" using that phys_wfD(1) [OF wf] by (simp add: word_less_nat_alt)
    then have "phys_to_page_index p < tracked_page_count s"
      by (simp add: phys_to_page_index_def unat_page_div less_mult_imp_div_less mult.commute)
    then show ?thesis using same by (simp add: same_pages_def)
  qed
  then show ?thesis using lim unfolding same_managed_def phys_page_is_managed_def by auto
qed

text \<open>The three operations on one page, by its address.\<close>

lemma get_at:
  assumes wf: "phys_wf s" and p: "phys_page_is_managed p s" and r: "0 < refs_at s p" "refs_at s p < 2 ^ 32 - 2"
  shows "\<exists>s'. phys_page_get p s = Some s' \<and> phys_wf s' \<and> same_managed s s' \<and> phys_words s' = phys_words s \<and>
    (\<forall>q. phys_page_is_managed q s \<longrightarrow> refs_at s' q = refs_at s q + of_bool (q = p))"
proof -
  define i where "i = phys_to_page_index p"
  let ?r = "page_refcounts s ! i"
  have m: "unat (UINT32_MAX - 1) = 2 ^ 32 - 2" by simp
  have r0: "?r \<noteq> 0" "?r \<noteq> UINT32_MAX - 1" using r m by (auto simp: refs_at_def i_def)
  have r2: "?r \<noteq> UINT32_MAX" using p by (simp add: phys_page_is_managed_def i_def)
  have r3: "?r + 1 \<noteq> UINT32_MAX" using r0(2) by (metis add_diff_cancel_right')
  note G = phys_page_get_spec [OF wf p i_def r0]
  let ?t = "set_refcount i (?r + 1) s"
  have ii: "i < length (page_refcounts s)" using managed_index [OF wf p] phys_wfD(2) [OF wf] by (simp add: i_def)
  have rc: "page_refcounts ?t ! j = (if j = i then ?r + 1 else page_refcounts s ! j)" for j
    using ii by (simp add: set_refcount_def nth_list_update)
  have "same_pages s ?t" unfolding same_pages_def using set_refcount_frame(1) rc r2 r3 by auto
  moreover have "refs_at ?t q = refs_at s q + of_bool (q = p)" if q: "phys_page_is_managed q s" for q
  proof -
    have "phys_to_page_index q = i \<longleftrightarrow> q = p"
      using index_inj [OF managed_aligned [OF q] managed_aligned [OF p]] by (auto simp: i_def)
    then show ?thesis unfolding refs_at_def rc using unat_succ32 [OF r2] by auto
  qed
  ultimately show ?thesis using G same_pages_managed [OF wf] set_refcount_frame(3) by blast
qed

lemma put_at:
  assumes wf: "phys_wf s" and p: "phys_page_is_managed p s" and r: "0 < refs_at s p"
  shows "\<exists>s'. phys_page_put p s = Some s' \<and> phys_wf s' \<and> same_managed s s' \<and>
    phys_words s' = (if refs_at s p = 1 then (phys_words s)(p := (\<lambda>_. 0)) else phys_words s) \<and>
    (\<forall>q. phys_page_is_managed q s \<longrightarrow> refs_at s' q + of_bool (q = p) = refs_at s q)"
proof -
  define i where "i = phys_to_page_index p"
  let ?r = "page_refcounts s ! i"
  have r0: "?r \<noteq> 0" using r by (auto simp: refs_at_def i_def)
  have r1: "?r = 1 \<longleftrightarrow> refs_at s p = 1" unfolding refs_at_def i_def [symmetric] word_unat_eq_iff by simp
  have r2: "?r \<noteq> UINT32_MAX" using p by (simp add: phys_page_is_managed_def i_def)
  have r3: "?r - 1 \<noteq> UINT32_MAX" using r0 unfolding diff_eq_eq by simp
  from phys_page_put_spec [OF wf p i_def r0] obtain t where
    t: "phys_page_put p s = Some t" "phys_wf t" "same_frame s t"
      "\<And>j. j < tracked_page_count s \<Longrightarrow> page_refcounts t ! j = (if j = i then ?r - 1 else page_refcounts s ! j)"
      "phys_words t = (if ?r = 1 then (phys_words s)(p := (\<lambda>_. 0)) else phys_words s)" by blast
  have "same_pages s t" unfolding same_pages_def using t(3,4) r2 r3 by auto
  moreover have "refs_at t q + of_bool (q = p) = refs_at s q" if q: "phys_page_is_managed q s" for q
  proof -
    have "phys_to_page_index q = i \<longleftrightarrow> q = p"
      using index_inj [OF managed_aligned [OF q] managed_aligned [OF p]] by (auto simp: i_def)
    then show ?thesis
      using t(4) [OF managed_index [OF wf q]] unat_pred32 [OF r0] r by (auto simp: refs_at_def i_def)
  qed
  ultimately show ?thesis using t(1,2,5) same_pages_managed [OF wf] unfolding r1 by blast
qed

lemma alloc_at:
  assumes wf: "phys_wf s" and al: "phys_alloc_page s = Some (p, s')"
  shows "phys_page_is_managed p s" "refs_at s p = 0" "phys_wf s'" "same_managed s s'" "phys_words s' = phys_words s"
    "phys_page_is_managed q s \<Longrightarrow> refs_at s' q = refs_at s q + of_bool (q = p)"
proof -
  have "unat (1 :: u64) = 1" by simp
  with phys_alloc_pages_spec [OF wf, of 1] al obtain f where
    f: "p = of_nat f * PAGE_SIZE" and t: "took_run f 1 s s'" by (auto simp: phys_alloc_page_def)
  then have t': "f < tracked_page_count s" "page_refcounts s ! f = 0" "phys_words s' = phys_words s" "same_frame s s'" "phys_wf s'"
    "\<And>i. i < tracked_page_count s \<Longrightarrow> page_refcounts s' ! i = (if i = f then 1 else page_refcounts s ! i)"
    by (auto simp: took_run_def)
  note A = page_address [OF wf t'(1), folded f]
  have "(0 :: u32) \<noteq> UINT32_MAX" "(1 :: u32) \<noteq> UINT32_MAX" by simp_all
  then show m: "phys_page_is_managed p s" using in_use_managed [OF wf A(2)] A(3) t'(1,2) by simp
  show "refs_at s p = 0" using t'(2) A(3) by (simp add: refs_at_def)
  show "phys_wf s'" "phys_words s' = phys_words s" by (fact t')+
  have "same_pages s s'" unfolding same_pages_def using t'(2,4,6) by auto
  then show "same_managed s s'" by (rule same_pages_managed [OF wf])
  show "refs_at s' q = refs_at s q + of_bool (q = p)" if q: "phys_page_is_managed q s"
  proof -
    have "phys_to_page_index q = f \<longleftrightarrow> q = p"
      using index_inj [OF managed_aligned [OF q] A(2)] A(3) by auto
    then show ?thesis using t'(6) [OF managed_index [OF wf q]] t'(2) by (auto simp: refs_at_def)
  qed
qed

section \<open>Tables as trees\<close>

text \<open>
  A path is the list of indices of a walk, the last one first.  \<open>tab m r \<pi>\<close> is the page that the walk from the root \<open>r\<close>
  reaches: a table for a path of length up to 3, a mapped frame for length 4.
\<close>

definition follow :: "nat \<Rightarrow> u64 \<Rightarrow> bool" where
  "follow d e \<longleftrightarrow> page_walk_present e \<and> (d = 2 \<longrightarrow> e AND HUGE_PAGE_FLAG = 0)"

fun tab :: "phys_memory \<Rightarrow> u64 \<Rightarrow> nat list \<Rightarrow> u64 option" where
  "tab m r [] = Some r"
| "tab m r (i # \<pi>) =
     (case tab m r \<pi> of
        None \<Rightarrow> None
      | Some t \<Rightarrow> if follow (length \<pi>) (m t i) then Some (m t i AND PAGE_ADDR_MASK) else None)"

text \<open>
  The slots that the roots \<open>R\<close> own up to a depth: the lower half of each root, and all of the root \<open>K\<close> of the
  kernel.
\<close>

definition slots :: "u64 \<Rightarrow> u64 set \<Rightarrow> nat \<Rightarrow> (u64 \<times> nat list) set" where
  "slots K R n = {(r, \<pi>). r \<in> R \<and> length \<pi> \<le> n \<and> (\<forall>i \<in> set \<pi>. i < 512) \<and> (\<pi> \<noteq> [] \<longrightarrow> r \<noteq> K \<longrightarrow> last \<pi> < 256)}"

lemma slots_tail: "(r, i # \<pi>) \<in> slots K R (Suc n) \<Longrightarrow> (r, \<pi>) \<in> slots K R n"
  by (auto simp: slots_def split: if_splits)

lemma slots_mono: "x \<in> slots K R n \<Longrightarrow> n \<le> k \<Longrightarrow> x \<in> slots K R k"
  by (auto simp: slots_def)

lemma slots_tail3: "(r, i # \<pi>) \<in> slots K R 4 \<Longrightarrow> (r, \<pi>) \<in> slots K R 3"
  using slots_tail [of r i \<pi> K R 3] by (simp add: eval_nat_numeral)

lemma finite_slots: "finite R \<Longrightarrow> finite (slots K R n)"
  by (rule finite_subset [of _ "R \<times> {\<pi>. set \<pi> \<subseteq> {..<512} \<and> length \<pi> \<le> n}"])
    (auto simp: slots_def finite_lists_length_le)

definition tree_inj :: "u64 \<Rightarrow> u64 set \<Rightarrow> phys_memory \<Rightarrow> bool" where
  "tree_inj K R m \<longleftrightarrow>
     (\<forall>x \<in> slots K R 3. \<forall>y \<in> slots K R 3. \<forall>p. tab m (fst x) (snd x) = Some p \<longrightarrow> tab m (fst y) (snd y) = Some p \<longrightarrow> x = y)"

lemma tree_injD:
  "tree_inj K R m \<Longrightarrow> (r, \<pi>) \<in> slots K R 3 \<Longrightarrow> (r', \<pi>') \<in> slots K R 3 \<Longrightarrow> tab m r \<pi> = Some p \<Longrightarrow> tab m r' \<pi>' = Some p \<Longrightarrow>
   r = r' \<and> \<pi> = \<pi>'"
  unfolding tree_inj_def by fastforce

lemma tab_None: "tab m r \<pi> = None \<Longrightarrow> tab m r (\<rho> @ \<pi>) = None"
  by (induction \<rho>) simp_all

text \<open>A page that is no table can be overwritten.\<close>

lemma tab_other_page:
  assumes "\<And>r \<pi>. (r, \<pi>) \<in> slots K R 3 \<Longrightarrow> tab m r \<pi> \<noteq> Some q" and "(r, \<pi>) \<in> slots K R 4"
  shows "tab (m(q := f)) r \<pi> = tab m r \<pi>"
  using assms(2)
proof (induction \<pi>)
  case (Cons i \<pi>)
  have s: "(r, \<pi>) \<in> slots K R 3" using Cons.prems by (rule slots_tail3)
  then have "(r, \<pi>) \<in> slots K R 4" by (rule slots_mono) simp
  with Cons.IH assms(1) [OF s] show ?case by (auto split: option.split)
qed simp

text \<open>Writing one entry of a table affects the paths through it only.\<close>

lemma tab_write_other:
  assumes inj: "tree_inj K R m" and x: "(r0, \<pi>0) \<in> slots K R 3" "tab m r0 \<pi>0 = Some t"
    and y: "(r, \<pi>) \<in> slots K R 4" and n: "\<not> (r = r0 \<and> (\<exists>\<rho>. \<pi> = \<rho> @ i # \<pi>0))"
  shows "tab (m(t := (m t)(i := e))) r \<pi> = tab m r \<pi>"
  using y n
proof (induction \<pi>)
  case (Cons j \<pi>)
  have s: "(r, \<pi>) \<in> slots K R 3" using Cons.prems(1) by (rule slots_tail3)
  then have s4: "(r, \<pi>) \<in> slots K R 4" by (rule slots_mono) simp
  have "\<not> (r = r0 \<and> (\<exists>\<rho>. \<pi> = \<rho> @ i # \<pi>0))" using Cons.prems(2) by (metis append_Cons)
  note IH = Cons.IH [OF s4 this]
  show ?case
  proof (cases "tab m r \<pi>")
    case (Some p)
    have "\<not> (p = t \<and> j = i)" using tree_injD [OF inj s x(1) Some] x(2) Cons.prems(2) by (metis append_Nil)
    then have "(m(t := (m t)(i := e))) p j = m p j" by auto
    with Some show ?thesis by (simp add: IH del: fun_upd_apply)
  qed (simp add: IH del: fun_upd_apply)
qed simp

lemma tab_write_at:
  assumes inj: "tree_inj K R m" and x: "(r, \<pi>) \<in> slots K R 3" "tab m r \<pi> = Some t"
  shows "tab (m(t := (m t)(i := e))) r (i # \<pi>) = (if follow (length \<pi>) e then Some (e AND PAGE_ADDR_MASK) else None)"
proof -
  have "(r, \<pi>) \<in> slots K R 4" using x(1) by (rule slots_mono) simp
  moreover have "\<pi> \<noteq> \<rho> @ i # \<pi>" for \<rho> by (auto dest: arg_cong [where f = length])
  ultimately have "tab (m(t := (m t)(i := e))) r \<pi> = Some t"
    using tab_write_other [OF inj x, of r \<pi> i e] x(2) by (simp del: fun_upd_apply)
  then show ?thesis by (simp del: fun_upd_apply) simp
qed

lemma tab_below_empty:
  assumes "tab m r \<pi> = Some t" and "\<And>j. j < 512 \<Longrightarrow> \<not> page_walk_present (m t j)"
    and "\<rho> \<noteq> []" "\<forall>j \<in> set \<rho>. j < 512"
  shows "tab m r (\<rho> @ \<pi>) = None"
proof -
  obtain \<rho>' j where \<rho>: "\<rho> = \<rho>' @ [j]" using assms(3) by (metis rev_exhaust)
  have "j < 512" using assms(4) \<rho> by simp
  with assms(1,2) have "tab m r (j # \<pi>) = None" by (simp add: follow_def)
  from tab_None [OF this, of \<rho>'] show ?thesis by (simp add: \<rho>)
qed

section \<open>Counting the references of the trees\<close>

definition tree_refs :: "u64 \<Rightarrow> u64 set \<Rightarrow> phys_memory \<Rightarrow> u64 \<Rightarrow> nat" where
  "tree_refs K R m p = card {x \<in> slots K R 4. tab m (fst x) (snd x) = Some p}"

lemma tree_refs_pos:
  assumes "finite R" "(r, \<pi>) \<in> slots K R 4" "tab m r \<pi> = Some p"
  shows "0 < tree_refs K R m p"
  using assms finite_slots [of R K 4] unfolding tree_refs_def by (subst card_gt_0_iff) fastforce

lemma tree_refs_cong:
  "(\<And>r \<pi>. (r, \<pi>) \<in> slots K R 4 \<Longrightarrow> tab m' r \<pi> = tab m r \<pi>) \<Longrightarrow> tree_refs K R m' p = tree_refs K R m p"
  unfolding tree_refs_def by (rule arg_cong [where f = card]) auto

text \<open>One slot changes.\<close>

definition tops_same :: "u64 \<Rightarrow> u64 set \<Rightarrow> phys_memory \<Rightarrow> phys_memory \<Rightarrow> bool" where
  \<comment> \<open>the copies of the kernel's entries\<close>
  "tops_same K R m m' \<longleftrightarrow> (\<forall>r \<in> R. r \<noteq> K \<longrightarrow> (\<forall>i. 256 \<le> i \<longrightarrow> i < 512 \<longrightarrow> m' r i = m r i))"

definition trees_same :: "u64 \<Rightarrow> u64 set \<Rightarrow> phys_memory \<Rightarrow> phys_memory \<Rightarrow> bool" where
  "trees_same K R m m' \<longleftrightarrow> (\<forall>r \<pi>. (r, \<pi>) \<in> slots K R 4 \<longrightarrow> tab m' r \<pi> = tab m r \<pi>) \<and> tops_same K R m m'"

definition changes_at :: "u64 \<Rightarrow> u64 set \<Rightarrow> u64 \<Rightarrow> nat list \<Rightarrow> phys_memory \<Rightarrow> phys_memory \<Rightarrow> bool" where
  "changes_at K R r \<pi> m m' \<longleftrightarrow>
     (\<forall>r' \<pi>'. (r', \<pi>') \<in> slots K R 4 \<longrightarrow> (r', \<pi>') \<noteq> (r, \<pi>) \<longrightarrow> tab m' r' \<pi>' = tab m r' \<pi>') \<and> tops_same K R m m'"

lemma changes_atD: "changes_at K R r \<pi> m m' \<Longrightarrow> (r', \<pi>') \<in> slots K R 4 \<Longrightarrow> (r', \<pi>') \<noteq> (r, \<pi>) \<Longrightarrow> tab m' r' \<pi>' = tab m r' \<pi>'"
  by (auto simp: changes_at_def)

lemma tops_same_trans: "tops_same K R m m' \<Longrightarrow> tops_same K R m' m'' \<Longrightarrow> tops_same K R m m''"
  by (simp add: tops_same_def)

lemma tops_same_refl [simp]: "tops_same K R m m"
  by (simp add: tops_same_def)

lemma changes_at_same:
  "trees_same K R m m1 \<Longrightarrow> changes_at K R r \<pi> m1 m' \<Longrightarrow> changes_at K R r \<pi> m m'"
  "changes_at K R r \<pi> m m1 \<Longrightarrow> trees_same K R m1 m' \<Longrightarrow> changes_at K R r \<pi> m m'"
  unfolding changes_at_def trees_same_def using tops_same_trans [of K R m m1 m'] by simp_all

lemma trees_same_other_page:
  assumes "\<And>r \<pi>. (r, \<pi>) \<in> slots K R 3 \<Longrightarrow> tab m r \<pi> \<noteq> Some q"
  shows "trees_same K R m (m(q := f))"
proof -
  have "r \<noteq> q" if "r \<in> R" for r using assms [of r "[]"] that by (simp add: slots_def)
  then have "tops_same K R m (m(q := f))" by (auto simp: tops_same_def)
  then show ?thesis unfolding trees_same_def using tab_other_page [OF assms] by blast
qed

lemma tree_refs_change:
  assumes fin: "finite R" and x: "(r, \<pi>) \<in> slots K R 4" and ch: "changes_at K R r \<pi> m m'"
  shows "tree_refs K R m' p + of_bool (tab m r \<pi> = Some p) = tree_refs K R m p + of_bool (tab m' r \<pi> = Some p)"
proof -
  define A where "A = {x \<in> slots K R 4 - {(r, \<pi>)}. tab m (fst x) (snd x) = Some p}"
  have A': "A = {x \<in> slots K R 4 - {(r, \<pi>)}. tab m' (fst x) (snd x) = Some p}"
    unfolding A_def using changes_atD [OF ch] by (auto simp: prod_eq_iff)
  have fA: "finite A" using finite_slots [OF fin] by (simp add: A_def)
  have nA: "(r, \<pi>) \<notin> A" by (simp add: A_def)
  have "{x \<in> slots K R 4. tab m (fst x) (snd x) = Some p} = (if tab m r \<pi> = Some p then insert (r, \<pi>) A else A)"
    unfolding A_def using x by auto
  moreover have "{x \<in> slots K R 4. tab m' (fst x) (snd x) = Some p} = (if tab m' r \<pi> = Some p then insert (r, \<pi>) A else A)"
    unfolding A' using x by auto
  ultimately show ?thesis unfolding tree_refs_def using fA nA by simp
qed

section \<open>Page table entries\<close>

abbreviation masked :: "u64 \<Rightarrow> bool" where "masked p \<equiv> p AND PAGE_ADDR_MASK = p"

lemma masked_and [simp]: "masked (p AND PAGE_ADDR_MASK)"
  by (simp add: and.assoc)

lemma aligned_below_masked:
  assumes "phys_page_aligned p" and "unat p < 2 ^ 52"
  shows "masked p"
proof -
  have "p AND (PAGE_SIZE - 1) = 0" using assms(1) by (simp only: phys_page_aligned_def)
  then have 1: "p AND mask 12 = 0" by (simp add: mask_eq_exp_minus_1)
  have 2: "p AND mask 52 = p" using assms(2)
    by (simp only: word_unat_eq_iff unsigned_take_bit_eq take_bit_nat_eq_self flip: take_bit_eq_mask)
  have "PAGE_ADDR_MASK = mask 52 AND NOT (mask 12)" by (simp add: mask_eq_exp_minus_1)
  then have "p AND PAGE_ADDR_MASK = p AND NOT (mask 12)" using 2 by (metis and.assoc)
  also have "\<dots> = (p AND mask 12) OR (p AND NOT (mask 12))" by (simp add: 1)
  also have "\<dots> = p" by (metis and.right_neutral bit.conj_disj_distrib bit.disj_cancel_right)
  finally show ?thesis .
qed

lemma masked_low:
  assumes "masked p"
  shows "p AND 1 = 0" "p AND HUGE_PAGE_FLAG = 0"
proof -
  have "p AND c = p AND (PAGE_ADDR_MASK AND c)" for c by (subst assms [symmetric]) (simp only: and.assoc)
  from this [of 1] this [of HUGE_PAGE_FLAG] show "p AND 1 = 0" "p AND HUGE_PAGE_FLAG = 0" by simp_all
qed

lemma table_entry:
  assumes p: "masked p" and f: "fl AND PAGE_ADDR_MASK = 0" "fl AND 1 = 1" "fl AND HUGE_PAGE_FLAG = 0"
  shows "(p OR fl) AND PAGE_ADDR_MASK = p" "page_walk_present (p OR fl)" "(p OR fl) AND HUGE_PAGE_FLAG = 0"
  unfolding page_walk_present_def bit.conj_disj_distrib2 f masked_low [OF p] p by simp_all

lemma table_flags:
  fixes u :: bool
  defines "fl \<equiv> PAGE_PRESENT OR PAGE_WRITABLE OR (if u then PAGE_USER else 0)"
  shows "fl AND PAGE_ADDR_MASK = 0" "fl AND 1 = 1" "fl AND HUGE_PAGE_FLAG = 0"
  unfolding fl_def by (cases u; simp)+

lemma leaf_entry:
  fixes pa flags :: u64
  defines "e \<equiv> (pa AND PAGE_ADDR_MASK) OR PAGE_PRESENT OR (flags AND (PAGE_WRITABLE OR PAGE_USER OR PAGE_NX))"
  shows "e AND PAGE_ADDR_MASK = pa AND PAGE_ADDR_MASK" "page_walk_present e"
proof -
  have "(flags AND c) AND d = flags AND (c AND d)" for c d by (simp add: and.assoc)
  then have f: "(flags AND (PAGE_WRITABLE OR PAGE_USER OR PAGE_NX)) AND PAGE_ADDR_MASK = 0"
    "(flags AND (PAGE_WRITABLE OR PAGE_USER OR PAGE_NX)) AND 1 = 0" by simp_all
  have p: "(pa AND PAGE_ADDR_MASK) AND PAGE_ADDR_MASK = pa AND PAGE_ADDR_MASK" "(pa AND PAGE_ADDR_MASK) AND 1 = 0"
    by (simp_all add: and.assoc)
  have c: "PAGE_PRESENT AND PAGE_ADDR_MASK = 0" "PAGE_PRESENT AND 1 = 1" by simp_all
  show "e AND PAGE_ADDR_MASK = pa AND PAGE_ADDR_MASK" unfolding e_def bit.conj_disj_distrib2 f p c by simp
  have "e AND 1 = 1" unfolding e_def bit.conj_disj_distrib2 f p c by simp
  then show "page_walk_present e" by (simp add: page_walk_present_def)
qed

section \<open>The invariant of the page tables\<close>

definition shares_kernel :: "u64 \<Rightarrow> u64 set \<Rightarrow> phys_memory \<Rightarrow> bool" where
  "shares_kernel K R m \<longleftrightarrow> (\<forall>r \<in> R. \<forall>i. 256 \<le> i \<longrightarrow> i < 512 \<longrightarrow> page_walk_present (m r i) \<longrightarrow> m r i = m K i)"

text \<open>
  No table has two parents, the upper halves of all roots are the kernel's, and the count of a managed page
  is the number of slots that refer to it plus \<open>ext\<close>, the references others hold.
\<close>

definition pt_inv :: "u64 \<Rightarrow> u64 set \<Rightarrow> (u64 \<Rightarrow> nat) \<Rightarrow> phys_state \<Rightarrow> bool" where
  "pt_inv K R ext s \<longleftrightarrow>
     phys_wf s \<and> unat (tracked_phys_limit s) \<le> 2 ^ 52 \<and> finite R \<and> K \<in> R \<and> (\<forall>r \<in> R. masked r) \<and>
     tree_inj K R (phys_words s) \<and> shares_kernel K R (phys_words s) \<and>
     (\<forall>p. phys_page_is_managed p s \<longrightarrow> refs_at s p = ext p + tree_refs K R (phys_words s) p)"

lemma pt_invD:
  assumes "pt_inv K R ext s"
  shows "phys_wf s" "unat (tracked_phys_limit s) \<le> 2 ^ 52" "finite R" "K \<in> R" "r \<in> R \<Longrightarrow> masked r"
    "tree_inj K R (phys_words s)" "shares_kernel K R (phys_words s)"
    "phys_page_is_managed p s \<Longrightarrow> refs_at s p = ext p + tree_refs K R (phys_words s) p"
  using assms unfolding pt_inv_def by blast+

lemma managed_masked:
  assumes "pt_inv K R ext s" "phys_page_is_managed p s"
  shows "masked p"
proof -
  have "unat p < unat (tracked_phys_limit s)" using assms(2) by (simp add: phys_page_is_managed_def word_less_nat_alt)
  with pt_invD(2) [OF assms(1)] have "unat p < 2 ^ 52" by linarith
  with managed_aligned [OF assms(2)] show ?thesis by (rule aligned_below_masked)
qed

lemma words_frame [simp]:
  "phys_wf (s\<lparr>phys_words := m\<rparr>) \<longleftrightarrow> phys_wf s"
  "phys_page_is_managed p (s\<lparr>phys_words := m\<rparr>) \<longleftrightarrow> phys_page_is_managed p s"
  "refs_at (s\<lparr>phys_words := m\<rparr>) p = refs_at s p"
  by (simp_all add: phys_wf_def phys_page_is_managed_def refs_at_def tracked_page_count_def bitmap_test_def)

lemma write_entry_frame [simp]:
  "phys_wf (write_entry t i e s) \<longleftrightarrow> phys_wf s"
  "phys_page_is_managed p (write_entry t i e s) \<longleftrightarrow> phys_page_is_managed p s"
  "refs_at (write_entry t i e s) p = refs_at s p"
  "tracked_phys_limit (write_entry t i e s) = tracked_phys_limit s"
  by (simp_all add: write_entry_def)

lemma write_entry_words: "masked t \<Longrightarrow> phys_words (write_entry t i e s) = (phys_words s)(t := (phys_words s t)(i := e))"
  by (simp add: write_entry_def table_write_def page_table_def)

lemma tab_masked: "(r, \<pi>) \<in> slots K R n \<Longrightarrow> (\<And>r. r \<in> R \<Longrightarrow> masked r) \<Longrightarrow> tab m r \<pi> = Some t \<Longrightarrow> masked t"
  by (cases \<pi>) (auto simp: slots_def split: option.splits if_splits)

text \<open>A managed page without references is nowhere in the trees.\<close>

lemma unreferenced_not_in_tree:
  assumes inv: "pt_inv K R ext s" and p: "phys_page_is_managed p s" "refs_at s p = 0" and x: "(r, \<pi>) \<in> slots K R 4"
  shows "tab (phys_words s) r \<pi> \<noteq> Some p"
  using tree_refs_pos [OF pt_invD(3) [OF inv] x, of "phys_words s" p] pt_invD(8) [OF inv p(1)] p(2) by auto

lemma tree_inj_change:
  assumes inj: "tree_inj K R m" and ch: "changes_at K R r \<pi> m m'"
    and new: "\<And>p r' \<pi>'. tab m' r \<pi> = Some p \<Longrightarrow> (r', \<pi>') \<in> slots K R 3 \<Longrightarrow> length \<pi> \<le> 3 \<Longrightarrow> tab m r' \<pi>' \<noteq> Some p"
  shows "tree_inj K R m'"
  unfolding tree_inj_def
proof (intro ballI allI impI)
  fix x y p
  assume xy: "x \<in> slots K R 3" "y \<in> slots K R 3" "tab m' (fst x) (snd x) = Some p" "tab m' (fst y) (snd y) = Some p"
  obtain r1 \<pi>1 r2 \<pi>2 where eq: "x = (r1, \<pi>1)" "y = (r2, \<pi>2)" by (cases x; cases y)
  have s4: "(r1, \<pi>1) \<in> slots K R 4" "(r2, \<pi>2) \<in> slots K R 4" using xy(1,2) unfolding eq by (auto intro: slots_mono)
  have len: "length \<pi>1 \<le> 3" "length \<pi>2 \<le> 3" using xy(1,2) unfolding eq by (auto simp: slots_def)
  have old: "tab m r1 \<pi>1 = Some p \<or> (r1, \<pi>1) = (r, \<pi>)" "tab m r2 \<pi>2 = Some p \<or> (r2, \<pi>2) = (r, \<pi>)"
    using changes_atD [OF ch] s4 xy(3,4) unfolding eq by fastforce+
  show "x = y"
  proof (cases "(r1, \<pi>1) = (r, \<pi>) \<or> (r2, \<pi>2) = (r, \<pi>)")
    case True
    then have "tab m' r \<pi> = Some p" "length \<pi> \<le> 3" using xy(3,4) len unfolding eq by auto
    with new [of p r1 \<pi>1] new [of p r2 \<pi>2] xy(1,2) old show ?thesis unfolding eq by blast
  next
    case False
    with old have "tab m r1 \<pi>1 = Some p" "tab m r2 \<pi>2 = Some p" by blast+
    with tree_injD [OF inj] xy(1,2) show ?thesis unfolding eq by blast
  qed
qed

lemma root_slot: "r \<in> R \<Longrightarrow> (r, []) \<in> slots K R 3"
  by (simp add: slots_def)

lemma shares_kernel_other_page:
  assumes "shares_kernel K R m" "K \<in> R" "\<And>r \<pi>. (r, \<pi>) \<in> slots K R 3 \<Longrightarrow> tab m r \<pi> \<noteq> Some q"
  shows "shares_kernel K R (m(q := f))"
proof -
  have "r \<noteq> q" if "r \<in> R" for r using assms(3) [OF root_slot [OF that]] by simp
  with assms(1,2) show ?thesis unfolding shares_kernel_def by auto
qed

lemma shares_kernel_write:
  assumes sh: "shares_kernel K R m" and K: "K \<in> R" and inj: "tree_inj K R m"
    and x: "(r, \<pi>) \<in> slots K R 3" "tab m r \<pi> = Some t" "(r, i # \<pi>) \<in> slots K R 4"
    and top: "\<pi> = [] \<Longrightarrow> 256 \<le> i \<Longrightarrow> \<not> page_walk_present (m t i)"
  shows "shares_kernel K R (m(t := (m t)(i := e)))"
proof (cases "\<pi> = []")
  case False
  then have "r' \<noteq> t" if "r' \<in> R" for r' using tree_injD [OF inj x(1) root_slot [OF that] x(2)] by auto
  with sh K show ?thesis unfolding shares_kernel_def by auto
next
  case True
  then have t: "t = r" using x(2) by simp
  have "r = K \<or> i < 256" using x(3) True by (auto simp: slots_def)
  with sh top [OF True] t show ?thesis unfolding shares_kernel_def by (auto split: if_splits)
qed

section \<open>Steps on the tables\<close>

lemma pt_inv_same_words:
  assumes inv: "pt_inv K R ext s" and s': "phys_wf s'" "same_managed s s'" "phys_words s' = phys_words s"
    and refs: "\<And>p. phys_page_is_managed p s \<Longrightarrow> refs_at s' p = ext' p + tree_refs K R (phys_words s) p"
  shows "pt_inv K R ext' s'"
  using pt_invD [OF inv] s' refs unfolding pt_inv_def by (simp add: same_managed_def)

text \<open>Overwriting a page that is no table, for instance one that was just freed or allocated.\<close>

lemma pt_inv_other_page:
  assumes inv: "pt_inv K R ext s" and q: "\<And>r \<pi>. (r, \<pi>) \<in> slots K R 3 \<Longrightarrow> tab (phys_words s) r \<pi> \<noteq> Some q"
  shows "pt_inv K R ext (s\<lparr>phys_words := (phys_words s)(q := f)\<rparr>)"
proof -
  note I = pt_invD [OF inv]
  let ?m' = "(phys_words s)(q := f)"
  have same: "tab ?m' r \<pi> = tab (phys_words s) r \<pi>" if "(r, \<pi>) \<in> slots K R 4" for r \<pi>
    by (rule tab_other_page [OF q that])
  have "tab ?m' r \<pi> = tab (phys_words s) r \<pi>" if "(r, \<pi>) \<in> slots K R 3" for r \<pi>
    using same slots_mono [OF that] by (simp del: fun_upd_apply)
  then have inj: "tree_inj K R ?m'" using I(6) unfolding tree_inj_def by (simp add: split_paired_all del: fun_upd_apply)
  have sh: "shares_kernel K R ?m'" by (rule shares_kernel_other_page [OF I(7,4) q])
  have "tree_refs K R ?m' p = tree_refs K R (phys_words s) p" for p by (rule tree_refs_cong [OF same])
  with inj sh I(1-5,8) show ?thesis unfolding pt_inv_def by (simp del: fun_upd_apply)
qed

lemma changes_write:
  assumes inj: "tree_inj K R m" and x: "(r, \<pi>) \<in> slots K R 3" "tab m r \<pi> = Some t" "(r, i # \<pi>) \<in> slots K R 4"
    and below: "\<And>\<rho>. \<rho> \<noteq> [] \<Longrightarrow> (r, \<rho> @ i # \<pi>) \<in> slots K R 4 \<Longrightarrow>
      tab m r (\<rho> @ i # \<pi>) = None \<and> tab (m(t := (m t)(i := e))) r (\<rho> @ i # \<pi>) = None"
  shows "changes_at K R r (i # \<pi>) m (m(t := (m t)(i := e)))"
  unfolding changes_at_def
proof (intro conjI allI impI)
  show "tops_same K R m (m(t := (m t)(i := e)))" unfolding tops_same_def
  proof (intro ballI impI allI)
    fix r' :: u64 and j :: nat assume r': "r' \<in> R" "r' \<noteq> K" "256 \<le> j"
    have "r' = r \<and> \<pi> = []" if "r' = t" using tree_injD [OF inj x(1) root_slot [OF r'(1)] x(2)] that by auto
    then have "\<not> (r' = t \<and> j = i)" using x(3) r'(2,3) by (auto simp: slots_def)
    then show "(m(t := (m t)(i := e))) r' j = m r' j" by auto
  qed
next
  fix r' \<pi>' assume y: "(r', \<pi>') \<in> slots K R 4" "(r', \<pi>') \<noteq> (r, i # \<pi>)"
  show "tab (m(t := (m t)(i := e))) r' \<pi>' = tab m r' \<pi>'"
  proof (cases "r' = r \<and> (\<exists>\<rho>. \<pi>' = \<rho> @ i # \<pi>)")
    case True
    then obtain \<rho> where "r' = r" "\<pi>' = \<rho> @ i # \<pi>" by blast
    with y below [of \<rho>] show ?thesis by (cases "\<rho> = []") (simp_all del: fun_upd_apply)
  next
    case False
    then show ?thesis by (rule tab_write_other [OF inj x(1,2) y(1)])
  qed
qed

lemma slots_idx: "(r, \<rho> @ \<pi>) \<in> slots K R n \<Longrightarrow> \<forall>j \<in> set \<rho>. j < 512"
  by (auto simp: slots_def)

lemma slots_len: "(r, \<pi>) \<in> slots K R n \<Longrightarrow> length \<pi> \<le> n"
  by (auto simp: slots_def)

text \<open>An empty entry gets a value: a frame at the last level, or an empty table that nothing refers to.\<close>

lemma pt_attach:
  assumes inv: "pt_inv K R ext s" and x: "(r, \<pi>) \<in> slots K R 3" "tab (phys_words s) r \<pi> = Some t" "(r, i # \<pi>) \<in> slots K R 4"
    and free: "\<not> page_walk_present (phys_words s t i)"
    and e: "follow (length \<pi>) e" "e AND PAGE_ADDR_MASK = f"
    and s1: "phys_wf s1" "same_managed s s1" "phys_words s1 = phys_words s"
    and refs: "\<And>p. phys_page_is_managed p s \<Longrightarrow> refs_at s1 p = ext' p + tree_refs K R (phys_words s) p + of_bool (p = f)"
    and new: "length \<pi> \<le> 2 \<Longrightarrow> (\<forall>j < 512. \<not> page_walk_present (phys_words s f j)) \<and>
      (\<forall>r \<pi>. (r, \<pi>) \<in> slots K R 3 \<longrightarrow> tab (phys_words s) r \<pi> \<noteq> Some f)"
  shows "pt_inv K R ext' (write_entry t i e s1)"
    and "changes_at K R r (i # \<pi>) (phys_words s) (phys_words (write_entry t i e s1))"
    and "tab (phys_words (write_entry t i e s1)) r (i # \<pi>) = Some f"
proof -
  note I = pt_invD [OF inv]
  let ?m = "phys_words s" and ?m' = "(phys_words s)(t := (phys_words s t)(i := e))"
  have mt: "masked t" by (rule tab_masked [OF x(1) I(5) x(2)])
  have w: "phys_words (write_entry t i e s1) = ?m'" using write_entry_words [OF mt, of i e s1] s1(3) by simp
  have at: "tab ?m' r (i # \<pi>) = Some f" using tab_write_at [OF I(6) x(1,2), of i e] e by (simp del: tab.simps fun_upd_apply)
  have none: "tab ?m r (i # \<pi>) = None" using x(2) free by (simp add: follow_def)
  have below: "tab ?m r (\<rho> @ i # \<pi>) = None \<and> tab ?m' r (\<rho> @ i # \<pi>) = None"
    if \<rho>: "\<rho> \<noteq> []" "(r, \<rho> @ i # \<pi>) \<in> slots K R 4" for \<rho>
  proof
    show "tab ?m r (\<rho> @ i # \<pi>) = None" by (rule tab_None [OF none])
    have "length \<pi> \<le> 2" using slots_len [OF \<rho>(2)] \<rho>(1) by (cases \<rho>) auto
    note new = new [OF this]
    have "f \<noteq> t" using new x(1,2) by blast
    then have "\<And>j. j < 512 \<Longrightarrow> \<not> page_walk_present (?m' f j)" using new by simp
    from tab_below_empty [OF at this \<rho>(1) slots_idx [OF \<rho>(2)]] show "tab ?m' r (\<rho> @ i # \<pi>) = None" .
  qed
  have ch: "changes_at K R r (i # \<pi>) ?m ?m'" by (rule changes_write [OF I(6) x below])
  then show "changes_at K R r (i # \<pi>) (phys_words s) (phys_words (write_entry t i e s1))" unfolding w .
  show "tab (phys_words (write_entry t i e s1)) r (i # \<pi>) = Some f" unfolding w by (rule at)
  have inj: "tree_inj K R ?m'"
    by (rule tree_inj_change [OF I(6) ch]) (use at new in \<open>simp del: tab.simps fun_upd_apply\<close>)
  have sh: "shares_kernel K R ?m'" by (rule shares_kernel_write [OF I(7,4,6) x]) (use free in simp)
  have "tree_refs K R ?m' p = tree_refs K R ?m p + of_bool (p = f)" for p
    using tree_refs_change [OF I(3) x(3) ch, of p] at none by (auto simp del: tab.simps fun_upd_apply)
  with inj sh refs s1(1,2) I(2-5) show "pt_inv K R ext' (write_entry t i e s1)"
    unfolding pt_inv_def w by (simp add: same_managed_def del: fun_upd_apply)
qed

text \<open>An entry is cleared and the reference it held is dropped; a table has to be empty for this.\<close>

lemma pt_detach:
  assumes inv: "pt_inv K R ext s" and x: "(r, \<pi>) \<in> slots K R 3" "tab (phys_words s) r \<pi> = Some t" "(r, i # \<pi>) \<in> slots K R 4"
    and u: "tab (phys_words s) r (i # \<pi>) = Some u"
    and empty: "length \<pi> \<le> 2 \<Longrightarrow> \<forall>j < 512. \<not> page_walk_present (phys_words s u j)"
    and top: "\<pi> = [] \<Longrightarrow> i < 256"
  shows "\<exists>s'. put_if_managed u (write_entry t i 0 s) = Some s' \<and> pt_inv K R ext s' \<and> same_managed s s' \<and>
    changes_at K R r (i # \<pi>) (phys_words s) (phys_words s') \<and> tab (phys_words s') r (i # \<pi>) = None"
proof -
  note I = pt_invD [OF inv]
  let ?m = "phys_words s" and ?m' = "(phys_words s)(t := (phys_words s t)(i := 0))" and ?s1 = "write_entry t i 0 s"
  have mt: "masked t" by (rule tab_masked [OF x(1) I(5) x(2)])
  have w: "phys_words ?s1 = ?m'" by (rule write_entry_words [OF mt])
  have nf: "\<not> follow d 0" for d by (simp add: follow_def page_walk_present_def)
  have at: "tab ?m' r (i # \<pi>) = None" using tab_write_at [OF I(6) x(1,2), of i 0] nf by (simp del: tab.simps fun_upd_apply)
  have below: "tab ?m r (\<rho> @ i # \<pi>) = None \<and> tab ?m' r (\<rho> @ i # \<pi>) = None"
    if \<rho>: "\<rho> \<noteq> []" "(r, \<rho> @ i # \<pi>) \<in> slots K R 4" for \<rho>
  proof
    show "tab ?m' r (\<rho> @ i # \<pi>) = None" by (rule tab_None [OF at])
    have "length \<pi> \<le> 2" using slots_len [OF \<rho>(2)] \<rho>(1) by (cases \<rho>) auto
    with empty have "\<And>j. j < 512 \<Longrightarrow> \<not> page_walk_present (?m u j)" by simp
    from tab_below_empty [OF u this \<rho>(1) slots_idx [OF \<rho>(2)]] show "tab ?m r (\<rho> @ i # \<pi>) = None" .
  qed
  have ch: "changes_at K R r (i # \<pi>) ?m ?m'" by (rule changes_write [OF I(6) x below])
  have inj: "tree_inj K R ?m'" by (rule tree_inj_change [OF I(6) ch]) (use at in \<open>simp del: tab.simps fun_upd_apply\<close>)
  have sh: "shares_kernel K R ?m'" by (rule shares_kernel_write [OF I(7,4,6) x]) (use top in simp)
  have cnt: "tree_refs K R ?m p = tree_refs K R ?m' p + of_bool (p = u)" for p
    using tree_refs_change [OF I(3) x(3) ch, of p] at u by (auto simp del: tab.simps fun_upd_apply)
  have base: "pt_inv K R (\<lambda>p. ext p + of_bool (p = u)) ?s1"
    unfolding pt_inv_def w using inj sh I(1-5,8) cnt by (simp add: add_ac del: fun_upd_apply)
  note B = pt_invD [OF base]
  show ?thesis
  proof (cases "phys_page_is_managed u ?s1")
    case False
    then have "put_if_managed u ?s1 = Some ?s1" by (simp add: put_if_managed_def)
    moreover have "pt_inv K R ext ?s1"
      by (rule pt_inv_same_words [OF base B(1)]) (use False B(8) in auto)
    moreover have "same_managed s ?s1" by (simp add: same_managed_def)
    ultimately show ?thesis using ch at unfolding w [symmetric] by blast
  next
    case True
    have "0 < refs_at ?s1 u" using B(8) [OF True] by simp
    from put_at [OF B(1) True this] obtain s' where
      s': "phys_page_put u ?s1 = Some s'" "phys_wf s'" "same_managed ?s1 s'"
        "phys_words s' = (if refs_at ?s1 u = 1 then ?m'(u := (\<lambda>_. 0)) else ?m')"
        "\<And>q. phys_page_is_managed q ?s1 \<Longrightarrow> refs_at s' q + of_bool (q = u) = refs_at ?s1 q" unfolding w by blast
    let ?s2 = "s'\<lparr>phys_words := ?m'\<rparr>"
    have inv2: "pt_inv K R ext ?s2"
    proof (rule pt_inv_same_words [OF base])
      show "phys_wf ?s2" "phys_words ?s2 = phys_words ?s1" using s'(2) w by simp_all
      show "same_managed ?s1 ?s2" using s'(3) by (simp add: same_managed_def)
      show "refs_at ?s2 p = ext p + tree_refs K R (phys_words ?s1) p" if "phys_page_is_managed p ?s1" for p
        using s'(5) [OF that] B(8) [OF that] by simp
    qed
    have sm: "same_managed s s'" using s'(3) by (simp add: same_managed_def)
    show ?thesis
    proof (cases "refs_at ?s1 u = 1")
      case one: True
      have m2: "phys_page_is_managed u ?s2" "refs_at ?s2 u = 0" using s'(3) s'(5) [OF True] True one by (simp_all add: same_managed_def)
      have q: "tab ?m' r' \<pi>' \<noteq> Some u" if "(r', \<pi>') \<in> slots K R 3" for r' \<pi>'
        using unreferenced_not_in_tree [OF inv2 m2, of r' \<pi>'] slots_mono [OF that, of 4] by (simp del: fun_upd_apply)
      have q2: "\<And>r' \<pi>'. (r', \<pi>') \<in> slots K R 3 \<Longrightarrow> tab (phys_words ?s2) r' \<pi>' \<noteq> Some u" using q by simp
      have w': "phys_words s' = ?m'(u := (\<lambda>_. 0))" using s'(4) one by simp
      have eq: "?s2\<lparr>phys_words := (phys_words ?s2)(u := (\<lambda>_. 0))\<rparr> = s'" using w' by simp
      have inv': "pt_inv K R ext (?s2\<lparr>phys_words := (phys_words ?s2)(u := (\<lambda>_. 0))\<rparr>)"
        by (rule pt_inv_other_page(1) [OF inv2 q2])
      have same: "tab (phys_words s') r' \<pi>' = tab ?m' r' \<pi>'" if "(r', \<pi>') \<in> slots K R 4" for r' \<pi>'
        unfolding w' by (rule tab_other_page [OF q that])
      have "changes_at K R r (i # \<pi>) ?m (phys_words s')"
        unfolding w' by (rule changes_at_same(2) [OF ch trees_same_other_page [OF q]])
      moreover have "tab (phys_words s') r (i # \<pi>) = None" using same [OF x(3)] at by simp
      moreover have "put_if_managed u ?s1 = Some s'" using True s'(1) by (simp only: put_if_managed_def if_True)
      ultimately show ?thesis using inv' sm unfolding eq by blast
    next
      case False
      then have "phys_words s' = ?m'" using s'(4) by simp
      moreover from this have "?s2 = s'" by simp
      moreover have "put_if_managed u ?s1 = Some s'" using True s'(1) by (simp only: put_if_managed_def if_True)
      ultimately show ?thesis using inv2 sm ch at by metis
    qed
  qed
qed

section \<open>Walks\<close>

definition vpath :: "u64 \<Rightarrow> nat list" where
  "vpath va = [level_index 12 va, level_index 21 va, level_index 30 va, level_index 39 va]"

lemma level_index_less: "level_index k va < 512"
proof -
  have "drop_bit k va AND 0x1ff = take_bit 9 (drop_bit k va)" by (simp add: take_bit_eq_mask mask_eq_exp_minus_1)
  then have "level_index k va = take_bit 9 (unat (drop_bit k va))" by (simp add: level_index_def unsigned_take_bit_eq)
  then show ?thesis using take_bit_nat_less_exp [of 9] by simp
qed

lemma page_table_masked: "masked t \<Longrightarrow> page_table t m = m t"
  by (simp add: page_table_def)

lemma walk_tab:
  assumes "masked r"
  shows "walk_to_pte r va m =
     (case tab m r (tl (vpath va)) of
        None \<Rightarrow> None
      | Some pt \<Rightarrow> Some \<lparr>w_pml4 = r, w_pdpt = the (tab m r [level_index 39 va]),
          w_pd = the (tab m r [level_index 30 va, level_index 39 va]), w_pt = pt,
          pml4_index = level_index 39 va, pdpt_index = level_index 30 va, pd_index = level_index 21 va, pt_index = level_index 12 va\<rparr>)"
  unfolding walk_to_pte_def vpath_def Let_def by (simp add: page_table_masked assms follow_def)

lemma tab_leaf:
  assumes "masked r"
  shows "tab m r (vpath va) =
     (case walk_to_pte r va m of
        None \<Rightarrow> None
      | Some w \<Rightarrow> if page_walk_present (pte w m) then Some (pte w m AND PAGE_ADDR_MASK) else None)"
  unfolding walk_tab [OF assms] pte_def vpath_def
  by (auto simp: page_table_masked follow_def split: option.split)

lemma translate_tab:
  "masked r \<Longrightarrow> translate r va m =
     (case tab m r (vpath va) of None \<Rightarrow> UINT64_MAX | Some f \<Rightarrow> f OR (va AND (PAGE_SIZE - 1)))"
  unfolding translate_def tab_leaf by (simp split: option.split)

definition leaves_same :: "u64 \<Rightarrow> u64 set \<Rightarrow> phys_memory \<Rightarrow> phys_memory \<Rightarrow> bool" where
  "leaves_same K R m m' \<longleftrightarrow>
     (\<forall>r \<pi>. (r, \<pi>) \<in> slots K R 4 \<longrightarrow> length \<pi> = 4 \<longrightarrow> tab m' r \<pi> = tab m r \<pi>) \<and> tops_same K R m m'"

lemma leaves_same_trans: "leaves_same K R m m' \<Longrightarrow> leaves_same K R m' m'' \<Longrightarrow> leaves_same K R m m''"
  using tops_same_trans [of K R m m' m''] by (simp add: leaves_same_def)

lemma leaves_same_change: "changes_at K R r \<pi> m m' \<Longrightarrow> length \<pi> \<le> 3 \<Longrightarrow> leaves_same K R m m'"
  unfolding leaves_same_def changes_at_def by fastforce

lemma ensure_entry_spec:
  assumes inv: "pt_inv K R ext s" and x: "(r, \<pi>) \<in> slots K R 3" "tab (phys_words s) r \<pi> = Some t" "(r, i # \<pi>) \<in> slots K R 4"
    and len: "length \<pi> \<le> 2" and huge: "length \<pi> = 2 \<Longrightarrow> \<not> (page_walk_present (phys_words s t i) \<and> phys_words s t i AND HUGE_PAGE_FLAG \<noteq> 0)"
    and fl: "fl AND PAGE_ADDR_MASK = 0" "fl AND 1 = 1" "fl AND HUGE_PAGE_FLAG = 0"
    and res: "ensure_entry t i fl s = Some s'"
  shows "pt_inv K R ext s'" "same_managed s s'" "changes_at K R r (i # \<pi>) (phys_words s) (phys_words s')"
    "tab (phys_words s') r (i # \<pi>) = Some (page_table t (phys_words s') i AND PAGE_ADDR_MASK)"
proof -
  note I = pt_invD [OF inv]
  have mt: "masked t" by (rule tab_masked [OF x(1) I(5) x(2)])
  note res' = res [unfolded ensure_entry_def page_table_masked [OF mt]]
  have "pt_inv K R ext s' \<and> same_managed s s' \<and> changes_at K R r (i # \<pi>) (phys_words s) (phys_words s') \<and>
    tab (phys_words s') r (i # \<pi>) = Some (page_table t (phys_words s') i AND PAGE_ADDR_MASK)"
  proof (cases "page_walk_present (phys_words s t i)")
    case True
    with res' have "s' = s" by simp
    with True huge x(2) inv show ?thesis by (auto simp: changes_at_def follow_def page_table_masked [OF mt])
  next
    case False
    with res' obtain p s1 where al: "phys_alloc_page s = Some (p, s1)"
      and s': "s' = write_entry t i (p OR fl) (s1\<lparr>phys_words := (phys_words s1)(p AND PAGE_ADDR_MASK := (\<lambda>_. 0))\<rparr>)"
      by (auto simp: allocate_page_table_def split: option.splits)
    note A = alloc_at [OF I(1) al]
    have mp: "masked p" by (rule managed_masked [OF inv A(1)])
    have fresh: "tab (phys_words s) r' \<pi>' \<noteq> Some p" if "(r', \<pi>') \<in> slots K R 3" for r' \<pi>'
      using unreferenced_not_in_tree [OF inv A(1,2), of r' \<pi>'] slots_mono [OF that] by simp
    let ?z = "(phys_words s)(p := (\<lambda>_. 0))"
    let ?s0 = "s\<lparr>phys_words := ?z\<rparr>" and ?s1 = "s1\<lparr>phys_words := ?z\<rparr>"
    have inv0: "pt_inv K R ext ?s0" by (rule pt_inv_other_page [OF inv fresh])
    have z: "tab ?z r' \<pi>' = tab (phys_words s) r' \<pi>'" if "(r', \<pi>') \<in> slots K R 4" for r' \<pi>'
      by (rule tab_other_page [OF fresh that])
    have tp: "t \<noteq> p" using fresh [OF x(1)] x(2) by auto
    have tz: "tab (phys_words ?s0) r \<pi> = Some t" using z [OF slots_mono [OF x(1), of 4]] x(2) by simp
    have s'': "s' = write_entry t i (p OR fl) ?s1" using s' A(5) mp by simp
    have fz: "\<not> page_walk_present (phys_words ?s0 t i)" using False tp by simp
    have fo: "follow (length \<pi>) (p OR fl)" using table_entry [OF mp fl] by (simp add: follow_def)
    have refs: "refs_at ?s1 q = ext q + tree_refs K R (phys_words ?s0) q + of_bool (q = p)" if q: "phys_page_is_managed q ?s0" for q
      using A(6) [of q] q I(8) [of q] tree_refs_cong [OF z] by (simp del: fun_upd_apply)
    have new: "(\<forall>j < 512. \<not> page_walk_present (phys_words ?s0 p j)) \<and>
      (\<forall>r \<pi>. (r, \<pi>) \<in> slots K R 3 \<longrightarrow> tab (phys_words ?s0) r \<pi> \<noteq> Some p)"
      using fresh z slots_mono [of _ K R 3 4] by (simp add: page_walk_present_def del: fun_upd_apply) simp
    have wf1: "phys_wf ?s1" "same_managed ?s0 ?s1" "phys_words ?s1 = phys_words ?s0" using A(3,4) by (simp_all add: same_managed_def)
    note T = pt_attach [OF inv0 x(1) tz x(3) fz fo table_entry(1) [OF mp fl] wf1 refs new, folded s'']
    have "trees_same K R (phys_words s) ?z" by (rule trees_same_other_page [OF fresh])
    then have "changes_at K R r (i # \<pi>) (phys_words s) (phys_words s')" by (rule changes_at_same(1)) (use T(2) in simp)
    moreover have "same_managed s s'" using A(4) by (simp add: s'' same_managed_def)
    moreover have "page_table t (phys_words s') i AND PAGE_ADDR_MASK = p"
      unfolding page_table_masked [OF mt] s'' write_entry_words [OF mt] using table_entry(1) [OF mp fl] by simp
    ultimately show ?thesis using T(1,3) by simp
  qed
  then show "pt_inv K R ext s'" "same_managed s s'" "changes_at K R r (i # \<pi>) (phys_words s) (phys_words s')"
    "tab (phys_words s') r (i # \<pi>) = Some (page_table t (phys_words s') i AND PAGE_ADDR_MASK)" by blast+
qed

text \<open>The slots of a walk that a root owns.\<close>

definition owns :: "u64 \<Rightarrow> u64 set \<Rightarrow> u64 \<Rightarrow> u64 \<Rightarrow> bool" where
  "owns K R r va \<longleftrightarrow> r \<in> R \<and> (r = K \<or> level_index 39 va < 256)"

lemma walk_slots:
  assumes "owns K R r va"
  shows "(r, []) \<in> slots K R 3" "(r, [level_index 39 va]) \<in> slots K R 3"
    "(r, [level_index 30 va, level_index 39 va]) \<in> slots K R 3" "(r, tl (vpath va)) \<in> slots K R 3"
    "(r, [level_index 39 va]) \<in> slots K R 4" "(r, [level_index 30 va, level_index 39 va]) \<in> slots K R 4"
    "(r, tl (vpath va)) \<in> slots K R 4" "(r, vpath va) \<in> slots K R 4"
  using assms level_index_less [of _ va] by (auto simp: owns_def slots_def vpath_def)

lemma ensure_page_table_spec:
  assumes inv: "pt_inv K R ext s" and own: "owns K R r va" and res: "ensure_page_table r va user s = (wo, s')"
  shows "pt_inv K R ext s'" "same_managed s s'" "leaves_same K R (phys_words s) (phys_words s')"
    "wo = Some w \<Longrightarrow> walk_to_pte r va (phys_words s') = Some w"
proof -
  define fl where "fl = PAGE_PRESENT OR PAGE_WRITABLE OR (if user then PAGE_USER else 0)"
  note fl = table_flags [where u = user, folded fl_def]
  let ?i4 = "level_index 39 va" and ?i3 = "level_index 30 va" and ?i2 = "level_index 21 va"
  note sl = walk_slots [OF own]
  have mr: "masked r" using own pt_invD(5) [OF inv] by (simp add: owns_def)
  note res = res [unfolded ensure_page_table_def Let_def, folded fl_def]
  have sl4: "(r, [?i2, ?i3, ?i4]) \<in> slots K R 3" "(r, [?i2, ?i3, ?i4]) \<in> slots K R 4" using sl(4,7) by (simp_all add: vpath_def)
  have refl: "leaves_same K R m m" for m by (simp add: leaves_same_def)
  have "pt_inv K R ext s' \<and> same_managed s s' \<and> leaves_same K R (phys_words s) (phys_words s') \<and>
    (\<forall>w. wo = Some w \<longrightarrow> walk_to_pte r va (phys_words s') = Some w)"
  proof (cases "ensure_entry r ?i4 fl s")
    case None
    with res inv refl show ?thesis by auto
  next
    case (Some s1)
    let ?pdpt = "page_table r (phys_words s1) ?i4 AND PAGE_ADDR_MASK"
    have t0: "tab (phys_words s) r [] = Some r" by simp
    have "length ([] :: nat list) \<le> 2" "length ([] :: nat list) \<noteq> 2" by simp_all
    note E1 = ensure_entry_spec [OF inv sl(1) t0 sl(5) this(1) notE [OF this(2)] fl Some]
    note L1 = leaves_same_change [OF E1(3)]
    show ?thesis
    proof (cases "ensure_entry ?pdpt ?i3 fl s1")
      case None
      with res Some have "wo = None" "s' = s1" by auto
      with E1 L1 show ?thesis by simp
    next
      case S2: (Some s2)
      let ?pd = "page_table ?pdpt (phys_words s2) ?i3 AND PAGE_ADDR_MASK"
      have "length [?i4] \<le> 2" "length [?i4] \<noteq> 2" by simp_all
      note E2 = ensure_entry_spec [OF E1(1) sl(2) E1(4) sl(6) this(1) notE [OF this(2)] fl S2]
      have sm2: "same_managed s s2" by (rule same_managed_trans [OF E1(2) E2(2)])
      have L2: "leaves_same K R (phys_words s) (phys_words s2)" by (rule leaves_same_trans [OF L1 leaves_same_change [OF E2(3)]]) simp_all
      let ?e2 = "page_table ?pd (phys_words s2) ?i2"
      have mpd: "page_table ?pd (phys_words s2) = phys_words s2 ?pd" by (rule page_table_masked) simp
      show ?thesis
      proof (cases "page_walk_present ?e2 \<and> ?e2 AND HUGE_PAGE_FLAG \<noteq> 0 \<or> ensure_entry ?pd ?i2 fl s2 = None")
        case True
        with res Some S2 have "wo = None" "s' = s2" by (auto split: if_splits)
        with E2 sm2 L2 show ?thesis by simp
      next
        case False
        then obtain s3 where S3: "ensure_entry ?pd ?i2 fl s2 = Some s3" by blast
        from False have huge: "\<not> (page_walk_present (phys_words s2 ?pd ?i2) \<and> phys_words s2 ?pd ?i2 AND HUGE_PAGE_FLAG \<noteq> 0)"
          unfolding mpd by blast
        have "length [?i3, ?i4] \<le> 2" by simp
        note E3 = ensure_entry_spec [OF E2(1) sl(3) E2(4) sl4(2) this huge fl S3]
        have sm3: "same_managed s s3" by (rule same_managed_trans [OF sm2 E3(2)])
        have L3: "leaves_same K R (phys_words s) (phys_words s3)" by (rule leaves_same_trans [OF L2 leaves_same_change [OF E3(3)]]) simp_all
        let ?w = "\<lparr>w_pml4 = r, w_pdpt = ?pdpt, w_pd = ?pd, w_pt = page_table ?pd (phys_words s3) ?i2 AND PAGE_ADDR_MASK,
            pml4_index = ?i4, pdpt_index = ?i3, pd_index = ?i2, pt_index = level_index 12 va\<rparr>"
        have r: "wo = Some ?w" "s' = s3" using res Some S2 S3 False by (auto split: if_splits)
        have t2: "tab (phys_words s2) r [?i4] = Some ?pdpt" using changes_atD [OF E2(3) sl(5)] E1(4) by simp
        have t3: "tab (phys_words s3) r [?i4] = Some ?pdpt" "tab (phys_words s3) r [?i3, ?i4] = Some ?pd"
          using changes_atD [OF E3(3) sl(5)] t2 changes_atD [OF E3(3) sl(6)] E2(4) by simp_all
        have "walk_to_pte r va (phys_words s3) = Some ?w"
          unfolding walk_tab [OF mr] using t3 E3(4) by (simp add: vpath_def del: tab.simps)
        with r E3(1) sm3 L3 show ?thesis by simp
      qed
    qed
  qed
  then show "pt_inv K R ext s'" "same_managed s s'" "leaves_same K R (phys_words s) (phys_words s')"
    "wo = Some w \<Longrightarrow> walk_to_pte r va (phys_words s') = Some w" by blast+
qed

lemma table_emptyD: "masked t \<Longrightarrow> table_empty t m \<Longrightarrow> \<forall>j < 512. \<not> page_walk_present (m t j)"
  by (simp add: table_empty_def page_walk_present_def page_table_masked)

lemma tab_entry:
  "tab m r (i # \<pi>) = Some u \<Longrightarrow> tab m r \<pi> = Some t \<Longrightarrow> masked t \<Longrightarrow> page_table t m i AND PAGE_ADDR_MASK = u"
  by (auto simp: page_table_masked split: if_splits)

text \<open>One level of dropping empty tables.\<close>

lemma drop_level:
  assumes inv: "pt_inv K R ext s" and x: "(r, \<pi>) \<in> slots K R 3" "tab (phys_words s) r \<pi> = Some t" "(r, i # \<pi>) \<in> slots K R 3"
    and u: "tab (phys_words s) r (i # \<pi>) = Some u" "table_empty u (phys_words s)" and top: "\<pi> = [] \<Longrightarrow> i < 256"
  shows "\<exists>s'. put_if_managed (page_table t (phys_words s) i AND PAGE_ADDR_MASK) (write_entry t i 0 s) = Some s' \<and>
    pt_inv K R ext s' \<and> same_managed s s' \<and> leaves_same K R (phys_words s) (phys_words s') \<and>
    changes_at K R r (i # \<pi>) (phys_words s) (phys_words s')"
proof -
  note I = pt_invD [OF inv]
  have m: "masked t" "masked u" using tab_masked [OF x(1) I(5) x(2)] tab_masked [OF x(3) I(5) u(1)] by blast+
  have x4: "(r, i # \<pi>) \<in> slots K R 4" using x(3) by (rule slots_mono) simp
  from pt_detach [OF inv x(1,2) x4 u(1) table_emptyD [OF m(2) u(2)] top] obtain s' where
    s': "put_if_managed u (write_entry t i 0 s) = Some s'" "pt_inv K R ext s'" "same_managed s s'"
      "changes_at K R r (i # \<pi>) (phys_words s) (phys_words s')" by blast
  have "leaves_same K R (phys_words s) (phys_words s')" using leaves_same_change [OF s'(4)] slots_len [OF x(3)] by simp
  then show ?thesis using s' unfolding tab_entry [OF u(1) x(2) m(1)] by blast
qed

lemma drop_tables_spec:
  assumes inv: "pt_inv K R ext s" and own: "owns K R r va" and w: "walk_to_pte r va (phys_words s) = Some w"
  shows "\<exists>s'. drop_tables w s = Some s' \<and> pt_inv K R ext s' \<and> same_managed s s' \<and> leaves_same K R (phys_words s) (phys_words s')"
proof -
  let ?i4 = "level_index 39 va" and ?i3 = "level_index 30 va" and ?i2 = "level_index 21 va"
  note sl = walk_slots [OF own]
  have mr: "masked r" using own pt_invD(5) [OF inv] by (simp add: owns_def)
  obtain pt where pt: "tab (phys_words s) r (?i2 # [?i3, ?i4]) = Some pt" and w': "w = \<lparr>w_pml4 = r, w_pdpt = the (tab (phys_words s) r [?i4]),
      w_pd = the (tab (phys_words s) r [?i3, ?i4]), w_pt = pt,
      pml4_index = ?i4, pdpt_index = ?i3, pd_index = ?i2, pt_index = level_index 12 va\<rparr>"
    using w unfolding walk_tab [OF mr] by (auto simp: vpath_def split: option.splits simp del: tab.simps)
  obtain pd where pd: "tab (phys_words s) r (?i3 # [?i4]) = Some pd" using pt by (auto split: option.splits if_splits)
  obtain pdpt where pdpt: "tab (phys_words s) r (?i4 # []) = Some pdpt" using pd by (auto split: option.splits if_splits)
  have wf: "w_pml4 w = r" "w_pdpt w = pdpt" "w_pd w = pd" "w_pt w = pt" "pml4_index w = ?i4" "pdpt_index w = ?i3" "pd_index w = ?i2"
    using w' pd pdpt by (simp_all del: tab.simps)
  have sl3: "(r, ?i2 # [?i3, ?i4]) \<in> slots K R 3" using sl(4) by (simp add: vpath_def)
  have refl: "leaves_same K R m m" for m by (simp add: leaves_same_def)
  show ?thesis
  proof (cases "table_empty pt (phys_words s)")
    case False
    then show ?thesis using inv refl by (simp add: drop_tables_def wf)
  next
    case e1: True
    obtain s1 where s1: "put_if_managed (page_table pd (phys_words s) ?i2 AND PAGE_ADDR_MASK) (write_entry pd ?i2 0 s) = Some s1"
      "pt_inv K R ext s1" "same_managed s s1" "leaves_same K R (phys_words s) (phys_words s1)"
      "changes_at K R r (?i2 # [?i3, ?i4]) (phys_words s) (phys_words s1)"
      using drop_level [OF inv sl(3) pd sl3 pt e1] by auto
    have t1: "tab (phys_words s1) r (?i3 # [?i4]) = Some pd" "tab (phys_words s1) r (?i4 # []) = Some pdpt"
      using changes_atD [OF s1(5) sl(6)] changes_atD [OF s1(5) sl(5)] pd pdpt by (simp_all del: tab.simps)
    show ?thesis
    proof (cases "table_empty pd (phys_words s1)")
      case False
      then show ?thesis using e1 s1 by (simp add: drop_tables_def wf Let_def)
    next
      case e2: True
      obtain s2 where s2: "put_if_managed (page_table pdpt (phys_words s1) ?i3 AND PAGE_ADDR_MASK) (write_entry pdpt ?i3 0 s1) = Some s2"
        "pt_inv K R ext s2" "same_managed s1 s2" "leaves_same K R (phys_words s1) (phys_words s2)"
        "changes_at K R r (?i3 # [?i4]) (phys_words s1) (phys_words s2)"
        using drop_level [OF s1(2) sl(2) t1(2) sl(3) t1(1) e2] by auto
      have sm2: "same_managed s s2" by (rule same_managed_trans [OF s1(3) s2(3)])
      have L2: "leaves_same K R (phys_words s) (phys_words s2)" by (rule leaves_same_trans [OF s1(4) s2(4)])
      have t2: "tab (phys_words s2) r (?i4 # []) = Some pdpt" using changes_atD [OF s2(5) sl(5)] t1(2) by (simp del: tab.simps)
      show ?thesis
      proof (cases "table_empty pdpt (phys_words s2) \<and> ?i4 < 256")
        case False
        then show ?thesis using e1 e2 s1(1) s2(1,2) sm2 L2 by (simp add: drop_tables_def wf Let_def)
      next
        case e3: True
        have t0: "tab (phys_words s2) r [] = Some r" by simp
        obtain s3 where s3: "put_if_managed (page_table r (phys_words s2) ?i4 AND PAGE_ADDR_MASK) (write_entry r ?i4 0 s2) = Some s3"
          "pt_inv K R ext s3" "same_managed s2 s3" "leaves_same K R (phys_words s2) (phys_words s3)"
          using drop_level [OF s2(2) sl(1) t0 sl(2) t2] e3 by auto
        show ?thesis
          using e1 e2 e3 s1(1) s2(1) s3(1,2) same_managed_trans [OF sm2 s3(3)] leaves_same_trans [OF L2 s3(4)]
          by (simp add: drop_tables_def wf Let_def)
      qed
    qed
  qed
qed

end
