(* ===== verification/Vspace.thy ===== *)
theory Vspace
  imports Page_Tree
begin

text \<open>
  Address spaces over the page trees: canonical addresses, the invariant of all spaces together, and the outcome of
  mapping and unmapping one page.
\<close>

section \<open>Addresses\<close>

definition canonical :: "u64 \<Rightarrow> bool" where
  "canonical va \<longleftrightarrow> va < USER_CANONICAL_TOP \<or> va \<ge> PHYSMAP_BASE"

definition page_of :: "u64 \<Rightarrow> u64" where
  "page_of va = va AND NOT (PAGE_SIZE - 1)"

lemma length_vpath [simp]: "length (vpath va) = 4"
  by (simp add: vpath_def)

lemma bit_level_index:
  assumes "level_index k va = level_index k va'" "n < 9"
  shows "bit va (k + n) \<longleftrightarrow> bit va' (k + n)"
proof -
  have "drop_bit k va AND 0x1ff = drop_bit k va' AND 0x1ff" using assms(1) by (simp only: level_index_def word_unat_eq_iff)
  then have "bit (drop_bit k va AND mask 9) n \<longleftrightarrow> bit (drop_bit k va' AND mask 9) n" by (simp add: mask_eq_exp_minus_1)
  with assms(2) show ?thesis by (simp add: bit_and_iff bit_mask_iff bit_drop_bit_eq)
qed

lemma small_bits:
  assumes "unat (w :: u64) < 2 ^ k" "k \<le> n"
  shows "\<not> bit w n"
proof -
  have "take_bit k w = w" using assms(1) by (simp add: word_unat_eq_iff unsigned_take_bit_eq take_bit_nat_eq_self)
  then show ?thesis using assms(2) by (metis bit_take_bit_iff leD)
qed

lemma high_bits: "(va :: u64) < 2 ^ 47 \<Longrightarrow> 47 \<le> n \<Longrightarrow> \<not> bit va n"
  by (rule small_bits) (simp_all add: word_less_nat_alt)

lemma canonical_bits:
  assumes "canonical va" "47 \<le> n" "n < 64"
  shows "bit va n \<longleftrightarrow> bit va 47"
proof (cases "va < USER_CANONICAL_TOP")
  case True
  then have "va < 2 ^ 47" by simp
  from high_bits [OF this] assms(2) show ?thesis by simp
next
  case False
  with assms(1) have "va \<ge> PHYSMAP_BASE" by (simp add: canonical_def)
  then have b: "unat PHYSMAP_BASE \<le> unat va" by (simp add: word_le_nat_alt)
  have c: "NOT va = - 1 - va" by (simp add: not_eq_complement)
  have "unat (NOT va) = unat (- 1 :: u64) - unat va" unfolding c by (rule unat_sub) simp
  with b have "unat (NOT va) < unat (2 ^ 47 :: u64)" by (simp add: unsigned_minus_1_eq_mask mask_eq_exp_minus_1)
  then have "NOT va < 2 ^ 47" by (simp only: word_less_nat_alt)
  from high_bits [OF this] have "\<not> bit (NOT va) n" "\<not> bit (NOT va) 47" using assms(2) by simp_all
  then show ?thesis using assms(3) by (simp add: bit_not_iff)
qed

lemma page_of_bits: "bit (page_of va) n \<longleftrightarrow> 12 \<le> n \<and> bit va n"
proof -
  have "PAGE_SIZE - 1 = (mask 12 :: u64)" by (simp add: mask_eq_exp_minus_1)
  then show ?thesis unfolding page_of_def
    by (simp only: bit_and_iff bit_not_iff bit_mask_iff) (auto dest: bit_imp_possible_bit)
qed

lemma vpath_inj:
  assumes c: "canonical va" "canonical va'"
  shows "vpath va = vpath va' \<longleftrightarrow> page_of va = page_of va'"
proof
  assume p: "vpath va = vpath va'"
  have b: "bit va n \<longleftrightarrow> bit va' n" if n: "12 \<le> n" "n < 48" for n
  proof -
    consider "n < 21" | "21 \<le> n" "n < 30" | "30 \<le> n" "n < 39" | "39 \<le> n" by linarith
    then show ?thesis
    proof cases
      case 1 then show ?thesis using bit_level_index [of 12 va va' "n - 12"] p n by (simp add: vpath_def)
    next
      case 2 then show ?thesis using bit_level_index [of 21 va va' "n - 21"] p n by (simp add: vpath_def)
    next
      case 3 then show ?thesis using bit_level_index [of 30 va va' "n - 30"] p n by (simp add: vpath_def)
    next
      case 4 then show ?thesis using bit_level_index [of 39 va va' "n - 39"] p n by (simp add: vpath_def)
    qed
  qed
  show "page_of va = page_of va'"
  proof (rule bit_word_eqI)
    fix n assume "n < LENGTH(64)"
    then have n: "n < 64" by simp
    show "bit (page_of va) n \<longleftrightarrow> bit (page_of va') n" unfolding page_of_bits
      using b [of n] b [of 47] canonical_bits [OF c(1), of n] canonical_bits [OF c(2), of n] n by (cases "n < 48") auto
  qed
next
  assume p: "page_of va = page_of va'"
  have b: "bit va n \<longleftrightarrow> bit va' n" if "12 \<le> n" for n using arg_cong [OF p, of "\<lambda>x. bit x n"] that by (simp add: page_of_bits)
  have "level_index k va = level_index k va'" if k: "12 \<le> k" for k
  proof -
    have "bit va (k + n) \<longleftrightarrow> bit va' (k + n)" for n by (rule b) (use k in simp)
    then have "drop_bit k va = drop_bit k va'" by (intro bit_word_eqI) (simp add: bit_drop_bit_eq)
    then show ?thesis by (simp add: level_index_def)
  qed
  then show "vpath va = vpath va'" by (simp add: vpath_def)
qed

lemma user_half: "va < USER_CANONICAL_TOP \<Longrightarrow> level_index 39 va < 256"
proof -
  assume "va < USER_CANONICAL_TOP"
  then have v: "va < 2 ^ 47" by simp
  have "drop_bit 39 va AND 0x1ff = take_bit 8 (drop_bit 39 va)"
  proof (rule bit_word_eqI)
    fix n assume n: "n < LENGTH(64)"
    have "bit va (39 + n) \<Longrightarrow> n < 8" using high_bits [OF v, of "39 + n"] by (cases "n < 8") auto
    moreover have "(0x1ff :: u64) = mask 9" by (simp add: mask_eq_exp_minus_1)
    ultimately show "bit (drop_bit 39 va AND 0x1ff) n \<longleftrightarrow> bit (take_bit 8 (drop_bit 39 va)) n"
      by (auto simp only: bit_and_iff bit_mask_iff bit_take_bit_iff bit_drop_bit_eq comp_def possible_bit_word n)
  qed
  then have "level_index 39 va = take_bit 8 (unat (drop_bit 39 va))" by (simp add: level_index_def unsigned_take_bit_eq)
  then show ?thesis using take_bit_nat_less_exp [of 8] by simp
qed

lemma page_of_aligned: "va AND (PAGE_SIZE - 1) = 0 \<longleftrightarrow> page_of va = va"
proof -
  have "va = (va AND (PAGE_SIZE - 1)) OR page_of va" unfolding page_of_def by (simp add: bit.conj_disj_distrib [symmetric])
  moreover have "page_of va AND (PAGE_SIZE - 1) = 0" by (simp add: page_of_def and.assoc)
  ultimately show ?thesis by (metis or.left_neutral)
qed

section \<open>The invariant of the address spaces\<close>

definition kroot :: "vm_state \<Rightarrow> u64" where
  "kroot st = pml4_phys (the (vm_spaces st address_space_kernel))"

definition roots :: "vm_state \<Rightarrow> u64 set" where
  "roots st = pml4_phys ` ran (vm_spaces st)"

text \<open>The frame that a space shows at an address.\<close>

definition frame_at :: "addr \<Rightarrow> u64 \<Rightarrow> vm_state \<Rightarrow> u64 option" where
  "frame_at a va st =
     (case vm_spaces st a of None \<Rightarrow> None | Some as \<Rightarrow> tab (phys_words (vm_phys st)) (pml4_phys as) (vpath va))"

text \<open>
  The mapping records of a space other than the kernel's are exactly its mapped pages, and there is one record for each.
\<close>

definition records_ok :: "phys_memory \<Rightarrow> address_space_t \<Rightarrow> bool" where
  "records_ok m as \<longleftrightarrow>
     distinct (map virtual_address (mappings as)) \<and>
     (\<forall>x \<in> set (mappings as). virtual_address x < USER_CANONICAL_TOP \<and> page_of (virtual_address x) = virtual_address x) \<and>
     (\<forall>va < USER_CANONICAL_TOP. page_of va = va \<longrightarrow>
        (tab m (pml4_phys as) (vpath va) \<noteq> None \<longleftrightarrow> va \<in> virtual_address ` set (mappings as)))"

definition vm_inv :: "(u64 \<Rightarrow> nat) \<Rightarrow> vm_state \<Rightarrow> bool" where
  "vm_inv ext st \<longleftrightarrow>
     vm_spaces st address_space_kernel \<noteq> None \<and> pt_inv (kroot st) (roots st) ext (vm_phys st) \<and>
     (\<forall>a b as bs. vm_spaces st a = Some as \<longrightarrow> vm_spaces st b = Some bs \<longrightarrow> pml4_phys as = pml4_phys bs \<longrightarrow> a = b) \<and>
     (\<forall>a as. vm_spaces st a = Some as \<longrightarrow> a \<noteq> address_space_kernel \<longrightarrow> records_ok (phys_words (vm_phys st)) as)"

lemma vm_invD:
  assumes "vm_inv ext st"
  shows "vm_spaces st address_space_kernel \<noteq> None" "pt_inv (kroot st) (roots st) ext (vm_phys st)"
    "vm_spaces st a = Some as \<Longrightarrow> vm_spaces st b = Some bs \<Longrightarrow> pml4_phys as = pml4_phys bs \<Longrightarrow> a = b"
    "vm_spaces st a = Some as \<Longrightarrow> a \<noteq> address_space_kernel \<Longrightarrow> records_ok (phys_words (vm_phys st)) as"
    "vm_spaces st a = Some as \<Longrightarrow> pml4_phys as \<in> roots st"
    "vm_spaces st a = Some as \<Longrightarrow> masked (pml4_phys as)"
    "vm_spaces st a = Some as \<Longrightarrow> pml4_phys as = kroot st \<longleftrightarrow> a = address_space_kernel"
proof -
  show 1: "vm_spaces st address_space_kernel \<noteq> None" "pt_inv (kroot st) (roots st) ext (vm_phys st)"
    and 3: "vm_spaces st a = Some as \<Longrightarrow> vm_spaces st b = Some bs \<Longrightarrow> pml4_phys as = pml4_phys bs \<Longrightarrow> a = b"
    and "vm_spaces st a = Some as \<Longrightarrow> a \<noteq> address_space_kernel \<Longrightarrow> records_ok (phys_words (vm_phys st)) as" for a as b bs
    using assms unfolding vm_inv_def by blast+
  show 2: "pml4_phys as \<in> roots st" if "vm_spaces st a = Some as" for a as using that by (auto simp: roots_def intro: ranI)
  show "masked (pml4_phys as)" if "vm_spaces st a = Some as" by (rule pt_invD(5) [OF 1(2) 2 [OF that]])
  obtain ks where ks: "vm_spaces st address_space_kernel = Some ks" using 1(1) by blast
  then have "kroot st = pml4_phys ks" by (simp add: kroot_def)
  with ks 3 show "pml4_phys as = kroot st \<longleftrightarrow> a = address_space_kernel" if "vm_spaces st a = Some as"
    using that by auto
qed

text \<open>The upper half of a root other than the kernel's shows what the kernel's shows, where the entry is present.\<close>

lemma tab_shared:
  assumes sh: "shares_kernel K R m" and r: "r \<in> R" "256 \<le> i" "i < 512"
  shows "tab m r (\<rho> @ [i]) = (if page_walk_present (m r i) then tab m K (\<rho> @ [i]) else None)"
proof (cases "page_walk_present (m r i)")
  case True
  then have e: "m r i = m K i" using sh r by (simp add: shares_kernel_def)
  then have "tab m r [i] = tab m K [i]" by simp
  then have "tab m r (\<rho> @ [i]) = tab m K (\<rho> @ [i])" by (induction \<rho>) (simp_all del: tab.simps(1))
  with True show ?thesis by simp
next
  case False
  then have "tab m r [i] = None" by (simp add: follow_def)
  from tab_None [OF this] False show ?thesis by simp
qed

text \<open>
  What an operation on the leaf at \<open>va\<close> of the root \<open>r\<close> may change of what other roots and other addresses show.
\<close>

lemma changed_leaves:
  assumes inv: "pt_inv K R ext s" "pt_inv K R ext' s'"
    and same: "\<And>r' \<pi>. (r', \<pi>) \<in> slots K R 4 \<Longrightarrow> length \<pi> = 4 \<Longrightarrow> (r', \<pi>) \<noteq> (r, vpath va) \<Longrightarrow>
      tab (phys_words s') r' \<pi> = tab (phys_words s) r' \<pi>"
    and tops: "tops_same K R (phys_words s) (phys_words s')"
    and r': "r' \<in> R" and other: "r' \<noteq> r \<and> (level_index 39 va < 256 \<or> r \<noteq> K) \<or> vpath va' \<noteq> vpath va"
  shows "tab (phys_words s') r' (vpath va') = tab (phys_words s) r' (vpath va')"
proof (cases "r' = K \<or> level_index 39 va' < 256")
  case True
  then have "owns K R r' va'" using r' by (simp add: owns_def)
  note sl = walk_slots(8) [OF this]
  show ?thesis by (rule same [OF sl]) (use other in \<open>auto simp: vpath_def\<close>)
next
  case False
  note I = pt_invD [OF inv(1)] and I' = pt_invD [OF inv(2)]
  let ?i = "level_index 39 va'" and ?\<rho> = "[level_index 12 va', level_index 21 va', level_index 30 va']"
  have p: "vpath va' = ?\<rho> @ [?i]" by (simp add: vpath_def)
  have i: "256 \<le> ?i" "?i < 512" using False level_index_less by simp_all
  have top: "phys_words s' r' ?i = phys_words s r' ?i" using tops False r' i by (simp add: tops_same_def)
  have "owns K R K va'" using I(4) by (simp add: owns_def)
  note sl = walk_slots(8) [OF this]
  have "(K, vpath va') \<noteq> (r, vpath va)" using other False by (auto simp: vpath_def)
  from same [OF sl _ this] have "tab (phys_words s') K (?\<rho> @ [?i]) = tab (phys_words s) K (?\<rho> @ [?i])" by (simp add: vpath_def)
  then show ?thesis unfolding p tab_shared [OF I(7) r' i] tab_shared [OF I'(7) r' i] top by simp
qed

definition others_same :: "addr \<Rightarrow> u64 \<Rightarrow> vm_state \<Rightarrow> vm_state \<Rightarrow> bool" where
  "others_same a va st st' \<longleftrightarrow>
     (\<forall>b va'. canonical va' \<longrightarrow> b \<noteq> a \<and> va < USER_CANONICAL_TOP \<or> page_of va' \<noteq> va \<longrightarrow> frame_at b va' st' = frame_at b va' st)"

definition all_same :: "vm_state \<Rightarrow> vm_state \<Rightarrow> bool" where
  "all_same st st' \<longleftrightarrow> (\<forall>b va'. frame_at b va' st' = frame_at b va' st)"

text \<open>The objects differ in their mapping records only.\<close>

definition same_objects :: "vm_state \<Rightarrow> vm_state \<Rightarrow> bool" where
  "same_objects st st' \<longleftrightarrow>
     (\<forall>b. map_option (\<lambda>as. as\<lparr>mappings := []\<rparr>) (vm_spaces st' b) = map_option (\<lambda>as. as\<lparr>mappings := []\<rparr>) (vm_spaces st b))"

lemma set_space_simps [simp]:
  "vm_phys (set_space a as s st) = s" "vm_spaces (set_space a as s st) = (vm_spaces st)(a \<mapsto> as)"
  by (simp_all add: set_space_def)

lemma set_space_same: "vm_spaces st a = Some as \<Longrightarrow> set_space a as s st = st\<lparr>vm_phys := s\<rparr>"
  by (simp add: set_space_def fun_upd_idem)

lemma roots_set_space:
  assumes "vm_spaces st a = Some as" "pml4_phys as' = pml4_phys as"
  shows "roots (set_space a as' s st) = roots st" "kroot (set_space a as' s st) = kroot st"
proof -
  have "(\<lambda>b. map_option pml4_phys (((vm_spaces st)(a \<mapsto> as')) b)) = (\<lambda>b. map_option pml4_phys (vm_spaces st b))"
    using assms by (auto simp: fun_eq_iff)
  moreover have r: "pml4_phys ` ran f = ran (\<lambda>b. map_option pml4_phys (f b))" for f :: "addr \<Rightarrow> address_space_t option"
    by (auto simp: ran_def image_iff)
  ultimately show "roots (set_space a as' s st) = roots st" unfolding roots_def by (simp add: r)
  show "kroot (set_space a as' s st) = kroot st" using assms by (auto simp: kroot_def)
qed

lemma records_same:
  assumes "records_ok m as"
    and "\<And>va. va < USER_CANONICAL_TOP \<Longrightarrow> page_of va = va \<Longrightarrow> tab m' (pml4_phys as) (vpath va) = tab m (pml4_phys as) (vpath va)"
  shows "records_ok m' as"
  using assms unfolding records_ok_def by auto

lemma vm_update:
  assumes inv: "vm_inv ext st" and a: "vm_spaces st a = Some as" and as': "as'\<lparr>mappings := []\<rparr> = as\<lparr>mappings := []\<rparr>"
    and pt: "pt_inv (kroot st) (roots st) ext' s'"
    and va: "va < USER_CANONICAL_TOP \<or> a = address_space_kernel" "canonical va" "page_of va = va"
    and same: "\<And>r' \<pi>. (r', \<pi>) \<in> slots (kroot st) (roots st) 4 \<Longrightarrow> length \<pi> = 4 \<Longrightarrow> (r', \<pi>) \<noteq> (pml4_phys as, vpath va) \<Longrightarrow>
      tab (phys_words s') r' \<pi> = tab (phys_words (vm_phys st)) r' \<pi>"
    and tops: "tops_same (kroot st) (roots st) (phys_words (vm_phys st)) (phys_words s')"
    and rec: "a \<noteq> address_space_kernel \<Longrightarrow> records_ok (phys_words s') as'"
  shows "vm_inv ext' (set_space a as' s' st)" "others_same a va st (set_space a as' s' st)"
    "same_objects st (set_space a as' s' st)"
    "frame_at a va (set_space a as' s' st) = tab (phys_words s') (pml4_phys as) (vpath va)"
proof -
  note V = vm_invD [OF inv]
  have p: "pml4_phys as' = pml4_phys as" using arg_cong [OF as', of pml4_phys] by simp
  note R = roots_set_space [OF a p, of s']
  have L: "tab (phys_words s') r' (vpath va') = tab (phys_words (vm_phys st)) r' (vpath va')"
    if "r' \<in> roots st"
      "r' \<noteq> pml4_phys as \<and> (level_index 39 va < 256 \<or> pml4_phys as \<noteq> kroot st) \<or> vpath va' \<noteq> vpath va" for r' va'
    by (rule changed_leaves [OF V(2) pt _ tops that]) (rule same)
  have other: "tab (phys_words s') (pml4_phys bs) (vpath va') = tab (phys_words (vm_phys st)) (pml4_phys bs) (vpath va')"
    if b: "vm_spaces st b = Some bs" and o: "b \<noteq> a \<and> va < USER_CANONICAL_TOP \<or> vpath va' \<noteq> vpath va" for b bs va'
  proof (rule L [OF V(5) [OF b]])
    show "pml4_phys bs \<noteq> pml4_phys as \<and> (level_index 39 va < 256 \<or> pml4_phys as \<noteq> kroot st) \<or> vpath va' \<noteq> vpath va"
    proof (cases "vpath va' = vpath va")
      case True
      with o have "b \<noteq> a" "va < USER_CANONICAL_TOP" by simp_all
      with V(3) [OF b a] user_half show ?thesis by (intro disjI1 conjI notI) simp_all
    qed simp
  qed
  show "others_same a va st (set_space a as' s' st)" unfolding others_same_def
  proof (intro allI impI)
    fix b va' assume c: "canonical va'" and o: "b \<noteq> a \<and> va < USER_CANONICAL_TOP \<or> page_of va' \<noteq> va"
    have "b \<noteq> a \<and> va < USER_CANONICAL_TOP \<or> vpath va' \<noteq> vpath va" using o vpath_inj [OF c va(2)] va(3) by simp
    note T = other [OF _ this]
    show "frame_at b va' (set_space a as' s' st) = frame_at b va' st"
    proof (cases "b = a")
      case True
      with T a have "tab (phys_words s') (pml4_phys as) (vpath va') = tab (phys_words (vm_phys st)) (pml4_phys as) (vpath va')" by blast
      with True a p show ?thesis by (simp add: frame_at_def)
    next
      case False
      with T show ?thesis by (simp add: frame_at_def split: option.split)
    qed
  qed
  show "same_objects st (set_space a as' s' st)" using as' a unfolding same_objects_def by simp
  show "frame_at a va (set_space a as' s' st) = tab (phys_words s') (pml4_phys as) (vpath va)" by (simp add: frame_at_def p)
  have rb: "records_ok (phys_words s') bs"
    if b: "vm_spaces st b = Some bs" "b \<noteq> address_space_kernel" "b \<noteq> a" for b bs
  proof (rule records_same [OF V(4) [OF b(1,2)]])
    fix v assume v: "v < USER_CANONICAL_TOP" "page_of v = v"
    have "va < USER_CANONICAL_TOP \<or> vpath v \<noteq> vpath va"
      using vpath_inj [OF _ va(2), of v] v va by (auto simp: canonical_def)
    then show "tab (phys_words s') (pml4_phys bs) (vpath v) = tab (phys_words (vm_phys st)) (pml4_phys bs) (vpath v)"
      using other [OF b(1)] b(3) by blast
  qed
  have inj: "c = d" if "((vm_spaces st)(a \<mapsto> as')) c = Some cs" "((vm_spaces st)(a \<mapsto> as')) d = Some ds" "pml4_phys cs = pml4_phys ds" for c d cs ds
  proof -
    define m where "m b = map_option pml4_phys (vm_spaces st b)" for b
    have "map_option pml4_phys (((vm_spaces st)(a \<mapsto> as')) b) = m b" for b using a p by (simp add: m_def)
    from this [of c] this [of d] that have "m c = Some (pml4_phys cs)" "m d = Some (pml4_phys cs)" by simp_all
    then obtain cs' ds' where "vm_spaces st c = Some cs'" "vm_spaces st d = Some ds'" "pml4_phys cs' = pml4_phys ds'"
      by (auto simp: m_def)
    then show ?thesis by (rule V(3))
  qed
  have "records_ok (phys_words s') bs" if "((vm_spaces st)(a \<mapsto> as')) b = Some bs" "b \<noteq> address_space_kernel" for b bs
    using that rb [of b bs] rec by (cases "b = a") simp_all
  moreover have "((vm_spaces st)(a \<mapsto> as')) address_space_kernel \<noteq> None" using V(1) by simp
  ultimately show "vm_inv ext' (set_space a as' s' st)" unfolding vm_inv_def R set_space_simps using pt inj by iprover
qed

text \<open>An operation that changes no leaf, as when new tables are made.\<close>

lemma vm_update_same:
  assumes inv: "vm_inv ext st" and pt: "pt_inv (kroot st) (roots st) ext' s'"
    and same: "leaves_same (kroot st) (roots st) (phys_words (vm_phys st)) (phys_words s')"
  shows "vm_inv ext' (st\<lparr>vm_phys := s'\<rparr>)" "all_same st (st\<lparr>vm_phys := s'\<rparr>)"
proof -
  note V = vm_invD [OF inv]
  note S = same [unfolded leaves_same_def]
  have R: "roots (st\<lparr>vm_phys := s'\<rparr>) = roots st" "kroot (st\<lparr>vm_phys := s'\<rparr>) = kroot st" by (simp_all add: roots_def kroot_def)
  have "tab (phys_words s') r (vpath va) = tab (phys_words (vm_phys st)) r (vpath va)" if "r \<in> roots st" for r va
    by (rule changed_leaves [OF V(2) pt _ _ that, where r = 0 and va = "if vpath va = vpath 0 then PAGE_SIZE else 0"])
      (use S in \<open>auto simp: vpath_def level_index_def\<close>)
  note T = this [OF V(5)]
  show "all_same st (st\<lparr>vm_phys := s'\<rparr>)" unfolding all_same_def
  proof (intro allI)
    fix b va' show "frame_at b va' (st\<lparr>vm_phys := s'\<rparr>) = frame_at b va' st"
      using T by (cases "vm_spaces st b") (auto simp: frame_at_def)
  qed
  have "records_ok (phys_words s') as" if "vm_spaces st a = Some as" "a \<noteq> address_space_kernel" for a as
    by (rule records_same [OF V(4) [OF that] T [OF that(1)]])
  with V(1,3) pt show "vm_inv ext' (st\<lparr>vm_phys := s'\<rparr>)" unfolding vm_inv_def R by simp
qed

section \<open>Pages\<close>

definition keeps_refs :: "phys_state \<Rightarrow> phys_state \<Rightarrow> bool" where
  "keeps_refs s s' \<longleftrightarrow> (\<forall>p. phys_page_is_managed p s \<longrightarrow> 0 < refs_at s p \<longrightarrow> refs_at s' p = refs_at s p)"

lemma keeps_refs_trans: "keeps_refs s t \<Longrightarrow> same_managed s t \<Longrightarrow> keeps_refs t u \<Longrightarrow> keeps_refs s u"
  by (simp add: keeps_refs_def same_managed_def)

lemma ensure_entry_refs:
  assumes wf: "phys_wf s" and res: "ensure_entry t i fl s = Some s'"
  shows "phys_wf s' \<and> same_managed s s' \<and> keeps_refs s s'"
proof (cases "page_walk_present (page_table t (phys_words s) i)")
  case True
  with res wf show ?thesis by (simp add: ensure_entry_def keeps_refs_def)
next
  case False
  with res obtain p s1 where al: "phys_alloc_page s = Some (p, s1)"
    and s': "s' = write_entry t i (p OR fl) (s1\<lparr>phys_words := (phys_words s1)(p AND PAGE_ADDR_MASK := (\<lambda>_. 0))\<rparr>)"
    by (auto simp: ensure_entry_def allocate_page_table_def split: option.splits)
  note A = alloc_at [OF wf al]
  have "keeps_refs s s'" unfolding keeps_refs_def s' using A(2,6) by auto
  then show ?thesis using A(3,4) by (simp add: s' same_managed_def)
qed

lemma ensure_page_table_refs:
  assumes wf: "phys_wf s" and res: "ensure_page_table r va user s = (wo, s')"
  shows "keeps_refs s s'"
proof -
  define fl where "fl = PAGE_PRESENT OR PAGE_WRITABLE OR (if user then PAGE_USER else 0)"
  note res = res [unfolded ensure_page_table_def Let_def, folded fl_def]
  have refl: "keeps_refs s s" by (simp add: keeps_refs_def)
  show ?thesis
  proof (cases "ensure_entry r (level_index 39 va) fl s")
    case None
    with res refl show ?thesis by simp
  next
    case (Some s1)
    note res = res [unfolded Some option.case]
    note E1 = ensure_entry_refs [OF wf Some]
    let ?t = "page_table r (phys_words s1) (level_index 39 va) AND PAGE_ADDR_MASK"
    show ?thesis
    proof (cases "ensure_entry ?t (level_index 30 va) fl s1")
      case None
      with res E1 show ?thesis by simp
    next
      case S2: (Some s2)
      note res = res [unfolded S2 option.case]
      have E2: "phys_wf s2" "same_managed s s2" "keeps_refs s s2"
        using ensure_entry_refs [OF conjunct1 [OF E1] S2] E1 same_managed_trans keeps_refs_trans by blast+
      let ?u = "page_table ?t (phys_words s2) (level_index 30 va) AND PAGE_ADDR_MASK"
      show ?thesis
      proof (cases "ensure_entry ?u (level_index 21 va) fl s2")
        case None
        with res E2 show ?thesis by (simp split: if_splits)
      next
        case S3: (Some s3)
        from keeps_refs_trans [OF E2(3,2)] ensure_entry_refs [OF E2(1) S3] have "keeps_refs s s3" by blast
        with res E2(3) show ?thesis unfolding S3 option.case by (simp split: if_splits)
      qed
    qed
  qed
qed

lemma mapping_allowedD:
  assumes "mapping_allowed (Some a) va kr"
  shows "va < USER_CANONICAL_TOP \<or> a = address_space_kernel" "canonical va" "page_of va = va"
  using assms unfolding mapping_allowed_def canonical_def page_of_aligned by (auto split: if_splits)

lemma owns_allowed:
  assumes inv: "vm_inv ext st" and a: "vm_spaces st a = Some as" and al: "mapping_allowed (Some a) va kr"
  shows "owns (kroot st) (roots st) (pml4_phys as) va"
  using vm_invD(5,7) [OF inv a] mapping_allowedD(1) [OF al] user_half by (auto simp: owns_def)

lemma remove_mapping_set:
  assumes "distinct (map virtual_address ms)"
  shows "virtual_address ` set (remove_mapping va ms) = virtual_address ` set ms - {va}"
    "set (remove_mapping va ms) \<subseteq> set ms" "distinct (map virtual_address (remove_mapping va ms))"
  using assms by (induction ms) (auto intro: rev_image_eqI)

lemma records_add:
  assumes rec: "records_ok m as" and va: "va < USER_CANONICAL_TOP" "page_of va = va"
    and old: "tab m (pml4_phys as) (vpath va) = None" and new: "tab m' (pml4_phys as) (vpath va) \<noteq> None"
    and same: "\<And>v. v < USER_CANONICAL_TOP \<Longrightarrow> page_of v = v \<Longrightarrow> v \<noteq> va \<Longrightarrow>
      tab m' (pml4_phys as) (vpath v) = tab m (pml4_phys as) (vpath v)"
    and x: "virtual_address x = va"
  shows "records_ok m' (as\<lparr>mappings := x # mappings as\<rparr>)"
proof -
  note r = rec [unfolded records_ok_def]
  have "va \<notin> virtual_address ` set (mappings as)" using r va old by blast
  moreover have "tab m' (pml4_phys as) (vpath v) \<noteq> None \<longleftrightarrow> v \<in> insert va (virtual_address ` set (mappings as))"
    if v: "v < USER_CANONICAL_TOP" "page_of v = v" for v
    using r v new same [OF v] by (cases "v = va") simp_all
  ultimately show ?thesis using r va x by (simp add: records_ok_def)
qed

lemma records_remove:
  assumes rec: "records_ok m as" and new: "tab m' (pml4_phys as) (vpath va) = None"
    and same: "\<And>v. v < USER_CANONICAL_TOP \<Longrightarrow> page_of v = v \<Longrightarrow> v \<noteq> va \<Longrightarrow>
      tab m' (pml4_phys as) (vpath v) = tab m (pml4_phys as) (vpath v)"
  shows "records_ok m' (as\<lparr>mappings := remove_mapping va (mappings as)\<rparr>)"
proof -
  note r = rec [unfolded records_ok_def]
  note d = remove_mapping_set [OF conjunct1 [OF r], of va]
  have "tab m' (pml4_phys as) (vpath v) \<noteq> None \<longleftrightarrow> v \<in> virtual_address ` set (mappings as) - {va}"
    if v: "v < USER_CANONICAL_TOP" "page_of v = v" for v
    using r v new same [OF v] by (cases "v = va") simp_all
  moreover have "virtual_address x < USER_CANONICAL_TOP \<and> page_of (virtual_address x) = virtual_address x"
    if "x \<in> set (remove_mapping va (mappings as))" for x using that d(2) r by blast
  ultimately show ?thesis using d(1,3) by (simp add: records_ok_def)
qed

text \<open>A free leaf gets a frame; \<open>handed\<close> is what is left of the references of others when the mapping takes over one.\<close>

definition handed :: "u64 \<Rightarrow> u64 \<Rightarrow> phys_state \<Rightarrow> (u64 \<Rightarrow> nat) \<Rightarrow> u64 \<Rightarrow> nat" where
  "handed flags pa s ext = (\<lambda>p. ext p - of_bool (flags AND ADDRESS_SPACE_MAP_OWNED \<noteq> 0 \<and> phys_page_is_managed pa s \<and> p = pa))"

lemma map_leaf:
  assumes inv: "pt_inv K R ext s" and own: "owns K R r va" and w: "walk_to_pte r va (phys_words s) = Some w"
    "\<not> page_walk_present (pte w (phys_words s))" and pa: "masked pa"
    and refs: "phys_page_is_managed pa s \<Longrightarrow> 0 < ext pa \<and> refs_at s pa < 2 ^ 32 - 2"
    and e: "e = (pa AND PAGE_ADDR_MASK) OR PAGE_PRESENT OR (flags AND (PAGE_WRITABLE OR PAGE_USER OR PAGE_NX))"
    and tr: "tr \<longleftrightarrow> flags AND ADDRESS_SPACE_MAP_OWNED \<noteq> 0"
  shows "\<exists>s1 s2. (if phys_page_is_managed pa s \<and> \<not> tr then phys_page_get pa s else Some s) = Some s1 \<and>
    write_entry (w_pt w) (pt_index w) e s1 = s2 \<and> pt_inv K R (handed flags pa s ext) s2 \<and> same_managed s s2 \<and>
    changes_at K R r (vpath va) (phys_words s) (phys_words s2) \<and> tab (phys_words s2) r (vpath va) = Some pa \<and>
    (\<forall>q. phys_page_is_managed q s \<longrightarrow> q \<noteq> pa \<longrightarrow> refs_at s2 q = refs_at s q)"
proof -
  note I = pt_invD [OF inv] and sl = walk_slots [OF own]
  have mr: "masked r" using own I(5) by (simp add: owns_def)
  let ?m = "phys_page_is_managed pa s" and ?i = "level_index 12 va"
  obtain t where t: "tab (phys_words s) r (tl (vpath va)) = Some t" "w_pt w = t" "pt_index w = ?i"
    using w(1) unfolding walk_tab [OF mr] by (auto split: option.splits)
  obtain s1 where s1: "(if ?m \<and> \<not> tr then phys_page_get pa s else Some s) = Some s1" "phys_wf s1" "same_managed s s1"
    "phys_words s1 = phys_words s" "\<And>q. phys_page_is_managed q s \<Longrightarrow> refs_at s1 q = refs_at s q + of_bool (?m \<and> \<not> tr \<and> q = pa)"
  proof (cases "?m \<and> \<not> tr")
    case True
    then have "0 < refs_at s pa" "refs_at s pa < 2 ^ 32 - 2" using refs I(8) [of pa] by simp_all
    with that get_at [OF I(1) conjunct1 [OF True]] True show ?thesis by auto
  next
    case False
    with that [of s] I(1) show ?thesis by auto
  qed
  have len: "length (tl (vpath va)) = 3" "\<not> length (tl (vpath va)) \<le> 2" and vp: "vpath va = ?i # tl (vpath va)" by (simp_all add: vpath_def)
  have free: "\<not> page_walk_present (phys_words s t ?i)"
    using w(2) t tab_masked [OF sl(4) I(5) t(1)] by (simp add: pte_def page_table_masked)
  have fe: "follow (length (tl (vpath va))) e" "e AND PAGE_ADDR_MASK = pa"
    using leaf_entry [of pa flags, folded e] len pa by (simp_all add: follow_def)
  have cnt: "refs_at s1 p = handed flags pa s ext p + tree_refs K R (phys_words s) p + of_bool (p = pa)"
    if p: "phys_page_is_managed p s" for p
    using s1(5) [OF p] I(8) [OF p] refs p unfolding handed_def tr by (cases "p = pa") auto
  have sl8: "(r, ?i # tl (vpath va)) \<in> slots K R 4" using sl(8) by (simp add: vpath_def)
  note T = pt_attach [OF inv sl(4) t(1) sl8 free fe s1(2-4) cnt notE [OF len(2)], folded vp]
  have "same_managed s (write_entry t ?i e s1)" using s1(3) by (simp add: same_managed_def)
  then show ?thesis using s1(1,5) T unfolding t(2,3) by auto
qed

text \<open>The outcome of mapping a page.\<close>

definition map_outcome :: "(u64 \<Rightarrow> nat) \<Rightarrow> addr \<Rightarrow> u64 \<Rightarrow> u64 \<Rightarrow> u64 \<Rightarrow> vm_state \<Rightarrow> int \<Rightarrow> vm_state \<Rightarrow> bool" where
  "map_outcome ext a va pa flags st r st' \<longleftrightarrow>
     same_objects st st' \<and> same_managed (vm_phys st) (vm_phys st') \<and>
     (\<forall>p. phys_page_is_managed p (vm_phys st) \<longrightarrow> 0 < refs_at (vm_phys st) p \<longrightarrow> p \<noteq> pa \<longrightarrow>
        refs_at (vm_phys st') p = refs_at (vm_phys st) p) \<and>
     (r = 0 \<and> frame_at a va st = None \<and> frame_at a va st' = Some pa \<and>
        vm_inv (handed flags pa (vm_phys st) ext) st' \<and> others_same a va st st' \<or>
      r = -1 \<and> vm_inv ext st' \<and> all_same st st' \<and> vm_spaces st' = vm_spaces st)"

lemma map_page_internal_spec:
  assumes inv: "vm_inv ext st" and a: "vm_spaces st a = Some as" and track: "track \<or> a = address_space_kernel"
    and pa: "masked pa" and own: "phys_page_is_managed pa (vm_phys st) \<Longrightarrow> 0 < ext pa \<and> refs_at (vm_phys st) pa < 2 ^ 32 - 2"
  shows "\<exists>r st'. map_page_internal (Some a) va pa flags kr track ok st = Some (r, st') \<and>
    (r = 0 \<longrightarrow> mapping_allowed (Some a) va kr) \<and> map_outcome ext a va pa flags st r st'"
proof (cases "\<not> mapping_allowed (Some a) va kr \<or> \<not> phys_page_aligned pa \<or> track \<and> \<not> ok")
  case True
  then have "map_page_internal (Some a) va pa flags kr track ok st = Some (-1, st)"
    unfolding map_page_internal_def by auto
  then show ?thesis using inv by (simp add: map_outcome_def same_objects_def all_same_def)
next
  case F: False
  then have al: "mapping_allowed (Some a) va kr" by simp
  note A = mapping_allowedD [OF al]
  let ?K = "kroot st" and ?R = "roots st" and ?s = "vm_phys st" and ?r = "pml4_phys as"
  note V = vm_invD [OF inv] and own' = owns_allowed [OF inv a al]
  note I = pt_invD [OF V(2)] and mr = V(6) [OF a]
  obtain wo s where E: "ensure_page_table ?r va (\<not> kr) ?s = (wo, s)" by fastforce
  note P = ensure_page_table_spec [OF V(2) own' E]
  have kp: "\<And>p. phys_page_is_managed p ?s \<Longrightarrow> 0 < refs_at ?s p \<Longrightarrow> refs_at s p = refs_at ?s p"
    using ensure_page_table_refs [OF I(1) E] by (simp add: keeps_refs_def)
  have leaf: "tab (phys_words s) ?r \<pi> = tab (phys_words ?s) ?r \<pi>" if "(?r, \<pi>) \<in> slots ?K ?R 4" "length \<pi> = 4" for \<pi>
    using P(3) that by (simp add: leaves_same_def)
  show ?thesis
  proof (cases "\<exists>w. wo = Some w \<and> \<not> page_walk_present (pte w (phys_words s))")
    case False
    then have "map_page_internal (Some a) va pa flags kr track ok st = Some (-1, st\<lparr>vm_phys := s\<rparr>)"
      using F a E by (auto simp: map_page_internal_def split: option.split)
    then show ?thesis using vm_update_same [OF inv P(1,3)] P(2) kp by (simp add: map_outcome_def same_objects_def)
  next
    case True
    then obtain w where w: "wo = Some w" "\<not> page_walk_present (pte w (phys_words s))" by blast
    note W = P(4) [OF w(1)]
    have m: "phys_page_is_managed p s \<longleftrightarrow> phys_page_is_managed p ?s" for p using P(2) by (simp add: same_managed_def)
    have refs: "0 < ext pa \<and> refs_at s pa < 2 ^ 32 - 2" if "phys_page_is_managed pa s"
    proof -
      have p: "phys_page_is_managed pa ?s" using that m by simp
      with own I(8) [OF p] have "0 < refs_at ?s pa" by simp
      with kp [OF p] own [OF p] show ?thesis by simp
    qed
    obtain s1 s2 where M: "(if phys_page_is_managed pa s \<and> \<not> flags AND ADDRESS_SPACE_MAP_OWNED \<noteq> 0 then phys_page_get pa s else Some s) = Some s1"
      "write_entry (w_pt w) (pt_index w) ((pa AND PAGE_ADDR_MASK) OR PAGE_PRESENT OR (flags AND (PAGE_WRITABLE OR PAGE_USER OR PAGE_NX))) s1 = s2"
      "pt_inv ?K ?R (handed flags pa s ext) s2" "same_managed s s2"
      "changes_at ?K ?R ?r (vpath va) (phys_words s) (phys_words s2)" "tab (phys_words s2) ?r (vpath va) = Some pa"
      "\<And>q. phys_page_is_managed q s \<Longrightarrow> q \<noteq> pa \<Longrightarrow> refs_at s2 q = refs_at s q"
      using map_leaf [OF P(1) own' W w(2) pa refs refl refl] by blast
    define as' where "as' = (if track
      then as\<lparr>mappings := \<lparr>virtual_address = va, physical = pa, owned = flags AND ADDRESS_SPACE_MAP_OWNED \<noteq> 0\<rparr> # mappings as\<rparr> else as)"
    have run: "map_page_internal (Some a) va pa flags kr track ok st = Some (0, set_space a as' s2 st)"
      using F a E w M(1,2) unfolding map_page_internal_def Let_def as'_def by simp
    have none: "frame_at a va st = None"
      using tab_leaf [OF mr, of "phys_words s" va, unfolded W] w(2) leaf walk_slots(8) [OF own'] a by (simp add: frame_at_def)
    have same: "tab (phys_words s2) r' \<pi> = tab (phys_words ?s) r' \<pi>"
      if "(r', \<pi>) \<in> slots ?K ?R 4" "length \<pi> = 4" "(r', \<pi>) \<noteq> (?r, vpath va)" for r' \<pi>
      using changes_atD [OF M(5) that(1,3)] P(3) that(1,2) by (simp add: leaves_same_def)
    have tops: "tops_same ?K ?R (phys_words ?s) (phys_words s2)"
      using P(3) M(5) tops_same_trans unfolding leaves_same_def changes_at_def by blast
    have rec: "records_ok (phys_words s2) as'" if k: "a \<noteq> address_space_kernel"
    proof -
      have t: track using track k by simp
      have slot: "(?r, vpath v) \<in> slots ?K ?R 4" if "v < USER_CANONICAL_TOP" for v
        using walk_slots(8) [of ?K ?R ?r v] V(5) [OF a] user_half [OF that] by (simp add: owns_def)
      have "tab (phys_words s2) ?r (vpath v) = tab (phys_words ?s) ?r (vpath v)"
        if "v < USER_CANONICAL_TOP" "page_of v = v" "v \<noteq> va" for v
        by (rule same [OF slot [OF that(1)]]) (use vpath_inj [OF _ A(2), of v] that A(3) in \<open>auto simp: canonical_def\<close>)
      then show ?thesis unfolding as'_def using t A k M(6) none a
        by (simp add: records_add [OF V(4) [OF a k]] frame_at_def)
    qed
    have "as'\<lparr>mappings := []\<rparr> = as\<lparr>mappings := []\<rparr>" by (simp add: as'_def)
    note U = vm_update [OF inv a this M(3) A same tops rec]
    have "handed flags pa s ext = handed flags pa ?s ext" using m by (simp add: handed_def)
    then show ?thesis using run U none al M(4,6,7) P(2) kp m same_managed_trans
      unfolding map_outcome_def by (intro exI conjI) auto
  qed
qed

text \<open>A mapped leaf is cleared, and the tables that became empty are dropped.\<close>

lemma unmap_leaf:
  assumes inv: "pt_inv K R ext s" and own: "owns K R r va" and w: "walk_to_pte r va (phys_words s) = Some w"
    "page_walk_present (pte w (phys_words s))"
  shows "\<exists>s1 s2. put_if_managed (pte w (phys_words s) AND PAGE_ADDR_MASK) (write_entry (w_pt w) (pt_index w) 0 s) = Some s1 \<and>
    drop_tables w s1 = Some s2 \<and> pt_inv K R ext s2 \<and> same_managed s s2 \<and> tops_same K R (phys_words s) (phys_words s2) \<and>
    (\<forall>r' \<pi>. (r', \<pi>) \<in> slots K R 4 \<longrightarrow> length \<pi> = 4 \<longrightarrow> (r', \<pi>) \<noteq> (r, vpath va) \<longrightarrow>
       tab (phys_words s2) r' \<pi> = tab (phys_words s) r' \<pi>) \<and>
    tab (phys_words s2) r (vpath va) = None"
proof -
  note I = pt_invD [OF inv] and sl = walk_slots [OF own]
  have mr: "masked r" using own I(5) by (simp add: owns_def)
  let ?i = "level_index 12 va"
  obtain t where t: "tab (phys_words s) r (tl (vpath va)) = Some t" "w_pt w = t" "pt_index w = ?i"
    using w(1) unfolding walk_tab [OF mr] by (auto split: option.splits)
  have vp: "vpath va = ?i # tl (vpath va)" and len: "\<not> length (tl (vpath va)) \<le> 2" and nn: "tl (vpath va) \<noteq> []"
    by (simp_all add: vpath_def)
  have sl8: "(r, ?i # tl (vpath va)) \<in> slots K R 4" using sl(8) by (simp add: vpath_def)
  have u: "tab (phys_words s) r (?i # tl (vpath va)) = Some (pte w (phys_words s) AND PAGE_ADDR_MASK)"
    unfolding vp [symmetric] tab_leaf [OF mr] w(1) using w(2) by simp
  obtain s1 where s1: "put_if_managed (pte w (phys_words s) AND PAGE_ADDR_MASK) (write_entry t ?i 0 s) = Some s1"
    "pt_inv K R ext s1" "same_managed s s1" "changes_at K R r (vpath va) (phys_words s) (phys_words s1)"
    "tab (phys_words s1) r (vpath va) = None"
    using pt_detach [OF inv sl(4) t(1) sl8 u notE [OF len] notE [OF nn], folded vp] by blast
  have pre: "tab (phys_words s1) r \<pi> = tab (phys_words s) r \<pi>" if "(r, \<pi>) \<in> slots K R 4" "length \<pi> \<le> 3" for \<pi>
    by (rule changes_atD [OF s1(4) that(1)]) (use that(2) in auto)
  have "walk_to_pte r va (phys_words s1) = Some w"
    using w(1) pre [OF sl(5)] pre [OF sl(6)] pre [OF sl(7)] t(1) unfolding walk_tab [OF mr] by (simp del: tab.simps)
  from drop_tables_spec [OF s1(2) own this] obtain s2 where
    s2: "drop_tables w s1 = Some s2" "pt_inv K R ext s2" "same_managed s1 s2" "leaves_same K R (phys_words s1) (phys_words s2)" by blast
  have "tops_same K R (phys_words s) (phys_words s2)"
    using s1(4) s2(4) tops_same_trans unfolding changes_at_def leaves_same_def by blast
  moreover have "tab (phys_words s2) r' \<pi> = tab (phys_words s) r' \<pi>"
    if "(r', \<pi>) \<in> slots K R 4" "length \<pi> = 4" "(r', \<pi>) \<noteq> (r, vpath va)" for r' \<pi>
    using changes_atD [OF s1(4) that(1,3)] s2(4) that(1,2) by (simp add: leaves_same_def)
  moreover have "tab (phys_words s2) r (vpath va) = None" using s1(5) s2(4) sl(8) by (simp add: leaves_same_def)
  ultimately show ?thesis using s1(1) s2(1,2) same_managed_trans [OF s1(3) s2(3)] unfolding t(2,3) by blast
qed

lemma frame_at_walk:
  assumes "masked (pml4_phys as)" "vm_spaces st a = Some as"
  shows "frame_at a va st =
    (case walk_to_pte (pml4_phys as) va (phys_words (vm_phys st)) of
       None \<Rightarrow> None
     | Some w \<Rightarrow> if page_walk_present (pte w (phys_words (vm_phys st))) then Some (pte w (phys_words (vm_phys st)) AND PAGE_ADDR_MASK) else None)"
  using assms by (simp add: frame_at_def tab_leaf)

lemma unmap_page_internal_spec:
  assumes inv: "vm_inv ext st" and a: "vm_spaces st a = Some as" and track: "track \<or> a = address_space_kernel"
  shows "\<exists>r st'. unmap_page_internal (Some a) va kr track st = Some (r, st') \<and>
    (r = 0 \<and> mapping_allowed (Some a) va kr \<and> frame_at a va st \<noteq> None \<and> frame_at a va st' = None \<and>
       vm_inv ext st' \<and> others_same a va st st' \<and> same_objects st st' \<and> same_managed (vm_phys st) (vm_phys st') \<or>
     r = -1 \<and> st' = st \<and> (mapping_allowed (Some a) va kr \<longrightarrow> frame_at a va st = None))"
proof (cases "mapping_allowed (Some a) va kr \<and> frame_at a va st \<noteq> None")
  case False
  then have "unmap_page_internal (Some a) va kr track st = Some (-1, st)"
    using frame_at_walk [OF vm_invD(6) [OF inv a] a, of va] a
    by (auto simp: unmap_page_internal_def split: option.splits if_splits)
  with False show ?thesis by auto
next
  case True
  then have al: "mapping_allowed (Some a) va kr" and fr: "frame_at a va st \<noteq> None" by simp_all
  note A = mapping_allowedD [OF al] and V = vm_invD [OF inv] and own = owns_allowed [OF inv a al]
  let ?K = "kroot st" and ?R = "roots st" and ?s = "vm_phys st" and ?r = "pml4_phys as"
  obtain w where w: "walk_to_pte ?r va (phys_words ?s) = Some w" "page_walk_present (pte w (phys_words ?s))"
    using fr unfolding frame_at_walk [OF V(6) [OF a] a] by (auto split: option.splits if_splits)
  obtain s1 s2 where U: "put_if_managed (pte w (phys_words ?s) AND PAGE_ADDR_MASK) (write_entry (w_pt w) (pt_index w) 0 ?s) = Some s1"
    "drop_tables w s1 = Some s2" "pt_inv ?K ?R ext s2" "same_managed ?s s2" "tops_same ?K ?R (phys_words ?s) (phys_words s2)"
    "\<And>r' \<pi>. (r', \<pi>) \<in> slots ?K ?R 4 \<Longrightarrow> length \<pi> = 4 \<Longrightarrow> (r', \<pi>) \<noteq> (?r, vpath va) \<Longrightarrow>
       tab (phys_words s2) r' \<pi> = tab (phys_words ?s) r' \<pi>"
    "tab (phys_words s2) ?r (vpath va) = None" using unmap_leaf [OF V(2) own w] by blast
  define as' where "as' = (if track then as\<lparr>mappings := remove_mapping va (mappings as)\<rparr> else as)"
  have run: "unmap_page_internal (Some a) va kr track st = Some (0, set_space a as' s2 st)"
    using al a w U(1,2) unfolding unmap_page_internal_def Let_def as'_def by simp
  have rec: "records_ok (phys_words s2) as'" if k: "a \<noteq> address_space_kernel"
  proof -
    have slot: "(?r, vpath v) \<in> slots ?K ?R 4" if "v < USER_CANONICAL_TOP" for v
      using walk_slots(8) [of ?K ?R ?r v] V(5) [OF a] user_half [OF that] by (simp add: owns_def)
    have "tab (phys_words s2) ?r (vpath v) = tab (phys_words ?s) ?r (vpath v)"
      if "v < USER_CANONICAL_TOP" "page_of v = v" "v \<noteq> va" for v
      by (rule U(6) [OF slot [OF that(1)]]) (use vpath_inj [OF _ A(2), of v] that A(3) in \<open>auto simp: canonical_def\<close>)
    then show ?thesis unfolding as'_def using track k U(7) by (simp add: records_remove [OF V(4) [OF a k]])
  qed
  have "as'\<lparr>mappings := []\<rparr> = as\<lparr>mappings := []\<rparr>" by (simp add: as'_def)
  note T = vm_update [OF inv a this U(3) A U(6,5) rec]
  then show ?thesis using run al fr U(4,7) by (intro exI conjI disjI1) auto
qed

end
