(* ===== verification/Vranges.thy ===== *)
theory Vranges
  imports Vspace
begin

text \<open>
  The range operations on address spaces: the pages of a range, mapping with rollback, unmapping and
  protection, and a small machine on which the properties are exercised.
\<close>

section \<open>The pages of a range\<close>

lemma page_range_length_unat:
  assumes "page_range_length len = Some rounded"
  shows "unat rounded mod 4096 = 0" "0 < unat rounded"
proof -
  from assms have r: "rounded = (len + PAGE_SIZE - 1) AND NOT (PAGE_SIZE - 1)" and l: "len \<noteq> 0" "len \<le> UINT64_MAX - (PAGE_SIZE - 1)"
    by (auto simp: page_range_length_def split: if_splits)
  have "len + PAGE_SIZE - 1 = len + (PAGE_SIZE - 1)" by simp
  with r have r': "rounded = (len + (PAGE_SIZE - 1)) AND NOT (PAGE_SIZE - 1)" by simp
  have "unat len \<le> 2 ^ 64 - 4096" using l(2) by (simp add: word_le_nat_alt)
  then have "unat rounded = page_ceil (unat len)" unfolding r' by (intro unat_page_ceil) simp
  moreover have "0 < unat len" using l(1) by (simp add: word_unat_eq_iff)
  ultimately show "unat rounded mod 4096 = 0" "0 < unat rounded" using page_ceil_bounds(1,4) by simp_all
qed

lemma unat_offset: "i < unat (rounded div PAGE_SIZE) \<Longrightarrow> unat (of_nat i * PAGE_SIZE :: u64) = i * 4096" for rounded :: u64
proof -
  assume "i < unat (rounded div PAGE_SIZE)"
  then have "i * 4096 < unat rounded div 4096 * 4096" unfolding unat_page_div by simp
  also have "\<dots> \<le> unat rounded" by (rule div_times_less_eq_dividend)
  finally have "i * 4096 < 2 ^ 64" using unat_bound [of rounded] by simp
  then show ?thesis by (simp add: unat_word_ariths unat_of_nat)
qed

lemma offsets_props:
  "distinct (offsets rounded)"
  "off \<in> set (offsets rounded) \<Longrightarrow> unat off mod 4096 = 0"
  "off \<in> set (offsets rounded) \<Longrightarrow> unat off + 4096 \<le> unat rounded"
proof -
  let ?f = "\<lambda>i. of_nat i * PAGE_SIZE :: u64" and ?n = "unat (rounded div PAGE_SIZE)"
  have u: "unat (?f i) = i * 4096" if "i < ?n" for i by (rule unat_offset [OF that])
  have "inj_on ?f {0 ..< ?n}"
  proof (rule inj_onI)
    fix i j assume "i \<in> {0 ..< ?n}" "j \<in> {0 ..< ?n}" and e: "?f i = ?f j"
    then have "i * 4096 = j * 4096" using u [of i] u [of j] unfolding e by (simp only: atLeastLessThan_iff)
    then show "i = j" by (simp only: mult_cancel2) simp
  qed
  then show "distinct (offsets rounded)" unfolding offsets_def distinct_map by (simp only: set_upt distinct_upt simp_thms)
  assume "off \<in> set (offsets rounded)"
  then obtain i where i: "i < ?n" "off = ?f i" unfolding offsets_def set_map set_upt by (elim imageE) (blast dest: atLeastLessThan_iff [THEN iffD1])
  then have o: "unat off = i * 4096" using u by (simp only:)
  have "Suc i * 4096 \<le> unat rounded div 4096 * 4096" using i(1) unfolding unat_page_div by (intro mult_le_mono1) simp
  also have "\<dots> \<le> unat rounded" by (rule div_times_less_eq_dividend)
  finally show "unat off + 4096 \<le> unat rounded" using o by simp
  show "unat off mod 4096 = 0" using o by simp
qed

lemma range_ok_pages:
  assumes "range_ok (Some a) va len = Some (rounded, kr)"
  shows "kr \<longleftrightarrow> a = address_space_kernel"
    "off \<in> set (offsets rounded) \<Longrightarrow> mapping_allowed (Some a) (va + off) kr"
    "unat va + unat rounded \<le> 2 ^ 64"
proof -
  from assms have l: "page_range_length len = Some rounded" and kr: "kr \<longleftrightarrow> a = address_space_kernel"
    and va: "va \<le> UINT64_MAX - (rounded - 1)" and al: "mapping_allowed (Some a) va kr" "mapping_allowed (Some a) (va + rounded - PAGE_SIZE) kr"
    by (auto simp: range_ok_def Let_def split: option.splits if_splits)
  note R = page_range_length_unat [OF l]
  have r1: "unat (rounded - 1) = unat rounded - 1" using R(2) by (simp add: unat_minus_one word_unat_eq_iff)
  from va have "\<not> UINT64_MAX - (rounded - 1) < va" by (simp only: not_less)
  with R(2) show b: "unat va + unat rounded \<le> 2 ^ 64" unfolding range_wraps_iff r1 by linarith
  show "kr \<longleftrightarrow> a = address_space_kernel" by (rule kr)
  assume off: "off \<in> set (offsets rounded)"
  note O = offsets_props(2,3) [OF off]
  have u: "unat (va + off) = unat va + unat off" by (rule unat_add_no_wrap) (use b O in linarith)
  have va0: "unat va mod 4096 = 0" using al(1) aligned_unat [of va] by (simp add: mapping_allowed_def phys_page_aligned_def)
  have al': "(va + off) AND (PAGE_SIZE - 1) = 0"
    using aligned_unat [of "va + off"] u va0 O(1) by (simp add: phys_page_aligned_def mod_add_eq [symmetric])
  have l4: "4096 \<le> unat rounded" using O(2) by simp
  have last: "unat (va + rounded - PAGE_SIZE) = unat va + unat rounded - 4096"
  proof -
    have e: "va + rounded - PAGE_SIZE = va + (rounded - PAGE_SIZE)" by simp
    have u: "unat (rounded - PAGE_SIZE) = unat rounded - 4096" using l4 by (simp add: unat_sub word_le_nat_alt)
    have "unat va + unat (rounded - PAGE_SIZE) < 2 ^ 64" unfolding u using b l4 by linarith
    from unat_add_no_wrap [OF this] show ?thesis unfolding e u using l4 by linarith
  qed
  have "va \<le> va + off" "va + off \<le> va + rounded - PAGE_SIZE" using u last O(2) by (simp_all add: word_le_nat_alt)
  then show "mapping_allowed (Some a) (va + off) kr" using al al' unfolding mapping_allowed_def
    by (auto split: if_splits intro: order_trans le_less_trans)
qed

section \<open>What a range operation leaves alone\<close>

definition same_outside :: "addr \<Rightarrow> u64 set \<Rightarrow> vm_state \<Rightarrow> vm_state \<Rightarrow> bool" where
  "same_outside a P st st' \<longleftrightarrow>
     (\<forall>b v. canonical v \<longrightarrow> b \<noteq> a \<and> page_of v < USER_CANONICAL_TOP \<or> page_of v \<notin> P \<longrightarrow> frame_at b v st' = frame_at b v st)"

lemma same_outside_one: "others_same a va st st' \<longleftrightarrow> same_outside a {va} st st'"
  unfolding others_same_def same_outside_def by auto

lemma same_outside_refl: "same_outside a P st st"
  by (simp add: same_outside_def)

lemma same_outside_mono: "same_outside a P st st' \<Longrightarrow> P \<subseteq> Q \<Longrightarrow> same_outside a Q st st'"
  unfolding same_outside_def by blast

lemma same_outside_all: "all_same st st' \<Longrightarrow> same_outside a P st st'"
  by (simp add: same_outside_def all_same_def)

lemma same_outside_trans:
  "same_outside a P st st' \<Longrightarrow> same_outside a Q st' st'' \<Longrightarrow> same_outside a (P \<union> Q) st st''"
  unfolding same_outside_def by simp

lemma same_outsideD:
  "same_outside a P st st' \<Longrightarrow> canonical v \<Longrightarrow> page_of v = v \<Longrightarrow> v \<notin> P \<Longrightarrow> frame_at b v st' = frame_at b v st"
  by (simp add: same_outside_def)

lemma same_objects_trans: "same_objects st st' \<Longrightarrow> same_objects st' st'' \<Longrightarrow> same_objects st st''"
  by (simp add: same_objects_def)

lemma same_objects_space: "same_objects st st' \<Longrightarrow> vm_spaces st a = Some as \<Longrightarrow> \<exists>as'. vm_spaces st' a = Some as'"
  unfolding same_objects_def by (metis map_option_eq_Some option.collapse option.simps(8))

lemma unmap_pages_spec:
  assumes "vm_inv ext st" "vm_spaces st a = Some as" "distinct offs"
    "\<And>off. off \<in> set offs \<Longrightarrow> mapping_allowed (Some a) (va + off) kr \<and> frame_at a (va + off) st \<noteq> None"
  shows "\<exists>st'. unmap_pages a va kr offs st = Some st' \<and> vm_inv ext st' \<and> same_outside a ((+) va ` set offs) st st' \<and>
    (\<forall>off \<in> set offs. frame_at a (va + off) st' = None) \<and> same_objects st st' \<and> same_managed (vm_phys st) (vm_phys st')"
  using assms
proof (induction offs arbitrary: st as)
  case Nil
  then show ?case by (simp add: same_outside_refl same_objects_def)
next
  case (Cons off offs)
  have al: "mapping_allowed (Some a) (va + off) kr" "frame_at a (va + off) st \<noteq> None" using Cons.prems(4) by simp_all
  obtain st1 where s1: "unmap_page_internal (Some a) (va + off) kr True st = Some (0, st1)" "frame_at a (va + off) st1 = None"
    "vm_inv ext st1" "same_outside a {va + off} st st1" "same_objects st st1" "same_managed (vm_phys st) (vm_phys st1)"
    using unmap_page_internal_spec [OF Cons.prems(1,2) disjI1 [OF TrueI], of "va + off" kr] al unfolding same_outside_one by auto
  obtain as1 where a1: "vm_spaces st1 a = Some as1" using same_objects_space [OF s1(5) Cons.prems(2)] by blast
  have keep: "mapping_allowed (Some a) (va + o') kr \<and> frame_at a (va + o') st1 \<noteq> None" if o': "o' \<in> set offs" for o'
  proof -
    have A: "mapping_allowed (Some a) (va + o') kr" "frame_at a (va + o') st \<noteq> None" using Cons.prems(4) o' by simp_all
    have "va + o' \<notin> {va + off}" using Cons.prems(3) o' by auto
    from same_outsideD [OF s1(4) mapping_allowedD(2,3) [OF A(1)] this] A show ?thesis by simp
  qed
  from Cons.IH [OF s1(3) a1 _ keep] Cons.prems(3) obtain st2 where
    s2: "unmap_pages a va kr offs st1 = Some st2" "vm_inv ext st2" "same_outside a ((+) va ` set offs) st1 st2"
      "\<forall>off \<in> set offs. frame_at a (va + off) st2 = None" "same_objects st1 st2" "same_managed (vm_phys st1) (vm_phys st2)" by auto
  have "va + off \<notin> (+) va ` set offs" using Cons.prems(3) by auto
  from same_outsideD [OF s2(3) mapping_allowedD(2,3) [OF al(1)] this] have "frame_at a (va + off) st2 = None" using s1(2) by simp
  moreover have "(+) va ` set (off # offs) = {va + off} \<union> (+) va ` set offs" by simp
  ultimately show ?case
    using s1(1) s2 same_outside_trans [OF s1(4) s2(3)] same_objects_trans [OF s1(5) s2(5)] same_managed_trans [OF s1(6) s2(6)] by simp
qed

text \<open>A page that is free in the kernel's space is free in the upper half of every space.\<close>

lemma upper_half:
  assumes "PHYSMAP_BASE \<le> va"
  shows "256 \<le> level_index 39 va"
proof -
  have c: "canonical va" using assms by (simp add: canonical_def)
  have "bit va 63"
  proof (rule ccontr)
    assume "\<not> bit va 63"
    then have "take_bit 63 va = va" by (intro bit_word_eqI) (auto simp: bit_take_bit_iff less_Suc_eq numeral_eq_Suc)
    then have "unat va < 2 ^ 63" by (metis take_bit_nat_less_exp unsigned_take_bit_eq)
    with assms show False by (simp add: word_le_nat_alt)
  qed
  with canonical_bits [OF c, of 63] have "bit va 47" by simp
  then have "bit (drop_bit 39 va AND 0x1ff) 8" by (simp add: bit_and_iff bit_drop_bit_eq)
  then have "\<not> unat (drop_bit 39 va AND 0x1ff) < 2 ^ 8" using small_bits by blast
  then show ?thesis by (simp add: level_index_def)
qed

lemma kernel_page_free:
  assumes inv: "vm_inv ext st" and v: "canonical v" "\<not> page_of v < USER_CANONICAL_TOP"
    and none: "frame_at address_space_kernel v st = None"
  shows "frame_at b v st = None"
proof (cases "vm_spaces st b")
  case (Some bs)
  note V = vm_invD [OF inv]
  obtain ks where ks: "vm_spaces st address_space_kernel = Some ks" using V(1) by blast
  have "unat (page_of v) \<le> unat v" unfolding page_of_def unat_page_floor by simp
  then have "PHYSMAP_BASE \<le> v" using v by (auto simp: canonical_def word_le_nat_alt word_less_nat_alt)
  note i = upper_half [OF this] level_index_less [of 39 v]
  have p: "vpath v = [level_index 12 v, level_index 21 v, level_index 30 v] @ [level_index 39 v]" by (simp add: vpath_def)
  have "tab (phys_words (vm_phys st)) (kroot st) (vpath v) = None" using none ks by (simp add: frame_at_def kroot_def)
  then have "tab (phys_words (vm_phys st)) (pml4_phys bs) (vpath v) = None"
    unfolding p tab_shared [OF pt_invD(7) [OF V(2)] V(5) [OF Some] i] by simp
  then show ?thesis by (simp add: frame_at_def Some)
qed (simp add: frame_at_def)

text \<open>Pages that were free and are free again.\<close>

lemma same_outside_restored:
  assumes inv: "vm_inv ext st" "vm_inv ext' st'" and same: "same_outside a P st st'"
    and P: "\<And>v. v \<in> P \<Longrightarrow> canonical v \<and> page_of v = v \<and> (v < USER_CANONICAL_TOP \<or> a = address_space_kernel) \<and>
      frame_at a v st = None \<and> frame_at a v st' = None"
  shows "same_outside a {} st st'"
  unfolding same_outside_def
proof (intro allI impI)
  fix b v assume v: "canonical v"
  show "frame_at b v st' = frame_at b v st"
  proof (cases "b \<noteq> a \<and> page_of v < USER_CANONICAL_TOP \<or> page_of v \<notin> P")
    case True
    then show ?thesis using same v unfolding same_outside_def by blast
  next
    case False
    then have p: "page_of v \<in> P" and ba: "b = a \<or> \<not> page_of v < USER_CANONICAL_TOP" by auto
    note F = P [OF p]
    have "vpath v = vpath (page_of v)" using vpath_inj [OF v, of "page_of v"] F by simp
    then have "frame_at a v x = frame_at a (page_of v) x" for x by (simp only: frame_at_def)
    then have fa: "frame_at a v st = None" "frame_at a v st' = None" using F by simp_all
    show ?thesis
    proof (cases "b = a")
      case False
      with ba have u: "\<not> page_of v < USER_CANONICAL_TOP" by simp
      with F have "a = address_space_kernel" by simp
      with fa kernel_page_free [OF inv(1) v u] kernel_page_free [OF inv(2) v u] show ?thesis by simp
    qed (use fa in simp)
  qed
qed

lemma map_pages_spec:
  assumes "vm_inv ext st" "vm_spaces st a = Some as" "distinct (dn @ offs)" "flags AND ADDRESS_SPACE_MAP_OWNED = 0"
    "\<And>off. off \<in> set (dn @ offs) \<Longrightarrow> mapping_allowed (Some a) (va + off) kr"
    "\<And>off. off \<in> set dn \<Longrightarrow> frame_at a (va + off) st \<noteq> None"
    "\<And>off. off \<in> set offs \<Longrightarrow> masked (pa + off)"
    "\<And>off. off \<in> set offs \<Longrightarrow> phys_page_is_managed (pa + off) (vm_phys st) \<Longrightarrow>
       0 < ext (pa + off) \<and> refs_at (vm_phys st) (pa + off) < 2 ^ 32 - 2"
  shows "\<exists>r st'. map_pages a va pa flags kr dn offs oks st = Some (r, st') \<and> vm_inv ext st' \<and> same_objects st st' \<and>
    same_managed (vm_phys st) (vm_phys st') \<and> same_outside a ((+) va ` set (dn @ offs)) st st' \<and>
    (r = 0 \<and> same_outside a ((+) va ` set offs) st st' \<and> (\<forall>off \<in> set offs. frame_at a (va + off) st' = Some (pa + off)) \<or>
     r = -1 \<and> (\<forall>off \<in> set dn. frame_at a (va + off) st' = None) \<and>
       (\<forall>off \<in> set offs. frame_at a (va + off) st' = frame_at a (va + off) st))"
  using assms
proof (induction offs arbitrary: st as dn oks)
  case Nil
  then show ?case by (simp add: same_outside_refl same_objects_def)
next
  case (Cons off offs)
  have al: "mapping_allowed (Some a) (va + off) kr" using Cons.prems(5) by simp
  have ho: "handed flags (pa + off) (vm_phys st) ext = ext" using Cons.prems(4) by (simp add: handed_def)
  obtain r1 st1 where M: "map_page_internal (Some a) (va + off) (pa + off) flags kr True (oks \<noteq> [] \<and> hd oks) st = Some (r1, st1)"
    "map_outcome ext a (va + off) (pa + off) flags st r1 st1"
    using map_page_internal_spec [OF Cons.prems(1,2) disjI1 [OF TrueI] Cons.prems(7) Cons.prems(8)] by (metis list.set_intros(1))
  note O = M(2) [unfolded map_outcome_def ho same_outside_one]
  have b: "same_objects st st1" "same_managed (vm_phys st) (vm_phys st1)" using O by simp_all
  obtain as1 where a1: "vm_spaces st1 a = Some as1" using same_objects_space [OF b(1) Cons.prems(2)] by blast
  show ?case
  proof (cases "r1 = 0")
    case False
    then have F: "r1 = -1" "vm_inv ext st1" "all_same st st1" using O by simp_all
    have "distinct dn" using Cons.prems(3) by simp
    from unmap_pages_spec [OF F(2) a1 this, of va kr] Cons.prems(5,6) F(3) obtain st2 where
      s2: "unmap_pages a va kr dn st1 = Some st2" "vm_inv ext st2" "same_outside a ((+) va ` set dn) st1 st2"
        "\<forall>off \<in> set dn. frame_at a (va + off) st2 = None" "same_objects st1 st2" "same_managed (vm_phys st1) (vm_phys st2)"
      by (auto simp: all_same_def)
    have "frame_at a (va + o') st2 = frame_at a (va + o') st" if "o' \<in> set (off # offs)" for o'
    proof -
      have "va + o' \<notin> (+) va ` set dn" using Cons.prems(3) that by auto
      moreover have "mapping_allowed (Some a) (va + o') kr" using Cons.prems(5) [of o'] that by auto
      ultimately show ?thesis using same_outsideD [OF s2(3) mapping_allowedD(2,3)] F(3) by (simp add: all_same_def)
    qed
    moreover have "same_outside a ((+) va ` set (dn @ off # offs)) st st2"
      by (rule same_outside_mono [OF same_outside_trans [OF same_outside_all [OF F(3), where P = "{}"] s2(3)]]) auto
    ultimately show ?thesis
      using M(1) F s2 same_objects_trans [OF b(1) s2(5)] same_managed_trans [OF b(2) s2(6)] by simp
  next
    case True
    then have T: "frame_at a (va + off) st = None" "frame_at a (va + off) st1 = Some (pa + off)" "vm_inv ext st1"
      "same_outside a {va + off} st st1" using O by simp_all
    note N = Cons.prems(3)
    have fr: "frame_at a (va + o') st1 = frame_at a (va + o') st" if "o' \<in> set (dn @ offs)" for o'
    proof -
      have "va + o' \<notin> {va + off}" using N that by auto
      moreover have "mapping_allowed (Some a) (va + o') kr" using Cons.prems(5) [of o'] that by auto
      ultimately show ?thesis using same_outsideD [OF T(4) mapping_allowedD(2,3)] by blast
    qed
    have rf: "0 < ext (pa + o') \<and> refs_at (vm_phys st1) (pa + o') < 2 ^ 32 - 2"
      if o': "o' \<in> set offs" and m: "phys_page_is_managed (pa + o') (vm_phys st1)" for o'
    proof -
      have m': "phys_page_is_managed (pa + o') (vm_phys st)" using m b(2) by (simp add: same_managed_def)
      note e = Cons.prems(8) [of o', OF _ m']
      have "0 < refs_at (vm_phys st) (pa + o')"
        using pt_invD(8) [OF vm_invD(2) [OF Cons.prems(1)] m'] e o' by simp
      moreover have "pa + o' \<noteq> pa + off" using N o' by auto
      ultimately have "refs_at (vm_phys st1) (pa + o') = refs_at (vm_phys st) (pa + o')" using O m' by blast
      with e o' show ?thesis by simp
    qed
    have d: "distinct ((off # dn) @ offs)" using N by auto
    have dn: "frame_at a (va + o') st1 \<noteq> None" if "o' \<in> set (off # dn)" for o' using T(2) fr Cons.prems(6) that by auto
    have al': "mapping_allowed (Some a) (va + o') kr" if "o' \<in> set ((off # dn) @ offs)" for o' using Cons.prems(5) that by auto
    have ma: "masked (pa + o')" if "o' \<in> set offs" for o' using Cons.prems(7) that by simp
    obtain r st2 where s2: "map_pages a va pa flags kr (off # dn) offs (tl oks) st1 = Some (r, st2)" "vm_inv ext st2" "same_objects st1 st2"
      "same_managed (vm_phys st1) (vm_phys st2)" "same_outside a ((+) va ` set ((off # dn) @ offs)) st1 st2"
      "r = 0 \<and> same_outside a ((+) va ` set offs) st1 st2 \<and> (\<forall>off \<in> set offs. frame_at a (va + off) st2 = Some (pa + off)) \<or>
       r = -1 \<and> (\<forall>off \<in> set (off # dn). frame_at a (va + off) st2 = None) \<and>
       (\<forall>off \<in> set offs. frame_at a (va + off) st2 = frame_at a (va + off) st1)"
      using Cons.IH [OF T(3) a1 d Cons.prems(4) al' dn ma rf] by blast
    have eq: "{va + off} \<union> (+) va ` set ((off # dn) @ offs) = (+) va ` set (dn @ off # offs)" by auto
    note W = same_outside_trans [OF T(4) s2(5), unfolded eq]
    have z: "same_outside a ((+) va ` set (off # offs)) st st2 \<and> frame_at a (va + off) st2 = Some (pa + off)"
      if "same_outside a ((+) va ` set offs) st1 st2"
    proof
      show "same_outside a ((+) va ` set (off # offs)) st st2" using same_outside_trans [OF T(4) that] by simp
      have "va + off \<notin> (+) va ` set offs" using N by auto
      from same_outsideD [OF that mapping_allowedD(2,3) [OF al] this] T(2) show "frame_at a (va + off) st2 = Some (pa + off)" by simp
    qed
    have "r = 0 \<and> same_outside a ((+) va ` set (off # offs)) st st2 \<and> (\<forall>off \<in> set (off # offs). frame_at a (va + off) st2 = Some (pa + off)) \<or>
     r = -1 \<and> (\<forall>off \<in> set dn. frame_at a (va + off) st2 = None) \<and>
       (\<forall>off \<in> set (off # offs). frame_at a (va + off) st2 = frame_at a (va + off) st)"
      using s2(6) z fr T(1) by auto
    then show ?thesis
      using M(1) True s2(1,2) W same_objects_trans [OF b(1) s2(3)] same_managed_trans [OF b(2) s2(4)] by simp
  qed
qed

section \<open>Range operations\<close>

lemma page_is_mapped_frame:
  assumes "vm_inv ext st" "vm_spaces st a = Some as"
  shows "page_is_mapped a va st = Some (frame_at a va st \<noteq> None)"
  unfolding page_is_mapped_def frame_at_walk [OF vm_invD(6) [OF assms] assms(2)] using assms(2) by (auto split: option.split)

lemma all_mapped_frames:
  assumes "vm_inv ext st" "vm_spaces st a = Some as"
  shows "all_mapped want a va offs st = Some (\<forall>off \<in> set offs. (frame_at a (va + off) st \<noteq> None) = want)"
  by (induction offs) (simp_all add: page_is_mapped_frame [OF assms])

lemma translate_frame:
  assumes "vm_inv ext st"
  shows "address_space_translate (Some b) v st =
    (if vm_spaces st b = None then None
     else Some (case frame_at b v st of None \<Rightarrow> UINT64_MAX | Some f \<Rightarrow> f OR (v AND (PAGE_SIZE - 1))))"
proof (cases "vm_spaces st b")
  case (Some as)
  then show ?thesis using vm_invD(6) [OF assms Some] by (simp add: address_space_translate_def frame_at_def translate_tab)
qed (simp add: address_space_translate_def)

lemma same_objects_dom: "same_objects st st' \<Longrightarrow> vm_spaces st' b = None \<longleftrightarrow> vm_spaces st b = None"
  unfolding same_objects_def by (metis option.map_disc_iff)

lemma translate_same:
  "vm_inv ext st \<Longrightarrow> vm_inv ext' st' \<Longrightarrow> same_objects st st' \<Longrightarrow> frame_at b v st' = frame_at b v st \<Longrightarrow>
   address_space_translate (Some b) v st' = address_space_translate (Some b) v st"
  by (simp add: translate_frame same_objects_dom)

text \<open>The references that mapping a page takes are to pages of the caller.\<close>

definition holds_pages :: "(u64 \<Rightarrow> nat) \<Rightarrow> u64 \<Rightarrow> u64 \<Rightarrow> phys_state \<Rightarrow> bool" where
  "holds_pages ext pa len s \<longleftrightarrow>
     (\<forall>off \<in> set (offsets (case page_range_length len of None \<Rightarrow> 0 | Some n \<Rightarrow> n)). masked (pa + off) \<and>
        (phys_page_is_managed (pa + off) s \<longrightarrow> 0 < ext (pa + off) \<and> refs_at s (pa + off) < 2 ^ 32 - 2))"

definition range_pages :: "u64 \<Rightarrow> u64 \<Rightarrow> u64 set" where
  "range_pages va len = (+) va ` set (offsets (case page_range_length len of None \<Rightarrow> 0 | Some n \<Rightarrow> n))"

lemma range_ok_length: "range_ok ao va len = Some (rounded, kr) \<Longrightarrow> page_range_length len = Some rounded"
  by (auto simp: range_ok_def Let_def split: option.splits if_splits)

lemma map_range_outcome:
  assumes inv: "vm_inv ext st" and a: "vm_spaces st a = Some as" and pages: "holds_pages ext pa len (vm_phys st)"
  shows "\<exists>r st'. address_space_map_range (Some a) va pa len flags oks st = Some (r, st') \<and> vm_inv ext st' \<and> same_objects st st' \<and>
    same_managed (vm_phys st) (vm_phys st') \<and>
    (r = 0 \<and> same_outside a (range_pages va len) st st' \<and>
       (\<forall>off \<in> set (offsets (the (page_range_length len))). frame_at a (va + off) st = None \<and> frame_at a (va + off) st' = Some (pa + off)) \<or>
     r = -1 \<and> same_outside a {} st st')"
proof -
  have fail: ?thesis if "address_space_map_range (Some a) va pa len flags oks st = Some (-1, st)"
    using that inv by (simp add: same_outside_refl same_objects_def)
  show ?thesis
  proof (cases "range_ok (Some a) va len")
    case None
    then show ?thesis by (intro fail) (simp add: address_space_map_range_def)
  next
    case (Some p)
    then obtain rounded kr where ok: "range_ok (Some a) va len = Some (rounded, kr)" by (cases p) simp
    note R = range_ok_pages [OF ok] and L = range_ok_length [OF ok]
    let ?offs = "offsets rounded"
    have P: "range_pages va len = (+) va ` set ?offs" by (simp add: range_pages_def L)
    show ?thesis
    proof (cases "pa AND (PAGE_SIZE - 1) \<noteq> 0 \<or> pa > UINT64_MAX - (rounded - 1) \<or> flags AND ADDRESS_SPACE_MAP_OWNED \<noteq> 0 \<or>
        (\<exists>off \<in> set ?offs. frame_at a (va + off) st \<noteq> None)")
      case True
      then show ?thesis by (intro fail) (auto simp: address_space_map_range_def ok all_mapped_frames [OF inv a])
    next
      case False
      then have fl: "flags AND ADDRESS_SPACE_MAP_OWNED = 0" and free: "\<And>off. off \<in> set ?offs \<Longrightarrow> frame_at a (va + off) st = None" by auto
      have run: "address_space_map_range (Some a) va pa len flags oks st = map_pages a va pa flags kr [] ?offs oks st"
        using False by (simp add: address_space_map_range_def ok all_mapped_frames [OF inv a])
      have H: "masked (pa + off)" "phys_page_is_managed (pa + off) (vm_phys st) \<Longrightarrow> 0 < ext (pa + off) \<and> refs_at (vm_phys st) (pa + off) < 2 ^ 32 - 2"
        if "off \<in> set ?offs" for off using pages that L by (simp_all add: holds_pages_def)
      obtain r st' where T: "map_pages a va pa flags kr [] ?offs oks st = Some (r, st')" "vm_inv ext st'" "same_objects st st'"
        "same_managed (vm_phys st) (vm_phys st')" "same_outside a ((+) va ` set ?offs) st st'"
        "r = 0 \<and> same_outside a ((+) va ` set ?offs) st st' \<and> (\<forall>off \<in> set ?offs. frame_at a (va + off) st' = Some (pa + off)) \<or>
         r = -1 \<and> (\<forall>off \<in> set ?offs. frame_at a (va + off) st' = frame_at a (va + off) st)"
        using map_pages_spec [OF inv a, of "[]" ?offs flags va kr pa oks] offsets_props(1) fl R(2) H by auto
      have undone: "same_outside a {} st st'" if same: "\<forall>off \<in> set ?offs. frame_at a (va + off) st' = frame_at a (va + off) st"
        by (rule same_outside_restored [OF inv T(2,5)]) (use mapping_allowedD [OF R(2)] free same in auto)
      show ?thesis unfolding run P L option.sel using T free undone by blast
    qed
  qed
qed

lemma unmap_range_outcome:
  assumes inv: "vm_inv ext st" and a: "vm_spaces st a = Some as"
  shows "\<exists>r st'. address_space_unmap_range (Some a) va len st = Some (r, st') \<and> vm_inv ext st' \<and> same_objects st st' \<and>
    same_managed (vm_phys st) (vm_phys st') \<and>
    (r = 0 \<and> same_outside a (range_pages va len) st st' \<and>
       (\<forall>v \<in> range_pages va len. frame_at a v st \<noteq> None \<and> frame_at a v st' = None) \<or>
     r = -1 \<and> st' = st)"
proof (cases "range_ok (Some a) va len")
  case None
  then show ?thesis using inv by (simp add: address_space_unmap_range_def same_objects_def)
next
  case (Some p)
  then obtain rounded kr where ok: "range_ok (Some a) va len = Some (rounded, kr)" by (cases p) simp
  note R = range_ok_pages [OF ok] and L = range_ok_length [OF ok]
  let ?offs = "offsets rounded"
  have P: "range_pages va len = (+) va ` set ?offs" by (simp add: range_pages_def L)
  show ?thesis
  proof (cases "\<forall>off \<in> set ?offs. frame_at a (va + off) st \<noteq> None")
    case True
    then have run: "address_space_unmap_range (Some a) va len st = map_option (Pair 0) (unmap_pages a va kr ?offs st)"
      by (auto simp: address_space_unmap_range_def ok all_mapped_frames [OF inv a])
    have "\<And>off. off \<in> set ?offs \<Longrightarrow> mapping_allowed (Some a) (va + off) kr \<and> frame_at a (va + off) st \<noteq> None" using R(2) True by simp
    from unmap_pages_spec [OF inv a offsets_props(1) this] obtain st' where "unmap_pages a va kr ?offs st = Some st'" "vm_inv ext st'"
      "same_outside a ((+) va ` set ?offs) st st'" "\<forall>off \<in> set ?offs. frame_at a (va + off) st' = None" "same_objects st st'"
      "same_managed (vm_phys st) (vm_phys st')" by blast
    with True show ?thesis unfolding run P by simp
  next
    case False
    then show ?thesis using inv by (auto simp: address_space_unmap_range_def ok all_mapped_frames [OF inv a] same_objects_def)
  qed
qed

text \<open>Protection changes the flags of an entry and neither its frame nor its presence.\<close>

lemma protect_entry:
  fixes e flags :: u64
  defines "c \<equiv> PAGE_WRITABLE OR PAGE_USER OR PAGE_NX"
  shows "((e AND NOT c) OR (flags AND c)) AND PAGE_ADDR_MASK = e AND PAGE_ADDR_MASK"
    "page_walk_present ((e AND NOT c) OR (flags AND c)) \<longleftrightarrow> page_walk_present e"
proof -
  have c: "c AND PAGE_ADDR_MASK = 0" "c AND 1 = 0" "NOT c AND PAGE_ADDR_MASK = PAGE_ADDR_MASK" "NOT c AND 1 = 1" by (simp_all add: c_def)
  have "(x AND y) AND z = x AND (y AND z)" for x y z :: u64 by (rule and.assoc)
  then show "((e AND NOT c) OR (flags AND c)) AND PAGE_ADDR_MASK = e AND PAGE_ADDR_MASK"
    "page_walk_present ((e AND NOT c) OR (flags AND c)) \<longleftrightarrow> page_walk_present e"
    unfolding page_walk_present_def bit.conj_disj_distrib2 by (simp_all add: c)
qed

lemma protect_page_spec:
  assumes inv: "vm_inv ext st" and a: "vm_spaces st a = Some as" and al: "mapping_allowed (Some a) va kr"
    and fr: "frame_at a va st \<noteq> None"
  shows "\<exists>st'. protect_page_internal (Some a) va flags kr st = Some (0, st') \<and> vm_inv ext st' \<and> all_same st st' \<and>
    vm_spaces st' = vm_spaces st \<and> same_managed (vm_phys st) (vm_phys st')"
proof -
  note A = mapping_allowedD [OF al] and V = vm_invD [OF inv] and own = owns_allowed [OF inv a al]
  let ?K = "kroot st" and ?R = "roots st" and ?s = "vm_phys st" and ?r = "pml4_phys as" and ?i = "level_index 12 va"
  note I = pt_invD [OF V(2)] and sl = walk_slots [OF own] and mr = V(6) [OF a]
  obtain w where w: "walk_to_pte ?r va (phys_words ?s) = Some w" "page_walk_present (pte w (phys_words ?s))"
    using fr unfolding frame_at_walk [OF mr a] by (auto split: option.splits if_splits)
  obtain t where t: "tab (phys_words ?s) ?r (tl (vpath va)) = Some t" "w_pt w = t" "pt_index w = ?i"
    using w(1) unfolding walk_tab [OF mr] by (auto split: option.splits)
  have mt: "masked t" by (rule tab_masked [OF sl(4) I(5) t(1)])
  have e: "pte w (phys_words ?s) = phys_words ?s t ?i" using t mt by (simp add: pte_def page_table_masked)
  define e' where "e' = (phys_words ?s t ?i AND NOT (PAGE_WRITABLE OR PAGE_USER OR PAGE_NX)) OR (flags AND (PAGE_WRITABLE OR PAGE_USER OR PAGE_NX))"
  note E = protect_entry [of "phys_words ?s t ?i" flags, folded e'_def]
  let ?m' = "(phys_words ?s)(t := (phys_words ?s t)(?i := e'))" and ?s' = "write_entry t ?i e' ?s"
  have W: "phys_words ?s' = ?m'" by (rule write_entry_words [OF mt])
  have run: "protect_page_internal (Some a) va flags kr st = Some (0, st\<lparr>vm_phys := ?s'\<rparr>)"
    using al a w t e unfolding protect_page_internal_def Let_def e'_def by simp
  have vp: "vpath va = ?i # tl (vpath va)" and len: "length (tl (vpath va)) = 3" by (simp_all add: vpath_def)
  have sl8: "(?r, ?i # tl (vpath va)) \<in> slots ?K ?R 4" using sl(8) by (simp add: vpath_def)
  have below: "tab (phys_words ?s) ?r (\<rho> @ ?i # tl (vpath va)) = None \<and> tab ?m' ?r (\<rho> @ ?i # tl (vpath va)) = None"
    if "\<rho> \<noteq> []" "(?r, \<rho> @ ?i # tl (vpath va)) \<in> slots ?K ?R 4" for \<rho>
    using slots_len [OF that(2)] that(1) len by (cases \<rho>) auto
  have ch: "changes_at ?K ?R ?r (?i # tl (vpath va)) (phys_words ?s) ?m'" by (rule changes_write [OF I(6) sl(4) t(1) sl8 below])
  have at: "tab ?m' ?r (?i # tl (vpath va)) = tab (phys_words ?s) ?r (?i # tl (vpath va))"
    using tab_write_at [OF I(6) sl(4) t(1), of ?i e'] t(1) E len by (simp add: follow_def del: fun_upd_apply)
  have same: "tab ?m' r' \<pi> = tab (phys_words ?s) r' \<pi>" if "(r', \<pi>) \<in> slots ?K ?R 4" for r' \<pi>
    using changes_atD [OF ch that] at by (cases "(r', \<pi>) = (?r, ?i # tl (vpath va))") (auto simp del: tab.simps fun_upd_apply)
  have lv: "leaves_same ?K ?R (phys_words ?s) ?m'" using same ch by (simp add: leaves_same_def changes_at_def del: fun_upd_apply)
  have "tab ?m' (fst x) (snd x) = tab (phys_words ?s) (fst x) (snd x)" if "x \<in> slots ?K ?R 3" for x
    using same [of "fst x" "snd x"] slots_mono [OF that, of 4] by (simp del: fun_upd_apply)
  with I(6) have inj: "tree_inj ?K ?R ?m'" unfolding tree_inj_def by (simp del: fun_upd_apply)
  have ne: "tl (vpath va) \<noteq> []" by (simp add: vpath_def)
  have sh: "shares_kernel ?K ?R ?m'" by (rule shares_kernel_write [OF I(7,4,6) sl(4) t(1) sl8]) (use ne in blast)
  have "pt_inv ?K ?R ext ?s'" unfolding pt_inv_def W using inj sh I(1-5,8) tree_refs_cong [OF same] by (simp del: fun_upd_apply)
  from vm_update_same [OF inv this lv [folded W]] run show ?thesis by (auto simp: same_managed_def)
qed

lemma protect_pages_spec:
  assumes "vm_inv ext st" "vm_spaces st a = Some as"
    "\<And>off. off \<in> set offs \<Longrightarrow> mapping_allowed (Some a) (va + off) kr \<and> frame_at a (va + off) st \<noteq> None"
  shows "\<exists>st'. protect_pages a va flags kr offs st = Some st' \<and> vm_inv ext st' \<and> all_same st st' \<and>
    vm_spaces st' = vm_spaces st \<and> same_managed (vm_phys st) (vm_phys st')"
  using assms
proof (induction offs arbitrary: st)
  case Nil
  then show ?case by (simp add: all_same_def)
next
  case (Cons off offs)
  obtain st1 where s1: "protect_page_internal (Some a) (va + off) flags kr st = Some (0, st1)" "vm_inv ext st1" "all_same st st1"
    "vm_spaces st1 = vm_spaces st" "same_managed (vm_phys st) (vm_phys st1)"
    using protect_page_spec [OF Cons.prems(1,2)] Cons.prems(3) [of off] by (metis list.set_intros(1))
  have "\<And>o'. o' \<in> set offs \<Longrightarrow> mapping_allowed (Some a) (va + o') kr \<and> frame_at a (va + o') st1 \<noteq> None"
    using Cons.prems(3) s1(3) by (simp add: all_same_def)
  from Cons.IH [OF s1(2) _ this] s1(4) Cons.prems(2) obtain st2 where "protect_pages a va flags kr offs st1 = Some st2" "vm_inv ext st2"
    "all_same st1 st2" "vm_spaces st2 = vm_spaces st1" "same_managed (vm_phys st1) (vm_phys st2)" by auto
  with s1 show ?case using same_managed_trans by (simp add: all_same_def)
qed

lemma protect_range_outcome:
  assumes inv: "vm_inv ext st" and a: "vm_spaces st a = Some as"
  shows "\<exists>r st'. address_space_protect_range (Some a) va len flags st = Some (r, st') \<and> vm_inv ext st' \<and> all_same st st' \<and>
    vm_spaces st' = vm_spaces st \<and> same_managed (vm_phys st) (vm_phys st')"
proof (cases "range_ok (Some a) va len")
  case None
  then show ?thesis using inv by (simp add: address_space_protect_range_def all_same_def)
next
  case (Some p)
  then obtain rounded kr where ok: "range_ok (Some a) va len = Some (rounded, kr)" by (cases p) simp
  note R = range_ok_pages [OF ok]
  let ?offs = "offsets rounded"
  show ?thesis
  proof (cases "\<forall>off \<in> set ?offs. frame_at a (va + off) st \<noteq> None")
    case True
    then have "\<And>off. off \<in> set ?offs \<Longrightarrow> mapping_allowed (Some a) (va + off) kr \<and> frame_at a (va + off) st \<noteq> None" using R(2) by simp
    from protect_pages_spec [OF inv a this, where flags = flags] obtain st' where "protect_pages a va flags kr ?offs st = Some st'" "vm_inv ext st'"
      "all_same st st'" "vm_spaces st' = vm_spaces st" "same_managed (vm_phys st) (vm_phys st')" by blast
    with True show ?thesis by (auto simp: address_space_protect_range_def ok all_mapped_frames [OF inv a])
  next
    case False
    then show ?thesis using inv by (auto simp: address_space_protect_range_def ok all_mapped_frames [OF inv a] all_same_def)
  qed
qed

text \<open>The user half of the spaces that an operation does not name.\<close>

definition users_same :: "addr set \<Rightarrow> vm_state \<Rightarrow> vm_state \<Rightarrow> bool" where
  "users_same A st st' \<longleftrightarrow> (\<forall>b v. b \<notin> A \<longrightarrow> v < USER_CANONICAL_TOP \<longrightarrow> frame_at b v st' = frame_at b v st)"

lemma users_same_outside:
  assumes "same_outside a P st st'"
  shows "users_same {a} st st'"
proof -
  have "page_of v < USER_CANONICAL_TOP" if "v < USER_CANONICAL_TOP" for v
  proof -
    have "unat (page_of v) \<le> unat v" unfolding page_of_def unat_page_floor by simp
    then show ?thesis using that by (simp add: word_less_nat_alt)
  qed
  then show ?thesis using assms by (simp add: users_same_def same_outside_def canonical_def)
qed

lemma users_same_all: "all_same st st' \<Longrightarrow> users_same A st st'"
  by (simp add: users_same_def all_same_def)

lemma users_same_trans: "users_same A st st' \<Longrightarrow> users_same B st' st'' \<Longrightarrow> users_same (A \<union> B) st st''"
  by (simp add: users_same_def)

section \<open>A small machine\<close>

text \<open>
  Eight pages of zeroes: page 1 is the root of the kernel, page 2 the root of a second space, a caller holds page 8, and the
  others are free.
\<close>

definition small_phys :: phys_state where
  "small_phys = \<lparr>tracked_phys_limit = 9 * PAGE_SIZE, managed_page_count_value = 8, free_page_count_value = 5,
     general_search_hint = 1, constrained_search_hint = 1, general_pool_floor_page = 1,
     alloc_bitmap = [7, 1], page_refcounts = [UINT32_MAX, 1, 1, 0, 0, 0, 0, 0, 1], phys_words = (\<lambda>_ _. 0)\<rparr>"

definition small_space :: "u64 \<Rightarrow> address_space_t" where
  "small_space root = \<lparr>pml4_phys = root, mappings = [], as_flags = 0, as_references = 1, live_threads = 0,
     permanent = (root = 0x1000), capset = 0, vmoset = (if root = 0x1000 then 1 else 2)\<rparr>"

definition small_vm :: vm_state where
  "small_vm = \<lparr>vm_phys = small_phys, vm_spaces = [address_space_kernel \<mapsto> small_space 0x1000, 1 \<mapsto> small_space 0x2000]\<rparr>"

definition small_ext :: "u64 \<Rightarrow> nat" where
  "small_ext p = of_bool (p = 0x8000)"

lemma tab_zero: "tab (\<lambda>_ _. 0) r \<pi> = (if \<pi> = [] then Some r else None)"
  by (induction \<pi>) (simp_all add: follow_def page_walk_present_def)

lemma tree_refs_zero: "tree_refs K R (\<lambda>_ _. 0) p = of_bool (p \<in> R)"
proof -
  have "{x \<in> slots K R 4. tab (\<lambda>_ _. 0) (fst x) (snd x) = Some p} = (if p \<in> R then {(p, [])} else {})"
    by (auto simp: tab_zero slots_def split: if_splits)
  then show ?thesis by (simp add: tree_refs_def)
qed

lemma small_managed:
  assumes "phys_page_is_managed p small_phys"
  shows "p \<in> {0x1000, 0x2000, 0x3000, 0x4000, 0x5000, 0x6000, 0x7000, 0x8000}"
proof -
  have a: "unat p mod 4096 = 0" "unat p < 36864" "phys_to_page_index p \<noteq> 0"
    using assms unfolding phys_page_is_managed_def aligned_unat
    by (auto simp: small_phys_def word_less_nat_alt intro!: gr0I split: nat.splits)
  define i where "i = unat p div 4096"
  have u: "unat p = i * 4096" using a(1) by (auto simp: i_def)
  have "i < 9" "i \<noteq> 0" using a(2,3) u unfolding phys_to_page_index_def unat_page_div i_def by auto
  then have "i \<in> {1, 2, 3, 4, 5, 6, 7, 8}" by auto
  then show ?thesis using u by (auto simp: word_unat_eq_iff)
qed

lemma small_vm_inv: "vm_inv small_ext small_vm"
proof -
  have wf: "phys_wf small_phys" by code_simp
  have w: "phys_words small_phys = (\<lambda>_ _. 0)" and l: "unat (tracked_phys_limit small_phys) \<le> 2 ^ 52" by (simp_all add: small_phys_def)
  have R: "roots small_vm = {0x1000, 0x2000}" "kroot small_vm = 0x1000"
  proof -
    have "ran (vm_spaces small_vm) = {small_space 0x1000, small_space 0x2000}"
      unfolding small_vm_def by (simp add: ran_map_upd address_space_kernel_def insert_commute)
    then show "roots small_vm = {0x1000, 0x2000}" by (simp add: roots_def small_space_def)
    show "kroot small_vm = 0x1000" by (simp add: kroot_def small_vm_def small_space_def address_space_kernel_def)
  qed
  have refs: "refs_at small_phys p = small_ext p + of_bool (p \<in> {0x1000, 0x2000})" if "phys_page_is_managed p small_phys" for p
    using small_managed [OF that]
    by (auto simp: refs_at_def phys_to_page_index_def unat_page_div small_phys_def small_ext_def)
  have inj: "tree_inj 0x1000 {0x1000, 0x2000} (\<lambda>_ _. 0)" by (auto simp: tree_inj_def tab_zero split: if_splits)
  have sh: "shares_kernel 0x1000 {0x1000, 0x2000} (\<lambda>_ _. 0)" by (simp add: shares_kernel_def)
  have "pt_inv 0x1000 {0x1000, 0x2000} small_ext small_phys"
    unfolding pt_inv_def w tree_refs_zero using wf l inj sh refs by simp
  then have 2: "pt_inv (kroot small_vm) (roots small_vm) small_ext (vm_phys small_vm)" unfolding R by (simp add: small_vm_def)
  have rec: "records_ok (phys_words (vm_phys small_vm)) (small_space r)" for r
    by (simp add: records_ok_def small_space_def small_vm_def w tab_zero vpath_def)
  have sp: "vm_spaces small_vm a = Some as \<longleftrightarrow> a = address_space_kernel \<and> as = small_space 0x1000 \<or> a = 1 \<and> as = small_space 0x2000" for a as
    by (auto simp: small_vm_def address_space_kernel_def)
  have ne: "pml4_phys (small_space 0x1000) \<noteq> pml4_phys (small_space 0x2000)" by (simp add: small_space_def)
  show ?thesis unfolding vm_inv_def sp using 2 rec ne by (auto simp: small_vm_def)
qed

end
