(* ===== verification/Vroots.thy ===== *)
theory Vroots
  imports Vranges
begin

text \<open>
  Roots that come and go: what the creation and the destruction of an address space do to the page trees and to the
  invariant of all spaces.
\<close>

section \<open>Slots of a set of roots\<close>

lemma slots_insert: "slots K (insert r R) n = slots K R n \<union> {(r, \<pi>) |\<pi>. (r, \<pi>) \<in> slots K {r} n}"
  by (auto simp: slots_def)

lemma slots_remove: "(r', \<pi>) \<in> slots K (R - {r}) n \<longleftrightarrow> (r', \<pi>) \<in> slots K R n \<and> r' \<noteq> r"
  by (auto simp: slots_def)

lemma slots_other: "(r', \<pi>) \<in> slots K R n \<Longrightarrow> r' \<in> R"
  by (simp add: slots_def)

text \<open>A root whose user half is empty has no other slot.\<close>

lemma tab_fresh_root:
  assumes "\<And>i. i < 256 \<Longrightarrow> \<not> page_walk_present (m r i)" "(r, \<pi>) \<in> slots K {r} n" "r \<noteq> K" "\<pi> \<noteq> []"
  shows "tab m r \<pi> = None"
proof -
  obtain \<rho> i where p: "\<pi> = \<rho> @ [i]" using assms(4) by (cases \<pi> rule: rev_cases) auto
  have "i < 256" using assms(2,3) p by (simp add: slots_def)
  then have "tab m r [i] = None" using assms(1) by (simp add: follow_def)
  then show ?thesis unfolding p by (rule tab_None)
qed

section \<open>A new root\<close>

definition fresh_root :: "u64 \<Rightarrow> u64 \<Rightarrow> phys_memory \<Rightarrow> phys_memory" where
  "fresh_root K p m = m(p := (\<lambda>i. if 256 \<le> i \<and> i < 512 then m K i else 0))"

lemma pt_add_root:
  assumes inv: "pt_inv K R ext s" and al: "phys_alloc_page s = Some (p, s1)"
  defines "m' \<equiv> fresh_root K p (phys_words s)"
  shows "pt_inv K (insert p R) ext (s1\<lparr>phys_words := m'\<rparr>)" "p \<notin> R" "same_managed s s1" "phys_page_is_managed p s"
    "(r, \<pi>) \<in> slots K R 4 \<Longrightarrow> tab m' r \<pi> = tab (phys_words s) r \<pi>" "r \<in> R \<Longrightarrow> m' r = phys_words s r"
    "(p, \<pi>) \<in> slots K (insert p R) 4 \<Longrightarrow> \<pi> \<noteq> [] \<Longrightarrow> tab m' p \<pi> = None"
proof -
  note SI = slots_insert [of K p R] and I = pt_invD [OF inv] and A = alloc_at [OF I(1) al]
  have notin: "tab (phys_words s) r \<pi> \<noteq> Some p" if "(r, \<pi>) \<in> slots K R 4" for r \<pi>
    by (rule unreferenced_not_in_tree [OF inv A(1,2) that])
  show pR: "p \<notin> R" using notin [of p "[]"] by (auto simp: slots_def)
  have pK: "p \<noteq> K" using pR I(4) by auto
  have notin3: "\<And>r \<pi>. (r, \<pi>) \<in> slots K R 3 \<Longrightarrow> tab (phys_words s) r \<pi> \<noteq> Some p" using notin slots_mono [of _ K R 3 4] by auto
  show same: "tab m' r \<pi> = tab (phys_words s) r \<pi>" if "(r, \<pi>) \<in> slots K R 4" for r \<pi>
    unfolding m'_def fresh_root_def by (rule tab_other_page [OF notin3 that])
  show row: "m' r = phys_words s r" if "r \<in> R" for r using that pR by (auto simp: m'_def fresh_root_def)
  have pz: "\<not> page_walk_present (m' p i)" if "i < 256" for i using that by (simp add: m'_def fresh_root_def page_walk_present_def)
  have new: "tab m' p \<pi> = (if \<pi> = [] then Some p else None)" if "(p, \<pi>) \<in> slots K {p} n" for \<pi> n
    using tab_fresh_root [where m = m' and r = p, OF pz that pK] by auto
  show "tab m' p \<pi> = None" if "(p, \<pi>) \<in> slots K (insert p R) 4" "\<pi> \<noteq> []"
    using new [of \<pi> 4] that pR by (auto simp: SI dest: slots_other)
  show "same_managed s s1" "phys_page_is_managed p s" by (fact A)+
  have inj: "tree_inj K (insert p R) m'" unfolding tree_inj_def
  proof (intro ballI allI impI)
    fix x y q assume xy: "x \<in> slots K (insert p R) 3" "y \<in> slots K (insert p R) 3"
      and t: "tab m' (fst x) (snd x) = Some q" "tab m' (fst y) (snd y) = Some q"
    have cl: "z \<in> slots K R 3 \<and> tab (phys_words s) (fst z) (snd z) = Some q \<and> q \<noteq> p \<or> z = (p, []) \<and> q = p"
      if z: "z \<in> slots K (insert p R) 3" "tab m' (fst z) (snd z) = Some q" for z
    proof (cases "z \<in> slots K R 3")
      case True
      then have z4: "(fst z, snd z) \<in> slots K R 4" using slots_mono [of z K R 3 4] by simp
      have "tab (phys_words s) (fst z) (snd z) = Some q" using same [OF z4] z(2) by simp
      with True notin [OF z4] show ?thesis by simp
    next
      case False
      then obtain \<pi> where "z = (p, \<pi>)" "(p, \<pi>) \<in> slots K {p} 3" using z(1) unfolding SI by blast
      then show ?thesis using new [of \<pi> 3] z(2) by (auto split: if_splits)
    qed
    show "x = y"
    proof (cases "q = p")
      case True
      with cl [OF xy(1) t(1)] cl [OF xy(2) t(2)] show ?thesis by simp
    next
      case False
      with cl [OF xy(1) t(1)] cl [OF xy(2) t(2)] have "x \<in> slots K R 3" "tab (phys_words s) (fst x) (snd x) = Some q"
        "y \<in> slots K R 3" "tab (phys_words s) (fst y) (snd y) = Some q" by simp_all
      with tree_injD [OF I(6), of "fst x" "snd x" "fst y" "snd y" q] show ?thesis by (simp add: prod_eq_iff)
    qed
  qed
  have sh: "shares_kernel K (insert p R) m'" unfolding shares_kernel_def
  proof (intro ballI allI impI)
    fix r i assume r: "r \<in> insert p R" "256 \<le> i" "i < 512" "page_walk_present (m' r i)"
    show "m' r i = m' K i"
    proof (cases "r = p")
      case True
      then show ?thesis using r(2,3) pK by (simp add: m'_def fresh_root_def)
    next
      case False
      then have rR: "r \<in> R" using r(1) by simp
      then have "page_walk_present (phys_words s r i)" using r(4) by (simp only: row)
      then have "phys_words s r i = phys_words s K i" using I(7) rR r(2,3) unfolding shares_kernel_def by blast
      then show ?thesis by (simp only: row [OF rR] row [OF I(4)])
    qed
  qed
  have refs: "tree_refs K (insert p R) m' q = tree_refs K R (phys_words s) q + of_bool (q = p)" for q
  proof -
    let ?A = "{x \<in> slots K R 4. tab (phys_words s) (fst x) (snd x) = Some q}"
    have e: "{x \<in> slots K (insert p R) 4. tab m' (fst x) (snd x) = Some q} = ?A \<union> (if q = p then {(p, [])} else {})"
    proof (rule set_eqI)
      fix x
      show "x \<in> {x \<in> slots K (insert p R) 4. tab m' (fst x) (snd x) = Some q} \<longleftrightarrow> x \<in> ?A \<union> (if q = p then {(p, [])} else {})"
      proof (cases "x \<in> slots K R 4")
        case True
        then have "fst x \<noteq> p" "x \<in> slots K (insert p R) 4" using pR slots_other [of "fst x" "snd x"] unfolding SI by auto
        with True same [of "fst x" "snd x"] show ?thesis by auto
      next
        case False
        have "x \<in> slots K (insert p R) 4 \<longleftrightarrow> fst x = p \<and> (p, snd x) \<in> slots K {p} 4" using False unfolding SI by (cases x) auto
        moreover have "(p, []) \<in> slots K {p} 4" by (simp add: slots_def)
        ultimately show ?thesis using False new [of "snd x" 4] by (cases x) auto
      qed
    qed
    have "finite ?A" "(p, []) \<notin> ?A" using finite_slots [OF I(3)] pR by (auto dest: slots_other)
    then have "card (insert (p, []) ?A) = Suc (card ?A)" by (rule card_insert_disjoint)
    then show ?thesis unfolding tree_refs_def e by (cases "q = p") simp_all
  qed
  have mp: "masked p" by (rule managed_masked [OF inv A(1)])
  have cnt: "refs_at s1 q = ext q + tree_refs K (insert p R) m' q" if "phys_page_is_managed q s1" for q
  proof -
    have q: "phys_page_is_managed q s" using A(4) that by (simp add: same_managed_def)
    show ?thesis using A(6) [OF q] I(8) [OF q] refs [of q] by simp
  qed
  have lim: "unat (tracked_phys_limit s1) \<le> 2 ^ 52" using A(4) I(2) by (simp add: same_managed_def)
  have "\<forall>r \<in> insert p R. masked r" using mp I(5) by simp
  then show "pt_inv K (insert p R) ext (s1\<lparr>phys_words := m'\<rparr>)" unfolding pt_inv_def using lim A(3) I(3,4) inj sh cnt by simp
qed

section \<open>A root that goes away\<close>

text \<open>The references of the tables below a root, which nobody drops with it.\<close>

definition left_behind :: "u64 \<Rightarrow> u64 set \<Rightarrow> u64 \<Rightarrow> phys_memory \<Rightarrow> u64 \<Rightarrow> nat" where
  "left_behind K R r m q = card {\<pi>. (r, \<pi>) \<in> slots K R 4 \<and> \<pi> \<noteq> [] \<and> tab m r \<pi> = Some q}"

lemma tree_refs_remove:
  assumes fin: "finite R" and r: "r \<in> R"
  shows "tree_refs K R m q = tree_refs K (R - {r}) m q + left_behind K R r m q + of_bool (q = r)"
proof -
  let ?A = "{x \<in> slots K (R - {r}) 4. tab m (fst x) (snd x) = Some q}"
  let ?B = "{\<pi>. (r, \<pi>) \<in> slots K R 4 \<and> \<pi> \<noteq> [] \<and> tab m r \<pi> = Some q}"
  have e: "{x \<in> slots K R 4. tab m (fst x) (snd x) = Some q} = (?A \<union> Pair r ` ?B) \<union> (if q = r then {(r, [])} else {})"
    using r by (auto simp: slots_remove) (auto simp: slots_def)
  have f: "finite ?A" "finite (Pair r ` ?B)"
    using finite_slots [of "R - {r}" K 4] fin finite_subset [OF _ finite_slots [OF fin, of K 4], of "Pair r ` ?B"] by auto
  have "card (?A \<union> Pair r ` ?B) = card ?A + card ?B"
    using f by (subst card_Un_disjoint) (auto simp: slots_remove card_image inj_on_def)
  moreover have "(r, []) \<notin> ?A \<union> Pair r ` ?B" by (auto simp: slots_remove)
  moreover have "card (insert x B) = Suc (card B)" if "finite B" "x \<notin> B" for x :: "u64 \<times> nat list" and B using that by simp
  ultimately show ?thesis unfolding tree_refs_def e left_behind_def using f by (cases "q = r") simp_all
qed

lemma pt_remove_root:
  assumes inv: "pt_inv K R ext s" and r: "r \<in> R" "r \<noteq> K" "phys_page_is_managed r s"
  shows "\<exists>s'. phys_page_put r s = Some s' \<and> pt_inv K (R - {r}) (\<lambda>q. ext q + left_behind K R r (phys_words s) q) s' \<and> same_managed s s' \<and>
    trees_same K (R - {r}) (phys_words s) (phys_words s')"
proof -
  note I = pt_invD [OF inv]
  note cnt = tree_refs_remove [OF I(3) r(1), of K "phys_words s"]
  have pos: "0 < refs_at s r" using I(8) [OF r(3)] cnt [of r] by simp
  obtain s' where P: "phys_page_put r s = Some s'" "phys_wf s'" "same_managed s s'"
    "phys_words s' = (if refs_at s r = 1 then (phys_words s)(r := (\<lambda>_. 0)) else phys_words s)"
    "\<And>q. phys_page_is_managed q s \<Longrightarrow> refs_at s' q + of_bool (q = r) = refs_at s q"
    using put_at [OF I(1) r(3) pos] by blast
  have notr: "tab (phys_words s) r' \<pi> \<noteq> Some r" if "(r', \<pi>) \<in> slots K (R - {r}) 3" for r' \<pi>
    using tree_injD [OF I(6), of r' \<pi> r "[]" r] that r(1) by (auto simp: slots_remove root_slot)
  have same: "trees_same K (R - {r}) (phys_words s) (phys_words s')"
    using trees_same_other_page [OF notr, where f = "\<lambda>_. 0"] P(4) by (simp add: trees_same_def)
  then have tabs: "\<And>r' \<pi>. (r', \<pi>) \<in> slots K (R - {r}) 4 \<Longrightarrow> tab (phys_words s') r' \<pi> = tab (phys_words s) r' \<pi>"
    by (simp add: trees_same_def)
  have inj: "tree_inj K (R - {r}) (phys_words s')" unfolding tree_inj_def
  proof (intro ballI allI impI)
    fix x y q assume xy: "x \<in> slots K (R - {r}) 3" "y \<in> slots K (R - {r}) 3"
      and t: "tab (phys_words s') (fst x) (snd x) = Some q" "tab (phys_words s') (fst y) (snd y) = Some q"
    have "tab (phys_words s) (fst z) (snd z) = tab (phys_words s') (fst z) (snd z) \<and> z \<in> slots K R 3" if "z \<in> slots K (R - {r}) 3" for z
      using tabs [of "fst z" "snd z"] slots_mono [OF that, of 4] that slots_remove [of "fst z" "snd z" K R r 3] by simp
    from this [OF xy(1)] this [OF xy(2)] t I(6) show "x = y" unfolding tree_inj_def by metis
  qed
  have rows: "phys_words s' r' = phys_words s r'" if "r' \<noteq> r" for r' using P(4) that by simp
  have sh: "shares_kernel K (R - {r}) (phys_words s')" using I(7) rows r(2) by (auto simp: shares_kernel_def)
  have "refs_at s' q = ext q + left_behind K R r (phys_words s) q + tree_refs K (R - {r}) (phys_words s') q" if "phys_page_is_managed q s'" for q
  proof -
    have q: "phys_page_is_managed q s" using that P(3) by (simp add: same_managed_def)
    have "tree_refs K (R - {r}) (phys_words s') q = tree_refs K (R - {r}) (phys_words s) q" by (rule tree_refs_cong [OF tabs])
    then show ?thesis using P(5) [OF q] I(8) [OF q] cnt [of q] by simp
  qed
  then have "pt_inv K (R - {r}) (\<lambda>q. ext q + left_behind K R r (phys_words s) q) s'"
    unfolding pt_inv_def using P(2,3) I(2-5) r(2) inj sh by (auto simp: same_managed_def)
  with P(1,3) same show ?thesis by blast
qed

section \<open>Spaces that come and go\<close>

text \<open>Roots that stay show what they showed, also in the half they share with the kernel.\<close>

lemma kept_leaves:
  assumes sh: "shares_kernel K R m" "shares_kernel K R' m'" and r: "r \<in> R" "r \<in> R'" and K: "K \<in> R" "K \<in> R'"
    and same: "\<And>r \<pi>. (r, \<pi>) \<in> slots K (R \<inter> R') 4 \<Longrightarrow> tab m' r \<pi> = tab m r \<pi>"
    and tops: "tops_same K (R \<inter> R') m m'"
  shows "tab m' r (vpath va) = tab m r (vpath va)"
proof (cases "r = K \<or> level_index 39 va < 256")
  case True
  then have "owns K (R \<inter> R') r va" using r by (simp add: owns_def)
  from same [OF walk_slots(8) [OF this]] show ?thesis .
next
  case False
  let ?i = "level_index 39 va" and ?\<rho> = "[level_index 12 va, level_index 21 va, level_index 30 va]"
  have p: "vpath va = ?\<rho> @ [?i]" by (simp add: vpath_def)
  have i: "256 \<le> ?i" "?i < 512" using False level_index_less by simp_all
  have top: "m' r ?i = m r ?i" using tops False r i by (simp add: tops_same_def)
  have "owns K (R \<inter> R') K va" using K by (simp add: owns_def)
  from same [OF walk_slots(8) [OF this]] show ?thesis
    unfolding p tab_shared [OF sh(1) r(1) i] tab_shared [OF sh(2) r(2) i] top by simp
qed

lemma vm_add_space:
  assumes inv: "vm_inv ext st" and al: "phys_alloc_page (vm_phys st) = Some (p, s1)" and a: "vm_spaces st a = None"
    and as: "pml4_phys as = p" "mappings as = []"
  defines "st' \<equiv> set_space a as (s1\<lparr>phys_words := fresh_root (kroot st) p (phys_words (vm_phys st))\<rparr>) st"
  shows "vm_inv ext st'" "\<And>b v. b \<noteq> a \<Longrightarrow> frame_at b v st' = frame_at b v st"
    "\<And>v. v < USER_CANONICAL_TOP \<Longrightarrow> frame_at a v st' = None" "same_managed (vm_phys st) (vm_phys st')"
    "phys_page_is_managed p (vm_phys st)"
proof -
  note V = vm_invD [OF inv]
  note P = pt_add_root [OF V(2) al]
  note I = pt_invD [OF V(2)] and I' = pt_invD [OF P(1)]
  let ?m = "phys_words (vm_phys st)" and ?m' = "fresh_root (kroot st) p (phys_words (vm_phys st))"
  have ak: "a \<noteq> address_space_kernel" using a V(1) by auto
  have R: "roots st' = insert p (roots st)" "kroot st' = kroot st"
    using a as ak by (simp_all add: st'_def roots_def kroot_def ran_map_upd)
  show sm: "same_managed (vm_phys st) (vm_phys st')" using P(3) by (simp add: st'_def same_managed_def)
  show "phys_page_is_managed p (vm_phys st)" by (rule P(4))
  have ri: "roots st \<inter> insert p (roots st) = roots st" by blast
  have w: "phys_words (s1\<lparr>phys_words := ?m'\<rparr>) = ?m'" by simp
  have tops: "tops_same (kroot st) (roots st) ?m ?m'" using P(6) by (simp add: tops_same_def)
  have leaf: "tab ?m' r (vpath va) = tab ?m r (vpath va)" if "r \<in> roots st" for r va
    by (rule kept_leaves [OF I(7) I'(7) [unfolded w] that insertI2 [OF that] I(4) I'(4), unfolded ri]) (use P(5) tops in blast)+
  show fr: "frame_at b v st' = frame_at b v st" if "b \<noteq> a" for b v
    using that leaf [OF V(5)] by (simp add: st'_def frame_at_def split: option.split)
  have user: "tab ?m' p (vpath v) = None" if "v < USER_CANONICAL_TOP" for v
    by (rule P(7) [OF walk_slots(8)]) (use user_half [OF that] in \<open>simp_all add: owns_def vpath_def\<close>)
  show "frame_at a v st' = None" if "v < USER_CANONICAL_TOP" for v using user [OF that] as by (simp add: st'_def frame_at_def)
  have sp: "vm_spaces st' b = Some bs \<longleftrightarrow> b = a \<and> bs = as \<or> b \<noteq> a \<and> vm_spaces st b = Some bs" for b bs by (auto simp: st'_def)
  have rec: "records_ok ?m' bs" if b: "vm_spaces st' b = Some bs" "b \<noteq> address_space_kernel" for b bs
  proof (cases "b = a")
    case True
    then have "bs = as" using b(1) sp by blast
    then show ?thesis using as user by (simp add: records_ok_def)
  next
    case False
    then have "vm_spaces st b = Some bs" using b(1) sp by blast
    with records_same [OF V(4) [OF this b(2)]] leaf [OF V(5) [OF this]] show ?thesis by blast
  qed
  have inj: "b = c" if b: "vm_spaces st' b = Some bs" and c: "vm_spaces st' c = Some cs" and e: "pml4_phys bs = pml4_phys cs" for b c bs cs
  proof -
    have old: "pml4_phys xs \<in> roots st \<and> pml4_phys xs \<noteq> p" if "vm_spaces st x = Some xs" for x xs using V(5) [OF that] P(2) by auto
    consider "b = a" "c = a" | "b \<noteq> a" "c \<noteq> a" | "b = a" "c \<noteq> a" | "b \<noteq> a" "c = a" by blast
    then show ?thesis
    proof cases
      case 2
      then show ?thesis using b c e V(3) unfolding sp by blast
    next
      case 3
      then show ?thesis using b c e as(1) old [of c cs] unfolding sp by simp
    next
      case 4
      then show ?thesis using b c e as(1) old [of b bs] unfolding sp by simp
    qed simp
  qed
  have ph: "vm_phys st' = s1\<lparr>phys_words := ?m'\<rparr>" and ks: "vm_spaces st' address_space_kernel \<noteq> None"
    using V(1) by (simp_all add: st'_def)
  have pt: "pt_inv (kroot st) (insert p (roots st)) ext (vm_phys st')" unfolding ph by (rule P(1))
  have rc: "\<And>b bs. vm_spaces st' b = Some bs \<Longrightarrow> b \<noteq> address_space_kernel \<Longrightarrow> records_ok (phys_words (vm_phys st')) bs"
    unfolding ph w by (rule rec)
  show "vm_inv ext st'" unfolding vm_inv_def R using ks pt inj rc by iprover
qed

lemma vm_remove_space:
  assumes inv: "vm_inv ext st" and a: "vm_spaces st a = Some as" "a \<noteq> address_space_kernel" "phys_page_is_managed (pml4_phys as) (vm_phys st)"
  shows "\<exists>s'. phys_page_put (pml4_phys as) (vm_phys st) = Some s' \<and>
    vm_inv (\<lambda>q. ext q + left_behind (kroot st) (roots st) (pml4_phys as) (phys_words (vm_phys st)) q)
      (st\<lparr>vm_phys := s', vm_spaces := (vm_spaces st)(a := None)\<rparr>) \<and>
    same_managed (vm_phys st) s' \<and>
    (\<forall>b v. b \<noteq> a \<longrightarrow> frame_at b v (st\<lparr>vm_phys := s', vm_spaces := (vm_spaces st)(a := None)\<rparr>) = frame_at b v st)"
proof -
  note V = vm_invD [OF inv]
  note I = pt_invD [OF V(2)]
  let ?K = "kroot st" and ?R = "roots st" and ?r = "pml4_phys as"
  have rK: "?r \<noteq> ?K" using V(7) [OF a(1)] a(2) by simp
  obtain s' where P: "phys_page_put ?r (vm_phys st) = Some s'"
    "pt_inv ?K (?R - {?r}) (\<lambda>q. ext q + left_behind ?K ?R ?r (phys_words (vm_phys st)) q) s'" "same_managed (vm_phys st) s'"
    "trees_same ?K (?R - {?r}) (phys_words (vm_phys st)) (phys_words s')"
    using pt_remove_root [OF V(2) V(5) [OF a(1)] rK a(3)] by blast
  note I' = pt_invD [OF P(2)]
  let ?st = "st\<lparr>vm_phys := s', vm_spaces := (vm_spaces st)(a := None)\<rparr>"
  have sp: "vm_spaces ?st b = Some bs \<longleftrightarrow> b \<noteq> a \<and> vm_spaces st b = Some bs" for b bs by auto
  have R: "roots ?st = ?R - {?r}"
  proof -
    have "x \<in> roots ?st \<longleftrightarrow> x \<in> ?R - {?r}" for x
    proof -
      have rt: "x \<in> roots q \<longleftrightarrow> (\<exists>b bs. vm_spaces q b = Some bs \<and> x = pml4_phys bs)" for q unfolding roots_def ran_def by auto
      show ?thesis unfolding rt sp Diff_iff singleton_iff
      proof
        assume "\<exists>b bs. (b \<noteq> a \<and> vm_spaces st b = Some bs) \<and> x = pml4_phys bs"
        then obtain b bs where b: "b \<noteq> a" "vm_spaces st b = Some bs" "x = pml4_phys bs" by blast
        have "x \<noteq> ?r" using V(3) [OF b(2) a(1)] b(1,3) by auto
        with b show "(\<exists>b bs. vm_spaces st b = Some bs \<and> x = pml4_phys bs) \<and> x \<noteq> ?r" by blast
      next
        assume "(\<exists>b bs. vm_spaces st b = Some bs \<and> x = pml4_phys bs) \<and> x \<noteq> ?r"
        then obtain b bs where b: "vm_spaces st b = Some bs" "x = pml4_phys bs" "x \<noteq> ?r" by blast
        then have "b \<noteq> a" using a(1) by auto
        with b show "\<exists>b bs. (b \<noteq> a \<and> vm_spaces st b = Some bs) \<and> x = pml4_phys bs" by blast
      qed
    qed
    then show ?thesis by blast
  qed
  have K: "kroot ?st = ?K" using a(2) by (simp add: kroot_def)
  have ri: "?R \<inter> (?R - {?r}) = ?R - {?r}" by blast
  have leaf: "tab (phys_words s') (pml4_phys bs) (vpath va) = tab (phys_words (vm_phys st)) (pml4_phys bs) (vpath va)"
    if "vm_spaces st b = Some bs" "b \<noteq> a" for b bs va
  proof -
    have m: "pml4_phys bs \<in> ?R" "pml4_phys bs \<in> ?R - {?r}" using V(5) [OF that(1)] V(3) [OF that(1) a(1)] that(2) by auto
    show ?thesis
      by (rule kept_leaves [OF I(7) I'(7) m I(4) I'(4), unfolded ri]) (use P(4) in \<open>simp_all add: trees_same_def\<close>)
  qed
  have fr: "frame_at b v ?st = frame_at b v st" if "b \<noteq> a" for b v
    using that leaf by (simp add: frame_at_def split: option.split)
  have rec: "records_ok (phys_words s') bs" if b: "vm_spaces ?st b = Some bs" "b \<noteq> address_space_kernel" for b bs
  proof -
    from b(1) have "vm_spaces st b = Some bs" "b \<noteq> a" unfolding sp by blast+
    with records_same [OF V(4) [OF this(1) b(2)]] leaf [OF this] show ?thesis by blast
  qed
  have inj: "b = c" if "vm_spaces ?st b = Some bs" "vm_spaces ?st c = Some cs" "pml4_phys bs = pml4_phys cs" for b c bs cs
    using that V(3) unfolding sp by blast
  have pt: "pt_inv ?K (?R - {?r}) (\<lambda>q. ext q + left_behind ?K ?R ?r (phys_words (vm_phys st)) q) (vm_phys ?st)" using P(2) by simp
  have rc: "\<And>b bs. vm_spaces ?st b = Some bs \<Longrightarrow> b \<noteq> address_space_kernel \<Longrightarrow> records_ok (phys_words (vm_phys ?st)) bs"
    using rec by simp
  have "vm_spaces ?st address_space_kernel \<noteq> None" using V(1) a(2) by simp
  then have "vm_inv (\<lambda>q. ext q + left_behind ?K ?R ?r (phys_words (vm_phys st)) q) ?st"
    unfolding vm_inv_def R K using pt inj rc by iprover
  with P(1,3) fr show ?thesis by blast
qed

end
