(* ===== verification/Kvmo.thy ===== *)
theory Kvmo
  imports Vranges Kpmem
begin

text \<open>
  Virtual memory objects (src/kernel/subsystems/kvmo.c).  A VMO names a physical memory object with intrinsic
  rights; the VMO set of an address space records the mappings of VMOs into it.  The operations run over the
  page tables (Paging) and the physical memory objects (Kpmem).  \<open>None\<close> is a panic or the use of a freed object;
  -1 or an inner \<open>None\<close> is failure.
\<close>

section \<open>State\<close>

record vmo_t =
  v_handle :: u64
  v_rights :: u64
  v_pmem :: u64
  owns_pmem :: "bool option"
    \<comment> \<open>\<open>None\<close>: not initialised\<close>

record vmoset_entry_t =
  e_va :: u64
  e_length :: u64
  e_vmo :: u64
  e_offset :: u64
  e_rights :: u64

type_synonym vmoset_t = "(u64, vmoset_entry_t) uthash"

record kvmo_state =
  vmos :: "(u64, vmo_t) uthash"
  vmosets :: "(u64, vmoset_t) uthash"
  next_vmo_handle :: u64
  next_vmoset_handle :: u64

record mm_state =
  mm_vm :: vm_state
  mm_pmem :: pmem_state
  mm_vmo :: kvmo_state

abbreviation VMO_INVALID_HANDLE :: u64 where "VMO_INVALID_HANDLE \<equiv> UINT64_MAX"
abbreviation VMOSET_INVALID_HANDLE :: u64 where "VMOSET_INVALID_HANDLE \<equiv> UINT64_MAX"
abbreviation VMO_MAP :: u64 where "VMO_MAP \<equiv> 1"
abbreviation VMO_READ :: u64 where "VMO_READ \<equiv> 2"
abbreviation VMO_WRITE :: u64 where "VMO_WRITE \<equiv> 4"
abbreviation VMO_EXEC :: u64 where "VMO_EXEC \<equiv> 8"
abbreviation VMO_VALID_RIGHTS :: u64 where "VMO_VALID_RIGHTS \<equiv> VMO_MAP OR VMO_READ OR VMO_WRITE OR VMO_EXEC"
abbreviation VMO_PAGE_RIGHTS :: u64 where "VMO_PAGE_RIGHTS \<equiv> VMO_READ OR VMO_WRITE OR VMO_EXEC"

section \<open>The tables\<close>

definition kvmo_init :: kvmo_state where
  "kvmo_init = \<lparr>vmos = [], vmosets = [], next_vmo_handle = 1, next_vmoset_handle = 1\<rparr>"

definition kvmo_lookup_locked :: "u64 \<Rightarrow> kvmo_state \<Rightarrow> vmo_t option" where
  "kvmo_lookup_locked h v = HASH_FIND h (vmos v)"

definition vmoset_lookup_locked :: "u64 \<Rightarrow> kvmo_state \<Rightarrow> vmoset_t option" where
  "vmoset_lookup_locked h v = HASH_FIND h (vmosets v)"

definition set_update :: "u64 \<Rightarrow> (vmoset_t \<Rightarrow> vmoset_t) \<Rightarrow> kvmo_state \<Rightarrow> kvmo_state" where
  "set_update h f v = v\<lparr>vmosets := HASH_UPD h f (vmosets v)\<rparr>"

definition kvmoset_set_rights :: "u64 \<Rightarrow> u64 \<Rightarrow> u64 \<Rightarrow> kvmo_state \<Rightarrow> int \<times> kvmo_state" where
  "kvmoset_set_rights h va rights v =
     (if h = VMOSET_INVALID_HANDLE then (-1, v)
      else if rights AND NOT VMO_PAGE_RIGHTS \<noteq> 0 then (-1, v)
      else case vmoset_lookup_locked h v of
        None \<Rightarrow> (-1, v)
      | Some es \<Rightarrow>
          if HASH_FIND va es = None then (-1, v)
          else (0, set_update h (HASH_UPD va (\<lambda>e. e\<lparr>e_rights := rights\<rparr>)) v))"

definition kvmo_create_from_pmem :: "u64 \<Rightarrow> u64 \<Rightarrow> bool \<Rightarrow> kvmo_state \<Rightarrow> u64 option \<times> kvmo_state" where
  "kvmo_create_from_pmem pmem rights mok v =
     (if rights AND NOT VMO_VALID_RIGHTS \<noteq> 0 then (None, v)
      else if \<not> mok then (None, v)
      else
        let h = next_vmo_handle v in
        (Some h, v\<lparr>vmos := HASH_ADD h \<lparr>v_handle = h, v_rights = rights, v_pmem = pmem, owns_pmem = None\<rparr> (vmos v),
                   next_vmo_handle := h + 1\<rparr>))"

definition kvmo_get :: "u64 \<Rightarrow> kvmo_state \<Rightarrow> vmo_t option" where
  "kvmo_get h v = (if h = VMO_INVALID_HANDLE then None else kvmo_lookup_locked h v)"

definition kvmo_getlen :: "u64 \<Rightarrow> mm_state \<Rightarrow> u64 option option" where
  "kvmo_getlen h st =
     (case kvmo_get h (mm_vmo st) of
        None \<Rightarrow> Some None
      | Some vmo \<Rightarrow> map_option (map_option (\<lambda>(_, _, len, _). len)) (kpmem_get (v_pmem vmo) (mm_pmem st)))"

definition kvmo_destroy :: "u64 \<Rightarrow> kvmo_state \<Rightarrow> int \<times> kvmo_state" where
  "kvmo_destroy h v =
     (if h = VMO_INVALID_HANDLE then (-1, v)
      else if kvmo_lookup_locked h v = None then (-1, v)
      else (0, v\<lparr>vmos := HASH_DEL h (vmos v)\<rparr>))"

fun zero_pages :: "u64 \<Rightarrow> nat \<Rightarrow> phys_state \<Rightarrow> phys_state" where
  \<comment> \<open>memset of whole pages through the direct map\<close>
  "zero_pages base 0 s = s"
| "zero_pages base (Suc n) s = zero_pages (base + PAGE_SIZE) n (zero_page base s)"

fun free_runs :: "(u64 \<times> nat) list \<Rightarrow> phys_state \<Rightarrow> phys_state option" where
  \<comment> \<open>phys_free_pages on the runs that kpmem_destroy gives back\<close>
  "free_runs [] s = Some s"
| "free_runs ((base, n) # rs) s = phys_free_pages base (of_nat n) s \<bind> free_runs rs"

definition kvmo_create_anon ::
  "u64 \<Rightarrow> u64 \<Rightarrow> addr option \<Rightarrow> bool \<Rightarrow> mm_state \<Rightarrow> ((u64 \<times> u64) option \<times> mm_state) option" where
  "kvmo_create_anon requested_len rights mem mok st =
     (if rights AND NOT VMO_VALID_RIGHTS \<noteq> 0 then Some (None, st)
      else if requested_len = 0 \<or> requested_len > UINT64_MAX - (PAGE_SIZE - 1) then Some (None, st)
      else
        let rounded = (requested_len + PAGE_SIZE - 1) AND NOT (PAGE_SIZE - 1);
            page_count = rounded div PAGE_SIZE;
            vm = mm_vm st in
        case phys_alloc_pages page_count (vm_phys vm) of
          None \<Rightarrow> Some (None, st)
        | Some (new_pages, s) \<Rightarrow>
            (case kpmem_create mem new_pages rounded (mm_pmem st) of
               (None, p) \<Rightarrow>
                 do { s \<leftarrow> phys_free_pages new_pages page_count s;
                      Some (None, st\<lparr>mm_vm := vm\<lparr>vm_phys := s\<rparr>, mm_pmem := p\<rparr>) }
             | (Some pm_handle, p) \<Rightarrow>
                 (case kvmo_create_from_pmem pm_handle rights mok (mm_vmo st) of
                    (None, v) \<Rightarrow>
                      do { (runs, p) \<leftarrow> kpmem_destroy pm_handle p;
                           s \<leftarrow> free_runs (case runs of None \<Rightarrow> [] | Some rs \<Rightarrow> rs) s;
                           s \<leftarrow> phys_free_pages new_pages page_count s;
                           Some (None, st\<lparr>mm_vm := vm\<lparr>vm_phys := s\<rparr>, mm_pmem := p, mm_vmo := v\<rparr>) }
                  | (Some new_vmo, v) \<Rightarrow>
                      (let s = zero_pages new_pages (unat page_count) s in
                       if kvmo_lookup_locked new_vmo v = None then None
                       else Some (Some (new_vmo, rounded),
                              st\<lparr>mm_vm := vm\<lparr>vm_phys := s\<rparr>, mm_pmem := p,
                                 mm_vmo := v\<lparr>vmos := HASH_UPD new_vmo (\<lambda>x. x\<lparr>owns_pmem := Some True\<rparr>) (vmos v)\<rparr>\<rparr>)))))"

definition kvmoset_new :: "bool \<Rightarrow> kvmo_state \<Rightarrow> u64 option \<times> kvmo_state" where
  "kvmoset_new mok v =
     (if \<not> mok then (None, v)
      else let h = next_vmoset_handle v in
        (Some h, v\<lparr>vmosets := HASH_ADD h [] (vmosets v), next_vmoset_handle := h + 1\<rparr>))"

definition kvmoset_destroy :: "u64 \<Rightarrow> kvmo_state \<Rightarrow> int \<times> kvmo_state" where
  "kvmoset_destroy h v =
     (if h = VMOSET_INVALID_HANDLE then (-1, v)
      else if vmoset_lookup_locked h v = None then (-1, v)
      else (0, v\<lparr>vmosets := HASH_DEL h (vmosets v)\<rparr>))"

definition entry_conflicts :: "u64 \<Rightarrow> u64 \<Rightarrow> vmoset_entry_t \<Rightarrow> bool" where
  "entry_conflicts va new_end e \<longleftrightarrow>
     e_length e > UINT64_MAX - e_va e \<or> va < e_va e + e_length e \<and> e_va e < new_end"

definition kvmoset_add :: "u64 \<Rightarrow> u64 \<Rightarrow> u64 \<Rightarrow> u64 \<Rightarrow> u64 \<Rightarrow> u64 \<Rightarrow> bool \<Rightarrow> kvmo_state \<Rightarrow> int \<times> kvmo_state" where
  "kvmoset_add h vmo va offset len rights mok v =
     (if h = VMOSET_INVALID_HANDLE \<or> vmo = VMO_INVALID_HANDLE \<or> len = 0 then (-1, v)
      else if rights AND NOT VMO_PAGE_RIGHTS \<noteq> 0 then (-1, v)
      else if len > UINT64_MAX - va then (-1, v)
      else if \<not> mok then (-1, v)
      else case vmoset_lookup_locked h v of
        None \<Rightarrow> (-1, v)
      | Some es \<Rightarrow>
          if list_ex (entry_conflicts va (va + len) \<circ> snd) es then (-1, v)
          else (0, set_update h
                 (HASH_ADD va \<lparr>e_va = va, e_length = len, e_vmo = vmo, e_offset = offset, e_rights = rights\<rparr>) v))"

definition kvmoset_remove :: "u64 \<Rightarrow> u64 \<Rightarrow> kvmo_state \<Rightarrow> int \<times> kvmo_state" where
  "kvmoset_remove h va v =
     (case vmoset_lookup_locked h v of
        None \<Rightarrow> (-1, v)
      | Some es \<Rightarrow> if HASH_FIND va es = None then (-1, v) else (0, set_update h (HASH_DEL va) v))"

definition kvmoset_find :: "u64 \<Rightarrow> u64 \<Rightarrow> kvmo_state \<Rightarrow> vmoset_entry_t option" where
  "kvmoset_find h va v =
     (case vmoset_lookup_locked h v of
        None \<Rightarrow> None
      | Some es \<Rightarrow>
          map_option snd (find (\<lambda>(k, e). \<not> e_length e > UINT64_MAX - e_va e \<and> va \<ge> e_va e \<and> va < e_va e + e_length e) es))"

section \<open>Mappings\<close>

definition vmo_page_flags :: "u64 \<Rightarrow> u64 \<Rightarrow> u64" where
  "vmo_page_flags va rights =
     PAGE_PRESENT OR (if rights AND VMO_WRITE \<noteq> 0 then PAGE_WRITABLE else 0)
       OR (if rights AND VMO_EXEC = 0 then PAGE_NX else 0) OR (if va < USER_CANONICAL_TOP then PAGE_USER else 0)"

definition kvmo_map ::
  "u64 \<Rightarrow> addr option \<Rightarrow> u64 \<Rightarrow> u64 \<Rightarrow> u64 \<Rightarrow> u64 \<Rightarrow> bool list \<Rightarrow> bool \<Rightarrow> mm_state \<Rightarrow> (int \<times> mm_state) option" where
  \<comment> \<open>the last two arguments are the outcomes of kmalloc for the page records and for the set entry\<close>
  "kvmo_map handle ao va offset len rights oks mok st =
     (if ao = None \<or> handle = VMO_INVALID_HANDLE \<or> len = 0 then Some (-1, st)
      else if rights AND NOT VMO_PAGE_RIGHTS \<noteq> 0 then Some (-1, st)
      else case kvmo_get handle (mm_vmo st) of
        None \<Rightarrow> Some (-1, st)
      | Some vmo \<Rightarrow>
          if v_rights vmo AND VMO_MAP = 0 then Some (-1, st)
          else if rights AND NOT (v_rights vmo) \<noteq> 0 then Some (-1, st)
          else if rights AND VMO_READ = 0 then Some (-1, st)
          else
            do { po \<leftarrow> kpmem_get (v_pmem vmo) (mm_pmem st);
                 case po of
                   None \<Rightarrow> Some (-1, st)
                 | Some (_, base, plen, _) \<Rightarrow>
                     if offset > plen then Some (-1, st)
                     else if len > plen - offset then Some (-1, st)
                     else if offset > UINT64_MAX - base then Some (-1, st)
                     else
                       do { (r, vm) \<leftarrow> address_space_map_range ao va (base + offset) len (vmo_page_flags va rights) oks (mm_vm st);
                            if r \<noteq> 0 then Some (-1, st\<lparr>mm_vm := vm\<rparr>)
                            else
                              do { as \<leftarrow> vm_spaces vm (the ao);
                                   case kvmoset_add (vmoset as) handle va offset len rights mok (mm_vmo st) of
                                     (q, v) \<Rightarrow>
                                       if q \<noteq> 0 then
                                         do { (r, vm) \<leftarrow> address_space_unmap_range ao va len vm;
                                              if r \<noteq> 0 then None else Some (-1, st\<lparr>mm_vm := vm, mm_vmo := v\<rparr>) }
                                       else Some (0, st\<lparr>mm_vm := vm, mm_vmo := v\<rparr>) } } })"

definition kvmo_unmap_exact :: "u64 \<Rightarrow> addr option \<Rightarrow> u64 \<Rightarrow> u64 \<Rightarrow> bool \<Rightarrow> mm_state \<Rightarrow> (int \<times> mm_state) option" where
  "kvmo_unmap_exact handle ao va len check_length st =
     (if ao = None \<or> handle = VMO_INVALID_HANDLE \<or> check_length \<and> len = 0 then Some (-1, st)
      else
        do { as \<leftarrow> vm_spaces (mm_vm st) (the ao);
             case vmoset_lookup_locked (vmoset as) (mm_vmo st) of
               None \<Rightarrow> Some (-1, st)
             | Some es \<Rightarrow>
                 (case HASH_FIND va es of
                    None \<Rightarrow> Some (-1, st)
                  | Some entry \<Rightarrow>
                      if e_vmo entry \<noteq> handle \<or> check_length \<and> e_length entry \<noteq> len then Some (-1, st)
                      else
                        do { (r, vm) \<leftarrow> address_space_unmap_range ao va (e_length entry) (mm_vm st);
                             if r \<noteq> 0 then Some (-1, st\<lparr>mm_vm := vm\<rparr>)
                             else Some (0, st\<lparr>mm_vm := vm, mm_vmo := set_update (vmoset as) (HASH_DEL va) (mm_vmo st)\<rparr>) }) })"

definition kvmo_unmap :: "u64 \<Rightarrow> addr option \<Rightarrow> u64 \<Rightarrow> u64 \<Rightarrow> mm_state \<Rightarrow> (int \<times> mm_state) option" where
  "kvmo_unmap handle ao va len st = kvmo_unmap_exact handle ao va len True st"

definition kvmo_unmap_at :: "u64 \<Rightarrow> addr option \<Rightarrow> u64 \<Rightarrow> mm_state \<Rightarrow> (int \<times> mm_state) option" where
  "kvmo_unmap_at handle ao va st = kvmo_unmap_exact handle ao va 0 False st"

definition kvmo_protect :: "u64 \<Rightarrow> addr option \<Rightarrow> u64 \<Rightarrow> u64 \<Rightarrow> u64 \<Rightarrow> mm_state \<Rightarrow> (int \<times> mm_state) option" where
  "kvmo_protect handle ao va len rights st =
     (if ao = None \<or> handle = VMO_INVALID_HANDLE \<or> len = 0 then Some (-1, st)
      else if rights AND NOT VMO_PAGE_RIGHTS \<noteq> 0 then Some (-1, st)
      else if rights AND VMO_READ = 0 then Some (-1, st)
      else case kvmo_get handle (mm_vmo st) of
        None \<Rightarrow> Some (-1, st)
      | Some vmo \<Rightarrow>
          if rights AND NOT (v_rights vmo) \<noteq> 0 then Some (-1, st)
          else
            do { as \<leftarrow> vm_spaces (mm_vm st) (the ao);
                 case kvmoset_find (vmoset as) va (mm_vmo st) of
                   None \<Rightarrow> Some (-1, st)
                 | Some entry \<Rightarrow>
                     if e_vmo entry \<noteq> handle \<or> e_va entry \<noteq> va \<or> e_length entry \<noteq> len then Some (-1, st)
                     else
                       do { (r, vm) \<leftarrow> address_space_protect_range ao va len (vmo_page_flags va rights) (mm_vm st);
                            if r \<noteq> 0 then Some (-1, st\<lparr>mm_vm := vm\<rparr>)
                            else case kvmoset_set_rights (vmoset as) va rights (mm_vmo st) of
                              (q, v) \<Rightarrow> if q \<noteq> 0 then None else Some (0, st\<lparr>mm_vm := vm, mm_vmo := v\<rparr>) } })"

partial_function (option) kvmoset_unmap_all :: "u64 \<Rightarrow> addr option \<Rightarrow> mm_state \<Rightarrow> (int \<times> mm_state) option" where
  "kvmoset_unmap_all h ao st =
     (if ao = None \<or> h = VMOSET_INVALID_HANDLE then Some (-1, st)
      else case vmoset_lookup_locked h (mm_vmo st) of
        None \<Rightarrow> Some (-1, st)
      | Some es \<Rightarrow>
          (case es of
             [] \<Rightarrow> Some (0, st)
           | (_, e) # _ \<Rightarrow>
               do { x \<leftarrow> kvmo_unmap (e_vmo e) ao (e_va e) (e_length e) st;
                    if fst x \<noteq> 0 then Some (-1, snd x) else kvmoset_unmap_all h ao (snd x) }))"

declare kvmoset_unmap_all.simps [code]

end
