(* ===== verification/Kvmo_Inv.thy ===== *)
theory Kvmo_Inv
  imports Kvmo
begin

text \<open>
  The invariant that ties the VMO sets to the page tables: every recorded mapping is mapped, page by page, and the
  mappings of a set do not share pages.  The operations of Kvmo keep it, and the teardown of a set succeeds.
\<close>

section \<open>Pages of a recorded mapping\<close>

lemma range_page:
  assumes "range_ok (Some a) va len \<noteq> None" "v \<in> range_pages va len"
  shows "canonical v" "page_of v = v" "if a = address_space_kernel then v \<ge> PHYSMAP_BASE else v < USER_CANONICAL_TOP"
proof -
  obtain rounded kr where ok: "range_ok (Some a) va len = Some (rounded, kr)" using assms(1) by auto
  from assms(2) obtain off where off: "off \<in> set (offsets rounded)" "v = va + off"
    by (auto simp: range_pages_def range_ok_length [OF ok])
  note al = range_ok_pages(2) [OF ok off(1), folded off(2)]
  show "canonical v" "page_of v = v" using mapping_allowedD(2,3) [OF al] by simp_all
  show "if a = address_space_kernel then v \<ge> PHYSMAP_BASE else v < USER_CANONICAL_TOP"
    using al range_ok_pages(1) [OF ok] by (auto simp: mapping_allowed_def split: if_splits)
qed

definition entry_mapped :: "addr \<Rightarrow> vmoset_entry_t \<Rightarrow> vm_state \<Rightarrow> bool" where
  "entry_mapped a e vm \<longleftrightarrow>
     range_ok (Some a) (e_va e) (e_length e) \<noteq> None \<and> (\<forall>v \<in> range_pages (e_va e) (e_length e). frame_at a v vm \<noteq> None)"

definition set_ok :: "addr \<Rightarrow> vmoset_t \<Rightarrow> vm_state \<Rightarrow> bool" where
  "set_ok a es vm \<longleftrightarrow>
     distinct (keys es) \<and>
     (\<forall>k e. (k, e) \<in> set es \<longrightarrow> k = e_va e \<and> entry_mapped a e vm \<and> e_vmo e \<noteq> VMO_INVALID_HANDLE \<and> e_length e \<noteq> 0) \<and>
     (\<forall>k e k' e'. (k, e) \<in> set es \<longrightarrow> (k', e') \<in> set es \<longrightarrow> k \<noteq> k' \<longrightarrow>
        range_pages (e_va e) (e_length e) \<inter> range_pages (e_va e') (e_length e') = {})"

lemma set_okD:
  assumes "set_ok a es vm"
  shows "distinct (keys es)"
    "(k, e) \<in> set es \<Longrightarrow> k = e_va e \<and> entry_mapped a e vm \<and> e_vmo e \<noteq> VMO_INVALID_HANDLE \<and> e_length e \<noteq> 0"
    "(k, e) \<in> set es \<Longrightarrow> (k', e') \<in> set es \<Longrightarrow> k \<noteq> k' \<Longrightarrow>
       range_pages (e_va e) (e_length e) \<inter> range_pages (e_va e') (e_length e') = {}"
  using assms unfolding set_ok_def by blast+

definition mm_inv :: "(u64 \<Rightarrow> nat) \<Rightarrow> mm_state \<Rightarrow> bool" where
  "mm_inv ext st \<longleftrightarrow>
     vm_inv ext (mm_vm st) \<and>
     reg_wf (vmosets (mm_vmo st)) (next_vmoset_handle (mm_vmo st)) \<and>
     (\<forall>a as es. vm_spaces (mm_vm st) a = Some as \<longrightarrow> vmoset_lookup_locked (vmoset as) (mm_vmo st) = Some es \<longrightarrow>
        set_ok a es (mm_vm st)) \<and>
     (\<forall>a b as bs. vm_spaces (mm_vm st) a = Some as \<longrightarrow> vm_spaces (mm_vm st) b = Some bs \<longrightarrow> vmoset as = vmoset bs \<longrightarrow> a = b) \<and>
     (\<forall>a as. vm_spaces (mm_vm st) a = Some as \<longrightarrow> vmoset as < next_vmoset_handle (mm_vmo st)) \<and>
     (\<forall>a as. vm_spaces (mm_vm st) a = Some as \<longrightarrow> a \<noteq> address_space_kernel \<longrightarrow> phys_page_is_managed (pml4_phys as) (vm_phys (mm_vm st)))"

lemma mm_invD:
  assumes "mm_inv ext st"
  shows "vm_inv ext (mm_vm st)" "reg_wf (vmosets (mm_vmo st)) (next_vmoset_handle (mm_vmo st))"
    "vm_spaces (mm_vm st) a = Some as \<Longrightarrow> vmoset_lookup_locked (vmoset as) (mm_vmo st) = Some es \<Longrightarrow> set_ok a es (mm_vm st)"
    "vm_spaces (mm_vm st) a = Some as \<Longrightarrow> vm_spaces (mm_vm st) b = Some bs \<Longrightarrow> vmoset as = vmoset bs \<Longrightarrow> a = b"
    "vm_spaces (mm_vm st) a = Some as \<Longrightarrow> vmoset as < next_vmoset_handle (mm_vmo st)"
    "vm_spaces (mm_vm st) a = Some as \<Longrightarrow> a \<noteq> address_space_kernel \<Longrightarrow> phys_page_is_managed (pml4_phys as) (vm_phys (mm_vm st))"
  using assms unfolding mm_inv_def by blast+

lemma mm_invI:
  assumes "vm_inv ext vm" "reg_wf (vmosets v) (next_vmoset_handle v)"
    "\<And>a as es. vm_spaces vm a = Some as \<Longrightarrow> vmoset_lookup_locked (vmoset as) v = Some es \<Longrightarrow> set_ok a es vm"
    "\<And>a b as bs. vm_spaces vm a = Some as \<Longrightarrow> vm_spaces vm b = Some bs \<Longrightarrow> vmoset as = vmoset bs \<Longrightarrow> a = b"
    "\<And>a as. vm_spaces vm a = Some as \<Longrightarrow> vmoset as < next_vmoset_handle v"
    "\<And>a as. vm_spaces vm a = Some as \<Longrightarrow> a \<noteq> address_space_kernel \<Longrightarrow> phys_page_is_managed (pml4_phys as) (vm_phys vm)"
  shows "mm_inv ext (st\<lparr>mm_vm := vm, mm_vmo := v\<rparr>)"
  using assms unfolding mm_inv_def by simp

text \<open>An operation on one space keeps the recorded mappings of the others.\<close>

lemma entry_mapped_other:
  assumes e: "entry_mapped b e vm" and same: "same_outside a (range_pages va len) vm vm'"
    and ok: "range_ok (Some a) va len \<noteq> None" and ba: "b \<noteq> a"
  shows "entry_mapped b e vm'"
proof -
  have okb: "range_ok (Some b) (e_va e) (e_length e) \<noteq> None" using e by (simp add: entry_mapped_def)
  have "frame_at b v vm' = frame_at b v vm" if v: "v \<in> range_pages (e_va e) (e_length e)" for v
  proof -
    note P = range_page [OF okb v]
    have "page_of v < USER_CANONICAL_TOP \<or> v \<notin> range_pages va len"
    proof (cases "b = address_space_kernel")
      case True
      with P(3) have "\<not> v < USER_CANONICAL_TOP" by (simp add: word_le_nat_alt word_less_nat_alt)
      then have "v \<notin> range_pages va len" using range_page(3) [OF ok, of v] True ba by auto
      then show ?thesis by simp
    next
      case False
      with P show ?thesis by simp
    qed
    with same P(1,2) ba show ?thesis unfolding same_outside_def by metis
  qed
  then show ?thesis using e by (simp add: entry_mapped_def)
qed

lemma entry_mapped_disjoint:
  assumes e: "entry_mapped a e vm" and same: "same_outside a (range_pages va len) vm vm'"
    and dj: "range_pages (e_va e) (e_length e) \<inter> range_pages va len = {}"
  shows "entry_mapped a e vm'"
proof -
  have ok: "range_ok (Some a) (e_va e) (e_length e) \<noteq> None" using e by (simp add: entry_mapped_def)
  have "frame_at a v vm' = frame_at a v vm" if v: "v \<in> range_pages (e_va e) (e_length e)" for v
    by (rule same_outsideD [OF same range_page(1,2) [OF ok v]]) (use v dj in blast)
  then show ?thesis using e by (simp add: entry_mapped_def)
qed

lemma set_ok_mapped:
  assumes "set_ok a es vm" "\<And>k e. (k, e) \<in> set es \<Longrightarrow> entry_mapped a e vm \<Longrightarrow> entry_mapped a e vm'"
  shows "set_ok a es vm'"
  using assms unfolding set_ok_def by blast

lemma same_objects_vmoset:
  assumes "same_objects vm vm'" "vm_spaces vm' a = Some as'"
  obtains as where "vm_spaces vm a = Some as" "vmoset as = vmoset as'" "pml4_phys as = pml4_phys as'" "permanent as = permanent as'" "capset as = capset as'"
proof -
  have "map_option (\<lambda>as. as\<lparr>mappings := []\<rparr>) (vm_spaces vm a) = Some (as'\<lparr>mappings := []\<rparr>)"
    using assms unfolding same_objects_def by (metis option.simps(9))
  then obtain as where as: "vm_spaces vm a = Some as" "as\<lparr>mappings := []\<rparr> = as'\<lparr>mappings := []\<rparr>" by auto
  show ?thesis
    by (rule that [OF as(1)])
      (use arg_cong [OF as(2), of vmoset] arg_cong [OF as(2), of pml4_phys] arg_cong [OF as(2), of permanent] arg_cong [OF as(2), of capset] in simp_all)
qed

text \<open>The page tables and the sets change together: one rule for all operations on a space.\<close>

lemma mm_inv_step:
  assumes inv: "mm_inv ext st" and a: "vm_spaces (mm_vm st) a = Some as"
    and vm: "vm_inv ext vm'" "same_objects (mm_vm st) vm'" "same_managed (vm_phys (mm_vm st)) (vm_phys vm')"
    and sets: "reg_wf (vmosets v') (next_vmoset_handle v')" "next_vmoset_handle v' = next_vmoset_handle (mm_vmo st)"
    and look: "\<And>h. h \<noteq> vmoset as \<Longrightarrow> vmoset_lookup_locked h v' = vmoset_lookup_locked h (mm_vmo st)"
    and mine: "\<And>es. vmoset_lookup_locked (vmoset as) v' = Some es \<Longrightarrow> set_ok a es vm'"
    and others: "\<And>b e. b \<noteq> a \<Longrightarrow> entry_mapped b e (mm_vm st) \<Longrightarrow> entry_mapped b e vm'"
  shows "mm_inv ext (st\<lparr>mm_vm := vm', mm_vmo := v'\<rparr>)"
proof -
  note M = mm_invD [OF inv]
  have "set_ok b es vm'" if b: "vm_spaces vm' b = Some bs" and es: "vmoset_lookup_locked (vmoset bs) v' = Some es" for b bs es
  proof -
    obtain bs0 where b0: "vm_spaces (mm_vm st) b = Some bs0" "vmoset bs0 = vmoset bs" by (rule same_objects_vmoset [OF vm(2) b])
    show ?thesis
    proof (cases "b = a")
      case True
      with a b0 es mine show ?thesis by simp
    next
      case False
      then have "vmoset bs \<noteq> vmoset as" using M(4) [OF b0(1) a] b0(2) by auto
      then have "vmoset_lookup_locked (vmoset bs0) (mm_vmo st) = Some es" using look es b0(2) by simp
      from set_ok_mapped [OF M(3) [OF b0(1) this]] others [OF False] show ?thesis by blast
    qed
  qed
  moreover have "b = c" if "vm_spaces vm' b = Some bs" "vm_spaces vm' c = Some cs" "vmoset bs = vmoset cs" for b c bs cs
    using same_objects_vmoset [OF vm(2) that(1)] same_objects_vmoset [OF vm(2) that(2)] that(3) M(4) by metis
  moreover have "vmoset bs < next_vmoset_handle (mm_vmo st)" if "vm_spaces vm' b = Some bs" for b bs
    using same_objects_vmoset [OF vm(2) that] M(5) by metis
  moreover have "phys_page_is_managed (pml4_phys bs) (vm_phys vm')" if "vm_spaces vm' b = Some bs" "b \<noteq> address_space_kernel" for b bs
    using same_objects_vmoset [OF vm(2) that(1)] M(6) that(2) vm(3) unfolding same_managed_def by metis
  ultimately show ?thesis using vm(1) sets unfolding mm_inv_def by simp
qed

lemma set_update_lookup:
  "vmoset_lookup_locked h (set_update k f v) = (if h = k then map_option f (vmoset_lookup_locked h v) else vmoset_lookup_locked h v)"
  by (auto simp: vmoset_lookup_locked_def set_update_def HASH_FIND_UPD)

lemma set_update_wf:
  "reg_wf (vmosets v) n \<Longrightarrow> reg_wf (vmosets (set_update k f v)) n" "next_vmoset_handle (set_update k f v) = next_vmoset_handle v"
  "vmos (set_update k f v) = vmos v"
  by (simp_all add: set_update_def reg_wf_UPD)

section \<open>Unmapping\<close>

lemma unmap_entry:
  assumes inv: "vm_inv ext vm" and a: "vm_spaces vm a = Some as" and e: "entry_mapped a e vm"
  shows "\<exists>vm'. address_space_unmap_range (Some a) (e_va e) (e_length e) vm = Some (0, vm') \<and> vm_inv ext vm' \<and> same_objects vm vm' \<and>
    same_managed (vm_phys vm) (vm_phys vm') \<and> same_outside a (range_pages (e_va e) (e_length e)) vm vm' \<and>
    (\<forall>v \<in> range_pages (e_va e) (e_length e). frame_at a v vm' = None)"
proof -
  obtain rounded kr where ok: "range_ok (Some a) (e_va e) (e_length e) = Some (rounded, kr)" using e by (auto simp: entry_mapped_def)
  have all: "\<forall>off \<in> set (offsets rounded). frame_at a (e_va e + off) vm \<noteq> None"
    using e by (simp add: entry_mapped_def range_pages_def range_ok_length [OF ok])
  then have run: "address_space_unmap_range (Some a) (e_va e) (e_length e) vm = map_option (Pair 0) (unmap_pages a (e_va e) kr (offsets rounded) vm)"
    by (auto simp: address_space_unmap_range_def ok all_mapped_frames [OF inv a])
  obtain r vm' where R: "address_space_unmap_range (Some a) (e_va e) (e_length e) vm = Some (r, vm')" "vm_inv ext vm'" "same_objects vm vm'"
    "same_managed (vm_phys vm) (vm_phys vm')"
    "r = 0 \<and> same_outside a (range_pages (e_va e) (e_length e)) vm vm' \<and>
       (\<forall>v \<in> range_pages (e_va e) (e_length e). frame_at a v vm \<noteq> None \<and> frame_at a v vm' = None) \<or> r = -1 \<and> vm' = vm"
    using unmap_range_outcome [OF inv a] by metis
  have "r = 0" using R(1) unfolding run by auto
  with R show ?thesis by auto
qed

lemma in_DEL: "(j, x) \<in> set (HASH_DEL k t) \<longleftrightarrow> (j, x) \<in> set t \<and> j \<noteq> k"
  by (auto simp: HASH_DEL_def)

lemma set_ok_DEL:
  assumes ok: "set_ok a es vm" and e: "(va, e) \<in> set es" and same: "same_outside a (range_pages (e_va e) (e_length e)) vm vm'"
  shows "set_ok a (HASH_DEL va es) vm'"
proof -
  note S = set_okD [OF ok]
  have "entry_mapped a x vm'" if "(k, x) \<in> set es" "k \<noteq> va" for k x
    by (rule entry_mapped_disjoint [OF _ same]) (use S(2) [OF that(1)] S(3) [OF that(1) e that(2)] in blast)+
  then show ?thesis unfolding set_ok_def in_DEL using S by (simp add: distinct_filter) blast
qed

text \<open>What kvmo_unmap_exact does, with or without the check of the length.\<close>

lemma unmap_exact_outcome:
  assumes inv: "mm_inv ext st" and a: "vm_spaces (mm_vm st) a = Some as"
  shows "\<exists>r st'. kvmo_unmap_exact h (Some a) va len chk st = Some (r, st') \<and> mm_inv ext st' \<and>
    same_objects (mm_vm st) (mm_vm st') \<and> same_managed (vm_phys (mm_vm st)) (vm_phys (mm_vm st')) \<and> mm_pmem st' = mm_pmem st \<and>
    (r = -1 \<and> st' = st \<or>
     r = 0 \<and> (\<exists>es e. vmoset_lookup_locked (vmoset as) (mm_vmo st) = Some es \<and> HASH_FIND va es = Some e \<and>
       mm_vmo st' = set_update (vmoset as) (HASH_DEL va) (mm_vmo st) \<and>
       same_outside a (range_pages va (e_length e)) (mm_vm st) (mm_vm st') \<and>
       (\<forall>v \<in> range_pages va (e_length e). frame_at a v (mm_vm st') = None)))"
proof -
  note M = mm_invD [OF inv]
  have fail: ?thesis if "kvmo_unmap_exact h (Some a) va len chk st = Some (-1, st)"
    using that inv by (auto simp: same_objects_def)
  show ?thesis
  proof (cases "\<exists>es e. vmoset_lookup_locked (vmoset as) (mm_vmo st) = Some es \<and> HASH_FIND va es = Some e \<and> h \<noteq> VMO_INVALID_HANDLE \<and>
      \<not> (chk \<and> len = 0) \<and> e_vmo e = h \<and> \<not> (chk \<and> e_length e \<noteq> len)")
    case False
    then show ?thesis by (intro fail) (auto simp: kvmo_unmap_exact_def a split: option.split)
  next
    case True
    then obtain es e where es: "vmoset_lookup_locked (vmoset as) (mm_vmo st) = Some es" and e: "HASH_FIND va es = Some e"
      and c: "h \<noteq> VMO_INVALID_HANDLE" "\<not> (chk \<and> len = 0)" "e_vmo e = h" "\<not> (chk \<and> e_length e \<noteq> len)" by blast
    note ok = M(3) [OF a es] and ein = HASH_FIND_Some_in [OF e]
    from set_okD(2) [OF ok ein] have k: "e_va e = va" and m: "entry_mapped a e (mm_vm st)" by auto
    obtain vm' where U: "address_space_unmap_range (Some a) va (e_length e) (mm_vm st) = Some (0, vm')" "vm_inv ext vm'"
      "same_objects (mm_vm st) vm'" "same_outside a (range_pages va (e_length e)) (mm_vm st) vm'"
      "\<forall>v \<in> range_pages va (e_length e). frame_at a v vm' = None" "same_managed (vm_phys (mm_vm st)) (vm_phys vm')"
      using unmap_entry [OF M(1) a m] unfolding k by blast
    let ?v = "set_update (vmoset as) (HASH_DEL va) (mm_vmo st)" and ?st = "st\<lparr>mm_vm := vm', mm_vmo := set_update (vmoset as) (HASH_DEL va) (mm_vmo st)\<rparr>"
    have run: "kvmo_unmap_exact h (Some a) va len chk st = Some (0, ?st)"
      using c a es e U(1) unfolding kvmo_unmap_exact_def by auto
    have okr: "range_ok (Some a) va (e_length e) \<noteq> None" using m k by (simp add: entry_mapped_def)
    have "mm_inv ext ?st"
    proof (rule mm_inv_step [OF inv a U(2,3,6)])
      show "reg_wf (vmosets ?v) (next_vmoset_handle ?v)" "next_vmoset_handle ?v = next_vmoset_handle (mm_vmo st)"
        using M(2) by (simp_all add: set_update_wf)
      show "vmoset_lookup_locked x ?v = vmoset_lookup_locked x (mm_vmo st)" if "x \<noteq> vmoset as" for x
        using that by (simp add: set_update_lookup)
      show "set_ok a es' vm'" if "vmoset_lookup_locked (vmoset as) ?v = Some es'" for es'
        using that set_ok_DEL [OF ok ein U(4) [folded k]] es by (simp add: set_update_lookup)
      show "entry_mapped b x vm'" if "b \<noteq> a" "entry_mapped b x (mm_vm st)" for b x
        by (rule entry_mapped_other [OF that(2) U(4) okr that(1)])
    qed
    then show ?thesis using run U es e by (intro exI [of _ 0] exI [of _ ?st]) auto
  qed
qed

text \<open>Unmapping a recorded mapping succeeds, so the loop of kvmoset_unmap_all empties the set.\<close>

lemma unmap_recorded:
  assumes inv: "mm_inv ext st" and a: "vm_spaces (mm_vm st) a = Some as"
    and es: "vmoset_lookup_locked (vmoset as) (mm_vmo st) = Some es" and e: "(va, e) \<in> set es"
  shows "\<exists>st'. kvmo_unmap (e_vmo e) (Some a) (e_va e) (e_length e) st = Some (0, st') \<and> mm_inv ext st' \<and>
    same_objects (mm_vm st) (mm_vm st') \<and> mm_pmem st' = mm_pmem st \<and> users_same {a} (mm_vm st) (mm_vm st') \<and>
    same_managed (vm_phys (mm_vm st)) (vm_phys (mm_vm st')) \<and>
    mm_vmo st' = set_update (vmoset as) (HASH_DEL va) (mm_vmo st)"
proof -
  note M = mm_invD [OF inv]
  from set_okD(2) [OF M(3) [OF a es] e] have k: "e_va e = va" "e_vmo e \<noteq> VMO_INVALID_HANDLE" "e_length e \<noteq> 0" "entry_mapped a e (mm_vm st)" by auto
  have f: "HASH_FIND va es = Some e" using e set_okD(1) [OF M(3) [OF a es]] by (simp add: HASH_FIND_iff_in)
  obtain vm' where U: "address_space_unmap_range (Some a) va (e_length e) (mm_vm st) = Some (0, vm')"
    using unmap_entry [OF M(1) a k(4)] unfolding k(1) by blast
  have run: "kvmo_unmap_exact (e_vmo e) (Some a) va (e_length e) True st =
      Some (0, st\<lparr>mm_vm := vm', mm_vmo := set_update (vmoset as) (HASH_DEL va) (mm_vmo st)\<rparr>)"
    using k a es f U unfolding kvmo_unmap_exact_def by simp
  from unmap_exact_outcome [OF inv a, of "e_vmo e" va "e_length e" True] show ?thesis
    unfolding kvmo_unmap_def k(1) run using users_same_outside [of a] by auto
qed

lemma unmap_all_empties:
  assumes "mm_inv ext st" "vm_spaces (mm_vm st) a = Some as" "vmoset_lookup_locked (vmoset as) (mm_vmo st) = Some es"
    "vmoset as \<noteq> VMOSET_INVALID_HANDLE"
  shows "\<exists>st'. kvmoset_unmap_all (vmoset as) (Some a) st = Some (0, st') \<and> mm_inv ext st' \<and> same_objects (mm_vm st) (mm_vm st') \<and>
    mm_pmem st' = mm_pmem st \<and> users_same {a} (mm_vm st) (mm_vm st') \<and> same_managed (vm_phys (mm_vm st)) (vm_phys (mm_vm st')) \<and>
    vmoset_lookup_locked (vmoset as) (mm_vmo st') = Some [] \<and>
    (\<forall>h. h \<noteq> vmoset as \<longrightarrow> vmoset_lookup_locked h (mm_vmo st') = vmoset_lookup_locked h (mm_vmo st)) \<and>
    next_vmoset_handle (mm_vmo st') = next_vmoset_handle (mm_vmo st) \<and> vmos (mm_vmo st') = vmos (mm_vmo st)"
  using assms
proof (induction "length es" arbitrary: st es as rule: less_induct)
  case less
  show ?case
  proof (cases es)
    case Nil
    then show ?thesis using less.prems by (subst kvmoset_unmap_all.simps) (simp add: same_objects_def users_same_def)
  next
    case (Cons x rest)
    obtain va e where x: "x = (va, e)" by (cases x)
    have e: "(va, e) \<in> set es" using Cons x by simp
    obtain st1 where s1: "kvmo_unmap (e_vmo e) (Some a) (e_va e) (e_length e) st = Some (0, st1)" "mm_inv ext st1"
      "same_objects (mm_vm st) (mm_vm st1)" "mm_pmem st1 = mm_pmem st" "users_same {a} (mm_vm st) (mm_vm st1)"
      "same_managed (vm_phys (mm_vm st)) (vm_phys (mm_vm st1))" "mm_vmo st1 = set_update (vmoset as) (HASH_DEL va) (mm_vmo st)"
      using unmap_recorded [OF less.prems(1-3) e] by blast
    obtain as1 where a1: "vm_spaces (mm_vm st1) a = Some as1" using same_objects_space [OF s1(3) less.prems(2)] by blast
    obtain as0 where "vm_spaces (mm_vm st) a = Some as0" "vmoset as0 = vmoset as1" by (rule same_objects_vmoset [OF s1(3) a1])
    then have v1: "vmoset as1 = vmoset as" using less.prems(2) by simp
    have l1: "vmoset_lookup_locked (vmoset as1) (mm_vmo st1) = Some (HASH_DEL va es)"
      using less.prems(3) by (simp add: s1(7) set_update_lookup v1)
    have sh: "length (HASH_DEL va es) < length es" unfolding HASH_DEL_def using e by (intro length_filter_less [of x]) (simp_all add: x)
    have ni: "vmoset as1 \<noteq> VMOSET_INVALID_HANDLE" using less.prems(4) v1 by simp
    obtain st2 where s2: "kvmoset_unmap_all (vmoset as1) (Some a) st1 = Some (0, st2)" "mm_inv ext st2" "same_objects (mm_vm st1) (mm_vm st2)"
      "mm_pmem st2 = mm_pmem st1" "users_same {a} (mm_vm st1) (mm_vm st2)" "same_managed (vm_phys (mm_vm st1)) (vm_phys (mm_vm st2))"
      "vmoset_lookup_locked (vmoset as1) (mm_vmo st2) = Some []"
      "\<forall>h. h \<noteq> vmoset as1 \<longrightarrow> vmoset_lookup_locked h (mm_vmo st2) = vmoset_lookup_locked h (mm_vmo st1)"
      "next_vmoset_handle (mm_vmo st2) = next_vmoset_handle (mm_vmo st1)" "vmos (mm_vmo st2) = vmos (mm_vmo st1)"
      using less.hyps [OF sh s1(2) a1 l1 ni] by blast
    have run: "kvmoset_unmap_all (vmoset as) (Some a) st = Some (0, st2)"
      using less.prems(3,4) s1(1) s2(1) unfolding v1 by (subst kvmoset_unmap_all.simps) (simp add: Cons x)
    have "users_same {a} (mm_vm st) (mm_vm st2)" using users_same_trans [OF s1(5) s2(5)] by simp
    then show ?thesis using run s2 same_objects_trans [OF s1(3) s2(3)] same_managed_trans [OF s1(6) s2(6)] s1(4,7)
      by (auto simp: v1 set_update_lookup set_update_wf)
  qed
qed

section \<open>Mapping\<close>

text \<open>The pages a mapping call would map are pages of the caller.\<close>

definition backed :: "(u64 \<Rightarrow> nat) \<Rightarrow> u64 \<Rightarrow> u64 \<Rightarrow> u64 \<Rightarrow> mm_state \<Rightarrow> bool" where
  "backed ext h offset len st \<longleftrightarrow>
     (\<forall>vmo x base plen own. kvmo_get h (mm_vmo st) = Some vmo \<longrightarrow> kpmem_get (v_pmem vmo) (mm_pmem st) = Some (Some (x, base, plen, own)) \<longrightarrow>
        holds_pages ext (base + offset) len (vm_phys (mm_vm st)))"

lemma first_page: "page_range_length len = Some rounded \<Longrightarrow> va \<in> range_pages va len"
proof -
  assume l: "page_range_length len = Some rounded"
  note R = page_range_length_unat [OF l]
  have "4096 \<le> unat rounded" using R by (cases "unat rounded < 4096") auto
  then have n: "0 < unat (rounded div PAGE_SIZE)" unfolding unat_page_div by (simp add: div_greater_zero_iff)
  have "of_nat 0 * PAGE_SIZE \<in> set (offsets rounded)" unfolding offsets_def set_map set_upt by (rule imageI) (use n in \<open>simp only: atLeastLessThan_iff le0\<close>)
  then have "0 \<in> set (offsets rounded)" by simp
  then show ?thesis unfolding range_pages_def l option.case by (metis add.right_neutral image_eqI)
qed

lemma set_ok_same:
  assumes "set_ok a es vm" "same_outside a {} vm vm'"
  shows "set_ok a es vm'"
proof (rule set_ok_mapped [OF assms(1)])
  fix k e assume "entry_mapped a e vm"
  then show "entry_mapped a e vm'" using range_page(1,2) [of a "e_va e" "e_length e"] same_outsideD [OF assms(2)]
    by (simp add: entry_mapped_def)
qed

lemma entry_same:
  assumes "entry_mapped b e vm" "same_outside a {} vm vm'"
  shows "entry_mapped b e vm'"
  using assms range_page(1,2) [of b "e_va e" "e_length e"] same_outsideD [OF assms(2)] by (simp add: entry_mapped_def)

text \<open>The page tables change and no recorded mapping is lost.\<close>

lemma mm_inv_same_sets:
  assumes inv: "mm_inv ext st" and vm: "vm_inv ext vm'" "same_objects (mm_vm st) vm'" "same_outside a {} (mm_vm st) vm'"
    "same_managed (vm_phys (mm_vm st)) (vm_phys vm')"
  shows "mm_inv ext (st\<lparr>mm_vm := vm'\<rparr>)"
proof -
  note M = mm_invD [OF inv]
  obtain as where a: "vm_spaces (mm_vm st) address_space_kernel = Some as" using vm_invD(1) [OF M(1)] by blast
  have "mm_inv ext (st\<lparr>mm_vm := vm', mm_vmo := mm_vmo st\<rparr>)"
  proof (rule mm_inv_step [OF inv a vm(1,2,4) M(2) refl refl])
    show "set_ok address_space_kernel es vm'" if "vmoset_lookup_locked (vmoset as) (mm_vmo st) = Some es" for es
      using set_ok_mapped [OF M(3) [OF a that]] entry_same [OF _ vm(3)] by blast
    show "entry_mapped b e vm'" if "entry_mapped b e (mm_vm st)" for b e by (rule entry_same [OF that vm(3)])
  qed
  then show ?thesis by simp
qed

lemma entries_disjoint_free:
  assumes "entry_mapped a e vm" "\<forall>v \<in> range_pages va len. frame_at a v vm = None"
  shows "range_pages (e_va e) (e_length e) \<inter> range_pages va len = {}"
  using assms by (auto simp: entry_mapped_def)

lemma set_ok_ADD:
  assumes ok: "set_ok a es vm" and same: "same_outside a (range_pages va len) vm vm'"
    and free: "\<forall>v \<in> range_pages va len. frame_at a v vm = None"
    and new: "entry_mapped a e vm'" "e_va e = va" "e_length e = len" "e_vmo e \<noteq> VMO_INVALID_HANDLE" "len \<noteq> 0" "va \<in> range_pages va len"
  shows "set_ok a (HASH_ADD va e es) vm'"
proof -
  note S = set_okD [OF ok]
  have dj: "range_pages (e_va x) (e_length x) \<inter> range_pages va len = {}" if "(k, x) \<in> set es" for k x
    by (rule entries_disjoint_free [OF _ free]) (use S(2) [OF that] in blast)
  have keep: "entry_mapped a x vm'" if "(k, x) \<in> set es" for k x
    by (rule entry_mapped_disjoint [OF _ same dj [OF that]]) (use S(2) [OF that] in blast)
  have "va \<notin> set (keys es)"
  proof
    assume "va \<in> set (keys es)"
    then obtain x where x: "(va, x) \<in> set es" by auto
    then have "e_va x = va" "range_ok (Some a) (e_va x) (e_length x) \<noteq> None" using S(2) by (auto simp: entry_mapped_def)
    then have "va \<in> range_pages (e_va x) (e_length x)" using first_page range_ok_length by fastforce
    with dj [OF x] new(6) show False by blast
  qed
  moreover have "range_pages va len \<inter> range_pages (e_va x) (e_length x) = {}" if "(k, x) \<in> set es" for k x
    using dj [OF that] by blast
  ultimately show ?thesis unfolding set_ok_def set_ADD using S keep dj new by auto
qed

lemma map_range_ok:
  assumes "address_space_map_range (Some a) va pa len fl oks vm = Some (0, vm')"
  shows "range_ok (Some a) va len \<noteq> None"
  using assms by (auto simp: address_space_map_range_def split: option.splits)

text \<open>A mapping call either records and maps the whole range or leaves all translations as they were.\<close>

lemma kvmo_map_outcome:
  assumes inv: "mm_inv ext st" and a: "vm_spaces (mm_vm st) a = Some as" and held: "backed ext h offset len st"
    and pm: "\<forall>vmo. kvmo_get h (mm_vmo st) = Some vmo \<longrightarrow> kpmem_get (v_pmem vmo) (mm_pmem st) \<noteq> None"
  shows "\<exists>r st'. kvmo_map h (Some a) va offset len rights oks mok st = Some (r, st') \<and> mm_inv ext st' \<and>
    same_objects (mm_vm st) (mm_vm st') \<and> mm_pmem st' = mm_pmem st \<and>
    (r = -1 \<and> same_outside a {} (mm_vm st) (mm_vm st') \<and> mm_vmo st' = mm_vmo st \<or>
     r = 0 \<and> (\<exists>vmo x base plen own. kvmo_get h (mm_vmo st) = Some vmo \<and>
       kpmem_get (v_pmem vmo) (mm_pmem st) = Some (Some (x, base, plen, own)) \<and>
       subrights rights (v_rights vmo) \<and> v_rights vmo AND VMO_MAP \<noteq> 0 \<and> offset \<le> plen \<and> len \<le> plen - offset \<and>
       same_outside a (range_pages va len) (mm_vm st) (mm_vm st') \<and>
       range_ok (Some a) va len \<noteq> None \<and> (\<forall>v \<in> range_pages va len. frame_at a v (mm_vm st) = None) \<and>
       (\<forall>off \<in> set (offsets (the (page_range_length len))). frame_at a (va + off) (mm_vm st') = Some (base + offset + off)) \<and>
       vmoset_lookup_locked (vmoset as) (mm_vmo st) \<noteq> None \<and>
       mm_vmo st' = set_update (vmoset as)
         (HASH_ADD va \<lparr>e_va = va, e_length = len, e_vmo = h, e_offset = offset, e_rights = rights\<rparr>) (mm_vmo st)))"
proof -
  note M = mm_invD [OF inv]
  have fail: ?thesis if "kvmo_map h (Some a) va offset len rights oks mok st = Some (-1, st)"
    using that inv by (auto simp: same_objects_def same_outside_refl)
  show ?thesis
  proof (cases "\<exists>vmo x base plen own. h \<noteq> VMO_INVALID_HANDLE \<and> len \<noteq> 0 \<and> rights AND NOT VMO_PAGE_RIGHTS = 0 \<and>
      kvmo_get h (mm_vmo st) = Some vmo \<and> v_rights vmo AND VMO_MAP \<noteq> 0 \<and> rights AND NOT (v_rights vmo) = 0 \<and> rights AND VMO_READ \<noteq> 0 \<and>
      kpmem_get (v_pmem vmo) (mm_pmem st) = Some (Some (x, base, plen, own)) \<and> offset \<le> plen \<and> len \<le> plen - offset \<and>
      offset \<le> UINT64_MAX - base")
    case False
    have "kvmo_map h (Some a) va offset len rights oks mok st = Some (-1, st)"
    proof (cases "kvmo_get h (mm_vmo st)")
      case None
      then show ?thesis by (simp add: kvmo_map_def)
    next
      case (Some vmo)
      with pm obtain po where po: "kpmem_get (v_pmem vmo) (mm_pmem st) = Some po" by blast
      show ?thesis
      proof (cases po)
        case None
        then show ?thesis using Some po by (simp add: kvmo_map_def)
      next
        case S: (Some q)
        obtain x base plen own where q: "q = (x, base, plen, own)" by (cases q)
        have "h = VMO_INVALID_HANDLE \<or> len = 0 \<or> rights AND NOT VMO_PAGE_RIGHTS \<noteq> 0 \<or> v_rights vmo AND VMO_MAP = 0 \<or>
            rights AND NOT (v_rights vmo) \<noteq> 0 \<or> rights AND VMO_READ = 0 \<or> offset > plen \<or> len > plen - offset \<or> offset > UINT64_MAX - base"
          using False Some po S q not_less by blast
        then show ?thesis by (auto simp: kvmo_map_def Some po S q)
      qed
    qed
    then show ?thesis by (rule fail)
  next
    case True
    then obtain vmo x base plen own where c: "h \<noteq> VMO_INVALID_HANDLE" "len \<noteq> 0" "rights AND NOT VMO_PAGE_RIGHTS = 0"
      "kvmo_get h (mm_vmo st) = Some vmo" "v_rights vmo AND VMO_MAP \<noteq> 0" "rights AND NOT (v_rights vmo) = 0" "rights AND VMO_READ \<noteq> 0"
      "kpmem_get (v_pmem vmo) (mm_pmem st) = Some (Some (x, base, plen, own))" "offset \<le> plen" "len \<le> plen - offset"
      "offset \<le> UINT64_MAX - base" by blast
    have hp: "holds_pages ext (base + offset) len (vm_phys (mm_vm st))" using held c(4,8) unfolding backed_def by blast
    let ?fl = "vmo_page_flags va rights" and ?e = "\<lparr>e_va = va, e_length = len, e_vmo = h, e_offset = offset, e_rights = rights\<rparr>"
    obtain r vm' where R: "address_space_map_range (Some a) va (base + offset) len ?fl oks (mm_vm st) = Some (r, vm')" "vm_inv ext vm'"
      "same_objects (mm_vm st) vm'" "same_managed (vm_phys (mm_vm st)) (vm_phys vm')"
      "r = 0 \<and> same_outside a (range_pages va len) (mm_vm st) vm' \<and>
         (\<forall>off \<in> set (offsets (the (page_range_length len))). frame_at a (va + off) (mm_vm st) = None \<and> frame_at a (va + off) vm' = Some (base + offset + off)) \<or>
       r = -1 \<and> same_outside a {} (mm_vm st) vm'"
      using map_range_outcome [OF M(1) a hp] by metis
    have pre: "kvmo_map h (Some a) va offset len rights oks mok st =
        (if r \<noteq> 0 then Some (-1, st\<lparr>mm_vm := vm'\<rparr>)
         else do { as \<leftarrow> vm_spaces vm' a;
                   case kvmoset_add (vmoset as) h va offset len rights mok (mm_vmo st) of
                     (q, v) \<Rightarrow> if q \<noteq> 0 then do { (r, vm) \<leftarrow> address_space_unmap_range (Some a) va len vm';
                                              if r \<noteq> 0 then None else Some (-1, st\<lparr>mm_vm := vm, mm_vmo := v\<rparr>) }
                               else Some (0, st\<lparr>mm_vm := vm', mm_vmo := v\<rparr>) })"
    proof -
      have n: "\<not> offset > plen" "\<not> len > plen - offset" "\<not> offset > UINT64_MAX - base" using c(9-11) by (simp_all only: not_less)
      show ?thesis unfolding kvmo_map_def c(3,4) option.case c(8) using c(1,2,5-7) n R(1) by simp
    qed
    show ?thesis
    proof (cases "r = 0")
      case False
      with R(5) have s: "same_outside a {} (mm_vm st) vm'" by simp
      have "mm_inv ext (st\<lparr>mm_vm := vm'\<rparr>)" by (rule mm_inv_same_sets [OF inv R(2,3) s R(4)])
      with False R s show ?thesis unfolding pre by simp
    next
      case True
      with R(5) have out: "same_outside a (range_pages va len) (mm_vm st) vm'"
        and fr: "\<forall>off \<in> set (offsets (the (page_range_length len))). frame_at a (va + off) (mm_vm st) = None \<and> frame_at a (va + off) vm' = Some (base + offset + off)"
        by simp_all
      have okr: "range_ok (Some a) va len \<noteq> None" by (rule map_range_ok) (use R(1) True in simp)
      then obtain rounded where pl: "page_range_length len = Some rounded" using range_ok_length by fastforce
      have free: "\<forall>v \<in> range_pages va len. frame_at a v (mm_vm st) = None" using fr by (auto simp: range_pages_def pl)
      have em: "entry_mapped a ?e vm'" using okr fr by (auto simp: entry_mapped_def range_pages_def pl)
      obtain as' where a': "vm_spaces vm' a = Some as'" using same_objects_space [OF R(3) a] by blast
      obtain as0 where "vm_spaces (mm_vm st) a = Some as0" "vmoset as0 = vmoset as'" by (rule same_objects_vmoset [OF R(3) a'])
      then have v': "vmoset as' = vmoset as" using a by simp
      obtain q v where q: "kvmoset_add (vmoset as) h va offset len rights mok (mm_vmo st) = (q, v)" by fastforce
      show ?thesis
      proof (cases "q = 0")
        case False
        then have v: "v = mm_vmo st" using q by (auto simp: kvmoset_add_def split: if_splits option.splits)
        obtain vm2 where U: "address_space_unmap_range (Some a) va len vm' = Some (0, vm2)" "vm_inv ext vm2" "same_objects vm' vm2"
          "same_outside a (range_pages va len) vm' vm2" "\<forall>v \<in> range_pages va len. frame_at a v vm2 = None" "same_managed (vm_phys vm') (vm_phys vm2)"
          using unmap_entry [OF R(2) a' em] by auto
        have o2: "same_outside a (range_pages va len) (mm_vm st) vm2" using same_outside_trans [OF out U(4)] by simp
        have s2: "same_outside a {} (mm_vm st) vm2"
          by (rule same_outside_restored [OF M(1) U(2) o2]) (use range_page [OF okr] free U(5) in \<open>auto split: if_splits\<close>)
        note ob = same_objects_trans [OF R(3) U(3)]
        have "mm_inv ext (st\<lparr>mm_vm := vm2\<rparr>)" by (rule mm_inv_same_sets [OF inv U(2) ob s2 same_managed_trans [OF R(4) U(6)]])
        then show ?thesis unfolding pre using True a' v' q False v U(1) ob s2 by simp
      next
        case q0: True
        let ?v = "set_update (vmoset as) (HASH_ADD va ?e) (mm_vmo st)"
        have v: "v = ?v" "vmoset_lookup_locked (vmoset as) (mm_vmo st) \<noteq> None" using q q0 by (auto simp: kvmoset_add_def split: if_splits option.splits)
        have "mm_inv ext (st\<lparr>mm_vm := vm', mm_vmo := ?v\<rparr>)"
        proof (rule mm_inv_step [OF inv a R(2,3,4)])
          show "reg_wf (vmosets ?v) (next_vmoset_handle ?v)" "next_vmoset_handle ?v = next_vmoset_handle (mm_vmo st)"
            using M(2) by (simp_all add: set_update_wf)
          show "vmoset_lookup_locked k ?v = vmoset_lookup_locked k (mm_vmo st)" if "k \<noteq> vmoset as" for k
            using that by (simp add: set_update_lookup)
          show "set_ok a es vm'" if es: "vmoset_lookup_locked (vmoset as) ?v = Some es" for es
          proof -
            from es obtain es0 where "vmoset_lookup_locked (vmoset as) (mm_vmo st) = Some es0" "es = HASH_ADD va ?e es0"
              by (auto simp: set_update_lookup)
            then show ?thesis using set_ok_ADD [OF M(3) [OF a] out free em] c(1,2) first_page [OF pl] by simp
          qed
          show "entry_mapped b e vm'" if "b \<noteq> a" "entry_mapped b e (mm_vm st)" for b e
            by (rule entry_mapped_other [OF that(2) out okr that(1)])
        qed
        moreover have "subrights rights (v_rights vmo)" using c(6) by (simp add: no_extra_rights)
        ultimately show ?thesis unfolding pre using True a' v' q q0 v R(3) c out fr okr free by simp
      qed
    qed
  qed
qed

section \<open>Protection\<close>

lemma in_UPD: "(j, y) \<in> set (HASH_UPD k f t) \<longleftrightarrow> (\<exists>x. (j, x) \<in> set t \<and> y = (if j = k then f x else x))"
  unfolding HASH_UPD_def by (induction t) auto

lemma set_ok_rights:
  assumes "set_ok a es vm"
  shows "set_ok a (HASH_UPD va (\<lambda>e. e\<lparr>e_rights := r\<rparr>) es) vm"
proof -
  have same: "e_va (if c then e\<lparr>e_rights := r\<rparr> else e) = e_va e" "e_length (if c then e\<lparr>e_rights := r\<rparr> else e) = e_length e"
    "e_vmo (if c then e\<lparr>e_rights := r\<rparr> else e) = e_vmo e" for c e by simp_all
  have em: "entry_mapped a (if c then e\<lparr>e_rights := r\<rparr> else e) vm = entry_mapped a e vm" for c e by (simp add: entry_mapped_def)
  show ?thesis unfolding set_ok_def in_UPD
  proof (intro conjI allI impI; (elim exE conjE)?)
    show "distinct (keys (HASH_UPD va (\<lambda>e. e\<lparr>e_rights := r\<rparr>) es))" using set_okD(1) [OF assms] by simp
    fix k e x assume "(k, x) \<in> set es" "e = (if k = va then x\<lparr>e_rights := r\<rparr> else x)"
    then show "k = e_va e" "entry_mapped a e vm" "e_vmo e \<noteq> VMO_INVALID_HANDLE" "e_length e \<noteq> 0"
      using set_okD(2) [OF assms, of k x] by (simp_all only: same em simp_thms)
  next
    fix k e k' e' x x' assume "k \<noteq> k'" "(k, x) \<in> set es" "(k', x') \<in> set es"
      "e = (if k = va then x\<lparr>e_rights := r\<rparr> else x)" "e' = (if k' = va then x'\<lparr>e_rights := r\<rparr> else x')"
    then show "range_pages (e_va e) (e_length e) \<inter> range_pages (e_va e') (e_length e') = {}"
      using set_okD(3) [OF assms, of k x k' x'] by (simp only: same simp_thms)
  qed
qed

lemma kvmo_protect_outcome:
  assumes inv: "mm_inv ext st" and a: "vm_spaces (mm_vm st) a = Some as"
  shows "\<exists>r st'. kvmo_protect h (Some a) va len rights st = Some (r, st') \<and> mm_inv ext st' \<and> all_same (mm_vm st) (mm_vm st') \<and>
    vm_spaces (mm_vm st') = vm_spaces (mm_vm st) \<and> mm_pmem st' = mm_pmem st \<and>
    (r = -1 \<and> mm_vmo st' = mm_vmo st \<or>
     r = 0 \<and> (\<exists>vmo. kvmo_get h (mm_vmo st) = Some vmo \<and> subrights rights (v_rights vmo)) \<and>
       mm_vmo st' = set_update (vmoset as) (HASH_UPD va (\<lambda>e. e\<lparr>e_rights := rights\<rparr>)) (mm_vmo st))"
proof -
  note M = mm_invD [OF inv]
  have fail: ?thesis if "kvmo_protect h (Some a) va len rights st = Some (-1, st)"
    using that inv by (auto simp: all_same_def)
  show ?thesis
  proof (cases "\<exists>vmo e. h \<noteq> VMO_INVALID_HANDLE \<and> len \<noteq> 0 \<and> rights AND NOT VMO_PAGE_RIGHTS = 0 \<and> rights AND VMO_READ \<noteq> 0 \<and>
      kvmo_get h (mm_vmo st) = Some vmo \<and> rights AND NOT (v_rights vmo) = 0 \<and> kvmoset_find (vmoset as) va (mm_vmo st) = Some e \<and>
      e_vmo e = h \<and> e_va e = va \<and> e_length e = len")
    case False
    then show ?thesis by (intro fail) (auto simp: kvmo_protect_def a split: option.split)
  next
    case True
    then obtain vmo e where c: "h \<noteq> VMO_INVALID_HANDLE" "len \<noteq> 0" "rights AND NOT VMO_PAGE_RIGHTS = 0" "rights AND VMO_READ \<noteq> 0"
      "kvmo_get h (mm_vmo st) = Some vmo" "rights AND NOT (v_rights vmo) = 0" "kvmoset_find (vmoset as) va (mm_vmo st) = Some e"
      "e_vmo e = h" "e_va e = va" "e_length e = len" by blast
    obtain es k where es: "vmoset_lookup_locked (vmoset as) (mm_vmo st) = Some es" and k: "(k, e) \<in> set es"
      using c(7) by (auto simp: kvmoset_find_def find_Some_iff split: option.splits) (metis nth_mem)
    note ok = M(3) [OF a es]
    have kv: "k = va" using set_okD(2) [OF ok k] c(9) by simp
    have f: "HASH_FIND va es \<noteq> None" using HASH_FIND_None_in k kv by metis
    obtain r vm' where R: "address_space_protect_range (Some a) va len (vmo_page_flags va rights) (mm_vm st) = Some (r, vm')" "vm_inv ext vm'"
      "all_same (mm_vm st) vm'" "vm_spaces vm' = vm_spaces (mm_vm st)" "same_managed (vm_phys (mm_vm st)) (vm_phys vm')"
      using protect_range_outcome [OF M(1) a] by metis
    have ob: "same_objects (mm_vm st) vm'" using R(4) by (simp add: same_objects_def)
    have n: "vmoset as \<noteq> VMOSET_INVALID_HANDLE" using M(5) [OF a] by auto
    have q: "kvmoset_set_rights (vmoset as) va rights (mm_vmo st) =
        (0, set_update (vmoset as) (HASH_UPD va (\<lambda>e. e\<lparr>e_rights := rights\<rparr>)) (mm_vmo st))"
      using n c(3) es f by (simp add: kvmoset_set_rights_def)
    let ?v = "set_update (vmoset as) (HASH_UPD va (\<lambda>e. e\<lparr>e_rights := rights\<rparr>)) (mm_vmo st)"
    have pre: "kvmo_protect h (Some a) va len rights st = (if r \<noteq> 0 then Some (-1, st\<lparr>mm_vm := vm'\<rparr>) else Some (0, st\<lparr>mm_vm := vm', mm_vmo := ?v\<rparr>))"
      unfolding kvmo_protect_def c(3,5) option.case using c a R(1) q by simp
    have s0: "same_outside a {} (mm_vm st) vm'" by (rule same_outside_all [OF R(3)])
    show ?thesis
    proof (cases "r = 0")
      case False
      then show ?thesis unfolding pre using mm_inv_same_sets [OF inv R(2) ob s0 R(5)] R(3,4) by simp
    next
      case True
      have "mm_inv ext (st\<lparr>mm_vm := vm', mm_vmo := ?v\<rparr>)"
      proof (rule mm_inv_step [OF inv a R(2) ob R(5)])
        show "reg_wf (vmosets ?v) (next_vmoset_handle ?v)" "next_vmoset_handle ?v = next_vmoset_handle (mm_vmo st)"
          using M(2) by (simp_all add: set_update_wf)
        show "vmoset_lookup_locked x ?v = vmoset_lookup_locked x (mm_vmo st)" if "x \<noteq> vmoset as" for x
          using that by (simp add: set_update_lookup)
        show "set_ok a es' vm'" if "vmoset_lookup_locked (vmoset as) ?v = Some es'" for es'
          using that set_ok_rights [OF set_ok_same [OF ok s0]] es by (auto simp: set_update_lookup)
        show "entry_mapped b x vm'" if "entry_mapped b x (mm_vm st)" for b x by (rule entry_same [OF that s0])
      qed
      moreover have "subrights rights (v_rights vmo)" using c(6) by (simp add: no_extra_rights)
      ultimately show ?thesis unfolding pre using True R(3,4) c(5) by simp
    qed
  qed
qed

end
