(* ===== verification/Spaces.thy ===== *)
theory Spaces
  imports Vroots Kvmo_Inv Kcaps
begin

text \<open>
  Life of address spaces: creation, references and destruction (src/kernel/core/memory.c) and the handles of
  address space objects with their reaper (src/kernel/subsystems/kas.c).  The reaper's queue is the FIFO of the
  library libfifo, whose source is not part of the repository: its operations are arguments.  \<open>None\<close> is a panic,
  the endless loop by which kas.c stops the kernel, or the use of a freed object.
\<close>

section \<open>Definitions\<close>

record 'q space_state =
  sp_mm :: mm_state
  sp_caps :: caps_state
  address_spaces :: "(u64, addr) uthash"
    \<comment> \<open>as_t: handle and address space\<close>
  next_as_handle :: u64
  reaper_queue :: 'q

abbreviation AS_INVALID_HANDLE :: u64 where "AS_INVALID_HANDLE \<equiv> UINT64_MAX"
abbreviation KAS_REAPER_CAPACITY :: nat where "KAS_REAPER_CAPACITY \<equiv> 64"

definition sp_vm :: "'q space_state \<Rightarrow> vm_state" where
  "sp_vm st = mm_vm (sp_mm st)"

definition put_vm :: "vm_state \<Rightarrow> 'q space_state \<Rightarrow> 'q space_state" where
  "put_vm vm st = st\<lparr>sp_mm := (sp_mm st)\<lparr>mm_vm := vm\<rparr>\<rparr>"

definition put_vmo :: "kvmo_state \<Rightarrow> 'q space_state \<Rightarrow> 'q space_state" where
  "put_vmo v st = st\<lparr>sp_mm := (sp_mm st)\<lparr>mm_vmo := v\<rparr>\<rparr>"

definition address_space_references :: "addr option \<Rightarrow> 'q space_state \<Rightarrow> nat option" where
  "address_space_references ao st =
     (case ao of None \<Rightarrow> Some 0 | Some a \<Rightarrow> map_option as_references (vm_spaces (sp_vm st) a))"

definition address_space_retain :: "addr option \<Rightarrow> 'q space_state \<Rightarrow> 'q space_state option" where
  "address_space_retain ao st =
     (case ao of
        None \<Rightarrow> Some st
      | Some a \<Rightarrow>
          do { as \<leftarrow> vm_spaces (sp_vm st) a;
               if permanent as then Some st
               else Some (put_vm (set_space a (as\<lparr>as_references := as_references as + 1\<rparr>) (vm_phys (sp_vm st)) (sp_vm st)) st) })"

partial_function (option) unmap_records :: "addr \<Rightarrow> vm_state \<Rightarrow> vm_state option" where
  \<comment> \<open>the loop of address_space_destroy over the mapping records\<close>
  "unmap_records a vm =
     do { as \<leftarrow> vm_spaces vm a;
          case mappings as of
            [] \<Rightarrow> Some vm
          | x # _ \<Rightarrow>
              do { y \<leftarrow> address_space_unmap_page (Some a) (virtual_address x) vm;
                   if fst y \<noteq> 0 then None else unmap_records a (snd y) } }"

declare unmap_records.simps [code]

definition address_space_destroy :: "addr \<Rightarrow> 'q space_state \<Rightarrow> 'q space_state option" where
  "address_space_destroy a st =
     do { as \<leftarrow> vm_spaces (sp_vm st) a;
          if permanent as then Some st
          else
            do { (r, mm) \<leftarrow> kvmoset_unmap_all (vmoset as) (Some a) (sp_mm st);
                 if r \<noteq> 0 then None
                 else
                   do { let mm = mm\<lparr>mm_vmo := snd (kvmoset_destroy (vmoset as) (mm_vmo mm))\<rparr>;
                        vm \<leftarrow> unmap_records a (mm_vm mm);
                        s \<leftarrow> phys_page_put (pml4_phys as) (vm_phys vm);
                        Some (st\<lparr>sp_mm := mm\<lparr>mm_vm := vm\<lparr>vm_phys := s, vm_spaces := (vm_spaces vm)(a := None)\<rparr>\<rparr>,
                                 sp_caps := snd (kcapset_destroy (capset as) (sp_caps st))\<rparr>) } } }"

definition address_space_release :: "addr option \<Rightarrow> 'q space_state \<Rightarrow> 'q space_state option" where
  "address_space_release ao st =
     (case ao of
        None \<Rightarrow> Some st
      | Some a \<Rightarrow>
          do { as \<leftarrow> vm_spaces (sp_vm st) a;
               if permanent as then Some st
               else if as_references as = 0 then Some st
               else
                 do { let st = put_vm (set_space a (as\<lparr>as_references := as_references as - 1\<rparr>) (vm_phys (sp_vm st)) (sp_vm st)) st;
                      if as_references as - 1 = 0 then address_space_destroy a st else Some st } })"

definition address_space_create :: "u32 \<Rightarrow> bool \<Rightarrow> bool \<Rightarrow> addr option \<Rightarrow> 'q space_state \<Rightarrow> (addr option \<times> 'q space_state) option" where
  \<comment> \<open>the outcomes of kmalloc for the capability set, the VMO set and the space\<close>
  "address_space_create flags cok vok mem st =
     (case kcapset_new cok (sp_caps st) of
        (None, _) \<Rightarrow> Some (None, st)
      | (Some as_capset, caps) \<Rightarrow>
          (case kvmoset_new vok (mm_vmo (sp_mm st)) of
             (None, _) \<Rightarrow> Some (None, st\<lparr>sp_caps := snd (kcapset_destroy as_capset caps)\<rparr>)
           | (Some as_vmoset, v) \<Rightarrow>
               let undo = st\<lparr>sp_caps := snd (kcapset_destroy as_capset caps),
                             sp_mm := (sp_mm st)\<lparr>mm_vmo := snd (kvmoset_destroy as_vmoset v)\<rparr>\<rparr> in
               case phys_alloc_page (vm_phys (sp_vm st)) of
                 None \<Rightarrow> Some (None, undo)
               | Some (pml4, s) \<Rightarrow>
                   (case mem of
                      None \<Rightarrow>
                        do { s \<leftarrow> phys_page_put pml4 s; Some (None, put_vm ((sp_vm undo)\<lparr>vm_phys := s\<rparr>) undo) }
                    | Some a \<Rightarrow>
                        do { ks \<leftarrow> vm_spaces (sp_vm st) address_space_kernel;
                             let m = phys_words s;
                                 m = m(pml4 AND PAGE_ADDR_MASK :=
                                   (\<lambda>i. if 256 \<le> i \<and> i < 512 then page_table (pml4_phys ks) m i else 0));
                                 as = \<lparr>pml4_phys = pml4, mappings = [], as_flags = flags, as_references = 1, live_threads = 0,
                                       permanent = False, capset = as_capset, vmoset = as_vmoset\<rparr>;
                                 vm = set_space a as (s\<lparr>phys_words := m\<rparr>) (sp_vm st) in
                             Some (Some a, st\<lparr>sp_caps := caps, sp_mm := (sp_mm st)\<lparr>mm_vm := vm, mm_vmo := v\<rparr>\<rparr>) })))"

section \<open>Handles\<close>

definition kas_find_locked :: "u64 \<Rightarrow> 'q space_state \<Rightarrow> addr option" where
  "kas_find_locked h st = HASH_FIND h (address_spaces st)"

definition kas_register :: "addr option \<Rightarrow> bool \<Rightarrow> 'q space_state \<Rightarrow> (u64 option \<times> 'q space_state) option" where
  "kas_register ao mok st =
     (if ao = None \<or> \<not> mok \<or> next_as_handle st = AS_INVALID_HANDLE then Some (None, st)
      else
        do { st \<leftarrow> address_space_retain ao st;
             Some (Some (next_as_handle st),
               st\<lparr>address_spaces := HASH_ADD (next_as_handle st) (the ao) (address_spaces st), next_as_handle := next_as_handle st + 1\<rparr>) })"

definition kas_acquire :: "u64 \<Rightarrow> 'q space_state \<Rightarrow> (addr option \<times> 'q space_state) option" where
  "kas_acquire h st =
     (if h = AS_INVALID_HANDLE then Some (None, st)
      else case kas_find_locked h st of
        None \<Rightarrow> Some (None, st)
      | Some a \<Rightarrow> map_option (Pair (Some a)) (address_space_retain (Some a) st))"

definition kas_release :: "addr option \<Rightarrow> 'q space_state \<Rightarrow> 'q space_state option" where
  "kas_release ao st = (if ao = None then Some st else address_space_release ao st)"

definition kas_reaper_enqueue ::
  "('q \<Rightarrow> addr \<Rightarrow> 'q option) \<Rightarrow> ('q \<Rightarrow> bool) \<Rightarrow> ('q \<Rightarrow> nat) \<Rightarrow> ('q \<Rightarrow> nat \<Rightarrow> 'q option) \<Rightarrow> bool \<Rightarrow> addr \<Rightarrow> 'q \<Rightarrow> 'q option" where
  "kas_reaper_enqueue fifo_push fifo_full fifo_capacity fifo_resize mok dead q =
     (case fifo_push q dead of
        Some q \<Rightarrow> Some q
      | None \<Rightarrow>
          if \<not> fifo_full q then None
          else if int (fifo_capacity q) > SIZE_MAX - int KAS_REAPER_CAPACITY then None
          else if \<not> mok then None
          else case fifo_resize q (fifo_capacity q + KAS_REAPER_CAPACITY) of
            None \<Rightarrow> None
          | Some q \<Rightarrow> fifo_push q dead)"

definition kas_unregister ::
  "('q \<Rightarrow> addr \<Rightarrow> 'q option) \<Rightarrow> ('q \<Rightarrow> bool) \<Rightarrow> ('q \<Rightarrow> nat) \<Rightarrow> ('q \<Rightarrow> nat \<Rightarrow> 'q option) \<Rightarrow> bool \<Rightarrow> u64 \<Rightarrow> 'q space_state \<Rightarrow>
   (int \<times> 'q space_state) option" where
  "kas_unregister fifo_push fifo_full fifo_capacity fifo_resize mok h st =
     (if h = AS_INVALID_HANDLE then Some (-1, st)
      else case kas_find_locked h st of
        None \<Rightarrow> Some (-1, st)
      | Some a \<Rightarrow>
          do { q \<leftarrow> kas_reaper_enqueue fifo_push fifo_full fifo_capacity fifo_resize mok a (reaper_queue st);
               Some (0, st\<lparr>address_spaces := HASH_DEL h (address_spaces st), reaper_queue := q\<rparr>) })"

definition kas_reaper_step :: "('q \<Rightarrow> (addr \<times> 'q) option) \<Rightarrow> 'q space_state \<Rightarrow> 'q space_state option" where
  \<comment> \<open>one round of kas_reaper_task; it waits while the queue is empty\<close>
  "kas_reaper_step fifo_pop st =
     (case fifo_pop (reaper_queue st) of
        None \<Rightarrow> Some st
      | Some (a, q) \<Rightarrow> address_space_release (Some a) (st\<lparr>reaper_queue := q\<rparr>))"

end
