(* ===== verification/Spaces_Inv.thy ===== *)
theory Spaces_Inv
  imports Spaces
begin

text \<open>
  Address spaces are destroyed without a panic: the VMO set and the mapping records name only mapped pages, so the teardown
  loops end, and the references of the page tables stay exact.
\<close>

section \<open>Teardown of the mapping records\<close>

lemma records_are_pages:
  assumes inv: "vm_inv ext vm" and a: "vm_spaces vm a = Some as" "a \<noteq> address_space_kernel"
  shows "virtual_address ` set (mappings as) = {v. v < USER_CANONICAL_TOP \<and> page_of v = v \<and> frame_at a v vm \<noteq> None}"
    "length (mappings as) = card (virtual_address ` set (mappings as))"
proof -
  note R = vm_invD(4) [OF inv a, unfolded records_ok_def]
  have fr: "frame_at a v vm = tab (phys_words (vm_phys vm)) (pml4_phys as) (vpath v)" for v using a(1) by (simp add: frame_at_def)
  show "virtual_address ` set (mappings as) = {v. v < USER_CANONICAL_TOP \<and> page_of v = v \<and> frame_at a v vm \<noteq> None}"
  proof (rule set_eqI)
    fix v
    show "v \<in> virtual_address ` set (mappings as) \<longleftrightarrow> v \<in> {v. v < USER_CANONICAL_TOP \<and> page_of v = v \<and> frame_at a v vm \<noteq> None}"
      unfolding fr mem_Collect_eq using R by blast
  qed
  show "length (mappings as) = card (virtual_address ` set (mappings as))"
    using R distinct_card [of "map virtual_address (mappings as)"] by simp
qed

lemma user_page: "v < USER_CANONICAL_TOP \<Longrightarrow> canonical v \<and> page_of v < USER_CANONICAL_TOP \<and> canonical (page_of v) \<and> page_of (page_of v) = page_of v"
proof -
  assume v: "v < USER_CANONICAL_TOP"
  have "unat (page_of v) \<le> unat v" unfolding page_of_def unat_page_floor by simp
  then have "page_of v < USER_CANONICAL_TOP" using v by (simp add: word_less_nat_alt)
  moreover have "page_of (page_of v) = page_of v" by (simp add: page_of_def and.assoc)
  ultimately show ?thesis using v by (simp add: canonical_def)
qed

lemma unmap_records_spec:
  assumes "vm_inv ext vm" "vm_spaces vm a = Some as" "a \<noteq> address_space_kernel"
  shows "\<exists>vm'. unmap_records a vm = Some vm' \<and> vm_inv ext vm' \<and> same_objects vm vm' \<and> same_managed (vm_phys vm) (vm_phys vm') \<and>
    (\<forall>b v. b \<noteq> a \<longrightarrow> canonical v \<longrightarrow> frame_at b v vm' = frame_at b v vm) \<and> (\<forall>v < USER_CANONICAL_TOP. frame_at a v vm' = None)"
  using assms
proof (induction "length (mappings as)" arbitrary: vm as rule: less_induct)
  case less
  note inv = less.prems(1) and a = less.prems(2,3)
  note P = records_are_pages [OF inv a]
  show ?case
  proof (cases "mappings as")
    case Nil
    have "frame_at a v vm = None" if "v < USER_CANONICAL_TOP" for v
    proof -
      note u = user_page [OF that]
      have "frame_at a (page_of v) vm = None" using P(1) Nil u by auto
      moreover have "vpath v = vpath (page_of v)" using vpath_inj [of v "page_of v"] u by simp
      ultimately show ?thesis by (simp only: frame_at_def)
    qed
    then show ?thesis using inv a(1) Nil by (subst unmap_records.simps) (simp add: same_objects_def)
  next
    case (Cons x xs)
    let ?va = "virtual_address x"
    have "?va \<in> virtual_address ` set (mappings as)" using Cons by simp
    then have v: "?va < USER_CANONICAL_TOP" "page_of ?va = ?va" "frame_at a ?va vm \<noteq> None" unfolding P(1) by simp_all
    have al: "mapping_allowed (Some a) ?va False" using v(1,2) unfolding mapping_allowed_def page_of_aligned by simp
    obtain vm1 where U: "unmap_page_internal (Some a) ?va False True vm = Some (0, vm1)" "frame_at a ?va vm1 = None" "vm_inv ext vm1"
      "others_same a ?va vm vm1" "same_objects vm vm1" "same_managed (vm_phys vm) (vm_phys vm1)"
      using unmap_page_internal_spec [OF inv a(1) disjI1 [OF TrueI], of ?va False] al v(3) by auto
    obtain as1 where a1: "vm_spaces vm1 a = Some as1" using same_objects_space [OF U(5) a(1)] by blast
    note P1 = records_are_pages [OF U(3) a1 a(2)]
    have "frame_at a v vm1 \<noteq> None \<longleftrightarrow> frame_at a v vm \<noteq> None \<and> v \<noteq> ?va" if "v < USER_CANONICAL_TOP" "page_of v = v" for v
      using U(2,4) that by (cases "v = ?va") (auto simp: others_same_def canonical_def)
    then have "virtual_address ` set (mappings as1) = virtual_address ` set (mappings as) - {?va}"
      unfolding P(1) P1(1) by blast
    then have sm: "length (mappings as1) < length (mappings as)"
      unfolding P(2) P1(2) by (intro psubset_card_mono) (use Cons in auto)
    from less.hyps [OF sm U(3) a1 a(2)] obtain vm2 where
      W: "unmap_records a vm1 = Some vm2" "vm_inv ext vm2" "same_objects vm1 vm2" "same_managed (vm_phys vm1) (vm_phys vm2)"
        "\<forall>b v. b \<noteq> a \<longrightarrow> canonical v \<longrightarrow> frame_at b v vm2 = frame_at b v vm1" "\<forall>v < USER_CANONICAL_TOP. frame_at a v vm2 = None" by blast
    have run: "unmap_records a vm = Some vm2"
      using a(1) Cons U(1) W(1) by (subst unmap_records.simps) (simp add: address_space_unmap_page_def)
    have "frame_at b v vm2 = frame_at b v vm" if "b \<noteq> a" "canonical v" for b v
      using W(5) U(4) v(1) that by (auto simp: others_same_def)
    then show ?thesis using run W(2,6) same_objects_trans [OF U(5) W(3)] same_managed_trans [OF U(6) W(4)] by simp
  qed
qed

section \<open>Destruction\<close>

text \<open>A space whose VMO set is gone can be taken out.\<close>

lemma mm_remove_space:
  assumes inv: "mm_inv ext mm" and a: "vm_spaces (mm_vm mm) a = Some as" "a \<noteq> address_space_kernel"
  shows "\<exists>s ext'. phys_page_put (pml4_phys as) (vm_phys (mm_vm mm)) = Some s \<and> (\<forall>q. ext q \<le> ext' q) \<and>
    mm_inv ext' (mm\<lparr>mm_vm := (mm_vm mm)\<lparr>vm_phys := s, vm_spaces := (vm_spaces (mm_vm mm))(a := None)\<rparr>,
                    mm_vmo := snd (kvmoset_destroy (vmoset as) (mm_vmo mm))\<rparr>) \<and>
    same_managed (vm_phys (mm_vm mm)) s \<and>
    (\<forall>b v. b \<noteq> a \<longrightarrow> frame_at b v ((mm_vm mm)\<lparr>vm_phys := s, vm_spaces := (vm_spaces (mm_vm mm))(a := None)\<rparr>) = frame_at b v (mm_vm mm))"
proof -
  note M = mm_invD [OF inv]
  let ?v = "snd (kvmoset_destroy (vmoset as) (mm_vmo mm))"
  have v: "vmoset_lookup_locked h ?v = (if h = vmoset as \<and> h \<noteq> VMOSET_INVALID_HANDLE then None else vmoset_lookup_locked h (mm_vmo mm))" for h
    by (auto simp: kvmoset_destroy_def vmoset_lookup_locked_def HASH_FIND_DEL)
  have w: "reg_wf (vmosets ?v) (next_vmoset_handle ?v)" "next_vmoset_handle ?v = next_vmoset_handle (mm_vmo mm)"
    using M(2) by (auto simp: kvmoset_destroy_def reg_wf_DEL)
  obtain s where S: "phys_page_put (pml4_phys as) (vm_phys (mm_vm mm)) = Some s"
    "vm_inv (\<lambda>q. ext q + left_behind (kroot (mm_vm mm)) (roots (mm_vm mm)) (pml4_phys as) (phys_words (vm_phys (mm_vm mm))) q)
      ((mm_vm mm)\<lparr>vm_phys := s, vm_spaces := (vm_spaces (mm_vm mm))(a := None)\<rparr>)"
    "same_managed (vm_phys (mm_vm mm)) s"
    "\<And>b v. b \<noteq> a \<Longrightarrow> frame_at b v ((mm_vm mm)\<lparr>vm_phys := s, vm_spaces := (vm_spaces (mm_vm mm))(a := None)\<rparr>) = frame_at b v (mm_vm mm)"
    using vm_remove_space [OF M(1) a M(6) [OF a]] by blast
  let ?vm = "(mm_vm mm)\<lparr>vm_phys := s, vm_spaces := (vm_spaces (mm_vm mm))(a := None)\<rparr>"
  let ?ext = "\<lambda>q. ext q + left_behind (kroot (mm_vm mm)) (roots (mm_vm mm)) (pml4_phys as) (phys_words (vm_phys (mm_vm mm))) q"
  have sp: "vm_spaces ?vm b = Some bs \<longleftrightarrow> b \<noteq> a \<and> vm_spaces (mm_vm mm) b = Some bs" for b bs by auto
  have "mm_inv ?ext (mm\<lparr>mm_vm := ?vm, mm_vmo := ?v\<rparr>)"
  proof (rule mm_invI [OF S(2) w(1)])
    fix b bs es assume b: "vm_spaces ?vm b = Some bs" and es: "vmoset_lookup_locked (vmoset bs) ?v = Some es"
    from b have b': "b \<noteq> a" "vm_spaces (mm_vm mm) b = Some bs" unfolding sp by blast+
    have "vmoset_lookup_locked (vmoset bs) (mm_vmo mm) = Some es" using es unfolding v by (simp split: if_splits)
    note ok = M(3) [OF b'(2) this]
    show "set_ok b es ?vm"
    proof (rule set_ok_mapped [OF ok])
      show "entry_mapped b e ?vm" if "entry_mapped b e (mm_vm mm)" for e using that unfolding entry_mapped_def S(4) [OF b'(1)] .
    qed
  next
    show "b = c" if "vm_spaces ?vm b = Some bs" "vm_spaces ?vm c = Some cs" "vmoset bs = vmoset cs" for b c bs cs
      using that M(4) unfolding sp by blast
    show "vmoset bs < next_vmoset_handle ?v" if "vm_spaces ?vm b = Some bs" for b bs using that M(5) unfolding sp w(2) by blast
    show "phys_page_is_managed (pml4_phys bs) (vm_phys ?vm)" if "vm_spaces ?vm b = Some bs" "b \<noteq> address_space_kernel" for b bs
    proof -
      have "vm_spaces (mm_vm mm) b = Some bs" using that(1) unfolding sp by blast
      from M(6) [OF this that(2)] S(3) show ?thesis by (simp add: same_managed_def)
    qed
  qed
  then show ?thesis using S(1,3,4) by (intro exI [of _ s] exI [of _ ?ext]) simp
qed

lemma destroy_clean:
  assumes mm: "mm_inv ext (sp_mm st)" and a: "vm_spaces (sp_vm st) a = Some as" "a \<noteq> address_space_kernel" "\<not> permanent as"
    and set: "vmoset_lookup_locked (vmoset as) (mm_vmo (sp_mm st)) \<noteq> None"
  shows "\<exists>st' ext'. address_space_destroy a st = Some st' \<and> (\<forall>q. ext q \<le> ext' q) \<and> mm_inv ext' (sp_mm st') \<and>
    vm_spaces (sp_vm st') a = None \<and>
    (\<forall>b. b \<noteq> a \<longrightarrow> map_option (\<lambda>x. x\<lparr>mappings := []\<rparr>) (vm_spaces (sp_vm st') b) = map_option (\<lambda>x. x\<lparr>mappings := []\<rparr>) (vm_spaces (sp_vm st) b)) \<and>
    (\<forall>b v. b \<noteq> a \<longrightarrow> v < USER_CANONICAL_TOP \<longrightarrow> frame_at b v (sp_vm st') = frame_at b v (sp_vm st)) \<and>
    (\<forall>h. h \<noteq> vmoset as \<longrightarrow> vmoset_lookup_locked h (mm_vmo (sp_mm st')) = vmoset_lookup_locked h (mm_vmo (sp_mm st))) \<and>
    sp_caps st' = snd (kcapset_destroy (capset as) (sp_caps st)) \<and> address_spaces st' = address_spaces st \<and> next_as_handle st' = next_as_handle st \<and> reaper_queue st' = reaper_queue st"
proof -
  note M = mm_invD [OF mm] and a' = a(1) [unfolded sp_vm_def]
  obtain es where es: "vmoset_lookup_locked (vmoset as) (mm_vmo (sp_mm st)) = Some es" using set by blast
  have n: "vmoset as \<noteq> VMOSET_INVALID_HANDLE" using M(5) [OF a'] by auto
  obtain m1 where U: "kvmoset_unmap_all (vmoset as) (Some a) (sp_mm st) = Some (0, m1)" "mm_inv ext m1"
    "same_objects (mm_vm (sp_mm st)) (mm_vm m1)" "users_same {a} (mm_vm (sp_mm st)) (mm_vm m1)"
    "\<forall>h. h \<noteq> vmoset as \<longrightarrow> vmoset_lookup_locked h (mm_vmo m1) = vmoset_lookup_locked h (mm_vmo (sp_mm st))"
    "vmoset_lookup_locked (vmoset as) (mm_vmo m1) = Some []"
    using unmap_all_empties [OF mm a' es n] by blast
  note M1 = mm_invD [OF U(2)]
  obtain as1 where a1: "vm_spaces (mm_vm m1) a = Some as1" using same_objects_space [OF U(3) a'] by blast
  obtain vm2 where W: "unmap_records a (mm_vm m1) = Some vm2" "vm_inv ext vm2" "same_objects (mm_vm m1) vm2"
    "same_managed (vm_phys (mm_vm m1)) (vm_phys vm2)" "\<forall>b v. b \<noteq> a \<longrightarrow> canonical v \<longrightarrow> frame_at b v vm2 = frame_at b v (mm_vm m1)"
    using unmap_records_spec [OF M1(1) a1 a(2)] by blast
  have same: "same_objects (sp_vm st) vm2" unfolding sp_vm_def by (rule same_objects_trans [OF U(3) W(3)])
  obtain as2 where a2: "vm_spaces vm2 a = Some as2" using same_objects_space [OF same a(1)] by blast
  obtain as0 where as0: "vm_spaces (sp_vm st) a = Some as0" "vmoset as0 = vmoset as2" "pml4_phys as0 = pml4_phys as2"
    by (rule same_objects_vmoset [OF same a2])
  have eq: "vmoset as2 = vmoset as" "pml4_phys as2 = pml4_phys as" using as0 a(1) by simp_all
  obtain as1' where e1: "vm_spaces (mm_vm (sp_mm st)) a = Some as1'" "vmoset as1' = vmoset as1" by (rule same_objects_vmoset [OF U(3) a1])
  have eq1: "vmoset as1 = vmoset as" using e1 a' by simp
  have inv2: "mm_inv ext (m1\<lparr>mm_vm := vm2, mm_vmo := mm_vmo m1\<rparr>)"
  proof (rule mm_inv_step [OF U(2) a1 W(2-4) M1(2) refl refl])
    show "set_ok a es vm2" if "vmoset_lookup_locked (vmoset as1) (mm_vmo m1) = Some es" for es
      using that U(6) eq1 by (simp add: set_ok_def)
    show "entry_mapped b e vm2" if "b \<noteq> a" "entry_mapped b e (mm_vm m1)" for b e
      using that W(5) range_page(1) [of b "e_va e" "e_length e"] by (simp add: entry_mapped_def)
  qed
  let ?m2 = "m1\<lparr>mm_vm := vm2, mm_vmo := mm_vmo m1\<rparr>"
  have a3: "vm_spaces (mm_vm ?m2) a = Some as2" using a2 by simp
  let ?vm3 = "\<lambda>s. vm2\<lparr>vm_phys := s, vm_spaces := (vm_spaces vm2)(a := None)\<rparr>"
  obtain s ext' where S: "phys_page_put (pml4_phys as) (vm_phys vm2) = Some s" "\<forall>q. ext q \<le> ext' q"
    "mm_inv ext' (m1\<lparr>mm_vm := ?vm3 s, mm_vmo := snd (kvmoset_destroy (vmoset as) (mm_vmo m1))\<rparr>)"
    "\<forall>b v. b \<noteq> a \<longrightarrow> frame_at b v (?vm3 s) = frame_at b v vm2"
    using mm_remove_space [OF inv2 a3 a(2)] unfolding eq by auto
  let ?st = "st\<lparr>sp_mm := m1\<lparr>mm_vm := ?vm3 s, mm_vmo := snd (kvmoset_destroy (vmoset as) (mm_vmo m1))\<rparr>,
      sp_caps := snd (kcapset_destroy (capset as) (sp_caps st))\<rparr>"
  have run: "address_space_destroy a st = Some ?st"
    using a(1,3) U(1) W(1) S(1) unfolding address_space_destroy_def Let_def by simp
  have "frame_at b v (?vm3 s) = frame_at b v (sp_vm st)" if "b \<noteq> a" "v < USER_CANONICAL_TOP" for b v
    using S(4) W(5) U(4) that user_page [OF that(2)] unfolding sp_vm_def users_same_def by simp
  moreover have "vmoset_lookup_locked h (snd (kvmoset_destroy (vmoset as) (mm_vmo m1))) = vmoset_lookup_locked h (mm_vmo (sp_mm st))"
    if "h \<noteq> vmoset as" for h
    using U(5) that by (auto simp: kvmoset_destroy_def vmoset_lookup_locked_def HASH_FIND_DEL)
  ultimately show ?thesis using run S(2,3) same
    by (intro exI [of _ ?st] exI [of _ ext']) (simp add: sp_vm_def same_objects_def)
qed

end
