(* ===== verification/Spaces_Refs.thy ===== *)
theory Spaces_Refs
  imports Spaces_Inv
begin

text \<open>
  References to address spaces are counted exactly: a retained space stays, and the last release destroys it without a
  panic and without touching the mappings of other spaces.
\<close>

section \<open>References\<close>

text \<open>\<open>holders\<close> counts the references of threads and system calls, the handle table and the queue of the reaper hold the rest.\<close>

definition space_refs :: "(addr \<Rightarrow> nat) \<Rightarrow> addr list \<Rightarrow> 'q space_state \<Rightarrow> addr \<Rightarrow> nat" where
  "space_refs holders queued st a = holders a + count_list (map snd (address_spaces st)) a + count_list queued a"

definition space_ok :: "(u64 \<Rightarrow> nat) \<Rightarrow> (addr \<Rightarrow> nat) \<Rightarrow> addr list \<Rightarrow> 'q space_state \<Rightarrow> bool" where
  "space_ok ext holders queued st \<longleftrightarrow>
     mm_inv ext (sp_mm st) \<and> reg_wf (address_spaces st) (next_as_handle st) \<and>
     (\<forall>a as. vm_spaces (sp_vm st) a = Some as \<longrightarrow> a \<noteq> address_space_kernel \<longrightarrow>
        \<not> permanent as \<and> vmoset_lookup_locked (vmoset as) (mm_vmo (sp_mm st)) \<noteq> None \<and>
        as_references as = space_refs holders queued st a \<and> 0 < as_references as) \<and>
     (\<forall>as. vm_spaces (sp_vm st) address_space_kernel = Some as \<longrightarrow> permanent as) \<and>
     (\<forall>a. vm_spaces (sp_vm st) a = None \<longrightarrow> space_refs holders queued st a = 0)"

lemma space_okD:
  assumes "space_ok ext holders queued st"
  shows "mm_inv ext (sp_mm st)" "reg_wf (address_spaces st) (next_as_handle st)"
    "vm_spaces (sp_vm st) a = Some as \<Longrightarrow> a \<noteq> address_space_kernel \<Longrightarrow>
      \<not> permanent as \<and> vmoset_lookup_locked (vmoset as) (mm_vmo (sp_mm st)) \<noteq> None \<and>
      as_references as = space_refs holders queued st a \<and> 0 < as_references as"
    "vm_spaces (sp_vm st) address_space_kernel = Some as \<Longrightarrow> permanent as"
    "vm_spaces (sp_vm st) a = None \<Longrightarrow> space_refs holders queued st a = 0"
    "0 < space_refs holders queued st a \<Longrightarrow> \<exists>as. vm_spaces (sp_vm st) a = Some as"
proof -
  show "mm_inv ext (sp_mm st)" "reg_wf (address_spaces st) (next_as_handle st)"
    "vm_spaces (sp_vm st) a = Some as \<Longrightarrow> a \<noteq> address_space_kernel \<Longrightarrow>
      \<not> permanent as \<and> vmoset_lookup_locked (vmoset as) (mm_vmo (sp_mm st)) \<noteq> None \<and>
      as_references as = space_refs holders queued st a \<and> 0 < as_references as"
    "vm_spaces (sp_vm st) address_space_kernel = Some as \<Longrightarrow> permanent as"
    and z: "vm_spaces (sp_vm st) a = None \<Longrightarrow> space_refs holders queued st a = 0"
    using assms unfolding space_ok_def by blast+
  show "\<exists>as. vm_spaces (sp_vm st) a = Some as" if "0 < space_refs holders queued st a" using z that by (cases "vm_spaces (sp_vm st) a") auto
qed

text \<open>Changing the count of a space changes no mapping.\<close>

lemma vm_inv_count:
  assumes inv: "vm_inv ext vm" and a: "vm_spaces vm a = Some as"
    and vm': "vm' = set_space a (as\<lparr>as_references := n\<rparr>) (vm_phys vm) vm"
  shows "vm_inv ext vm'" "frame_at b v vm' = frame_at b v vm"
proof -
  note V = vm_invD [OF inv]
  have p: "pml4_phys (as\<lparr>as_references := n\<rparr>) = pml4_phys as" by simp
  note R = roots_set_space [OF a p, of "vm_phys vm", folded vm']
  have sp: "vm_spaces vm' = (vm_spaces vm)(a \<mapsto> as\<lparr>as_references := n\<rparr>)" and ph: "vm_phys vm' = vm_phys vm" by (simp_all add: vm')
  show "frame_at b v vm' = frame_at b v vm" unfolding frame_at_def sp ph using a by simp
  have proj: "\<exists>cs'. vm_spaces vm c = Some cs' \<and> pml4_phys cs' = pml4_phys cs \<and> mappings cs' = mappings cs" if "vm_spaces vm' c = Some cs" for c cs
    using that a unfolding sp by (cases "c = a") auto
  have rec: "records_ok (phys_words (vm_phys vm')) cs" if c: "vm_spaces vm' c = Some cs" "c \<noteq> address_space_kernel" for c cs
  proof -
    obtain cs' where cs': "vm_spaces vm c = Some cs'" "pml4_phys cs' = pml4_phys cs" "mappings cs' = mappings cs" using proj [OF c(1)] by blast
    from V(4) [OF cs'(1) c(2)] show ?thesis unfolding records_ok_def ph cs'(2,3) .
  qed
  have inj: "c = d" if "vm_spaces vm' c = Some cs" "vm_spaces vm' d = Some ds" "pml4_phys cs = pml4_phys ds" for c d cs ds
    using proj [OF that(1)] proj [OF that(2)] that(3) V(3) by metis
  have k: "vm_spaces vm' address_space_kernel \<noteq> None" using V(1) unfolding sp by simp
  have "pt_inv (kroot vm) (roots vm) ext (vm_phys vm')" unfolding ph by (rule V(2))
  then show "vm_inv ext vm'" unfolding vm_inv_def R using k inj rec by iprover
qed

lemma mm_inv_count:
  assumes inv: "mm_inv ext mm" and a: "vm_spaces (mm_vm mm) a = Some as"
  shows "mm_inv ext (mm\<lparr>mm_vm := set_space a (as\<lparr>as_references := n\<rparr>) (vm_phys (mm_vm mm)) (mm_vm mm)\<rparr>)"
proof -
  note M = mm_invD [OF inv] and C = vm_inv_count [OF mm_invD(1) [OF inv] a refl]
  let ?vm = "set_space a (as\<lparr>as_references := n\<rparr>) (vm_phys (mm_vm mm)) (mm_vm mm)"
  have proj: "\<exists>cs'. vm_spaces (mm_vm mm) c = Some cs' \<and> vmoset cs' = vmoset cs \<and> pml4_phys cs' = pml4_phys cs" if "vm_spaces ?vm c = Some cs" for c cs
    using that a by (cases "c = a") auto
  have "mm_inv ext (mm\<lparr>mm_vm := ?vm, mm_vmo := mm_vmo mm\<rparr>)"
  proof (rule mm_invI [OF C(1) M(2)])
    fix b bs es assume b: "vm_spaces ?vm b = Some bs" and es: "vmoset_lookup_locked (vmoset bs) (mm_vmo mm) = Some es"
    obtain bs' where "vm_spaces (mm_vm mm) b = Some bs'" "vmoset bs' = vmoset bs" using proj [OF b] by blast
    with M(3) [OF this(1)] es have "set_ok b es (mm_vm mm)" by simp
    moreover have "frame_at b v ?vm = frame_at b v (mm_vm mm)" for v by (rule C(2))
    ultimately show "set_ok b es ?vm" by (elim set_ok_mapped) (simp add: entry_mapped_def)
  next
    show "b = c" if "vm_spaces ?vm b = Some bs" "vm_spaces ?vm c = Some cs" "vmoset bs = vmoset cs" for b c bs cs
      using proj [OF that(1)] proj [OF that(2)] that(3) M(4) by metis
    show "vmoset bs < next_vmoset_handle (mm_vmo mm)" if "vm_spaces ?vm b = Some bs" for b bs using proj [OF that] M(5) by metis
    show "phys_page_is_managed (pml4_phys bs) (vm_phys ?vm)" if "vm_spaces ?vm b = Some bs" "b \<noteq> address_space_kernel" for b bs
      using proj [OF that(1)] M(6) that(2) by (metis set_space_simps(1))
  qed
  then show ?thesis by simp
qed

section \<open>References taken and dropped\<close>

lemma space_refs_simps [simp]:
  "space_refs holders queued (put_vm vm st) a = space_refs holders queued st a"
  "space_refs holders queued (st\<lparr>sp_mm := mm\<rparr>) a = space_refs holders queued st a"
  "space_refs holders queued (st\<lparr>sp_caps := c\<rparr>) a = space_refs holders queued st a"
  by (simp_all add: space_refs_def put_vm_def)

lemma put_vm_simps [simp]:
  "sp_vm (put_vm vm st) = vm" "sp_mm (put_vm vm st) = (sp_mm st)\<lparr>mm_vm := vm\<rparr>" "mm_vmo (sp_mm (put_vm vm st)) = mm_vmo (sp_mm st)"
  "address_spaces (put_vm vm st) = address_spaces st" "next_as_handle (put_vm vm st) = next_as_handle st"
  "reaper_queue (put_vm vm st) = reaper_queue st" "sp_caps (put_vm vm st) = sp_caps st"
  by (simp_all add: put_vm_def sp_vm_def)

abbreviation one_more :: "addr \<Rightarrow> (addr \<Rightarrow> nat) \<Rightarrow> addr \<Rightarrow> nat" where
  "one_more a holders \<equiv> (\<lambda>b. holders b + of_bool (b = a))"

lemma refs_more: "space_refs (one_more a holders) queued st b = space_refs holders queued st b + of_bool (b = a)"
  by (simp add: space_refs_def)

text \<open>A space gets a count that fits the references after the operation.\<close>

lemma space_ok_count:
  assumes ok: "space_ok ext holders queued st" and a: "vm_spaces (sp_vm st) a = Some as" "\<not> permanent as" and n: "0 < n"
    and new: "\<And>b. b \<noteq> a \<Longrightarrow> space_refs holders' queued' st' b = space_refs holders queued st b" "space_refs holders' queued' st' a = n"
    and st': "sp_mm st' = sp_mm (put_vm (set_space a (as\<lparr>as_references := n\<rparr>) (vm_phys (sp_vm st)) (sp_vm st)) st)"
      "reg_wf (address_spaces st') (next_as_handle st')"
  shows "space_ok ext holders' queued' st'"
proof -
  note S = space_okD [OF ok]
  have ak: "a \<noteq> address_space_kernel" using S(4) a by auto
  let ?vm = "set_space a (as\<lparr>as_references := n\<rparr>) (vm_phys (sp_vm st)) (sp_vm st)"
  have vm: "sp_vm st' = ?vm" using st'(1) by (simp add: sp_vm_def)
  have "mm_inv ext (sp_mm st')" using mm_inv_count [OF S(1), of a as n] a(1) st'(1) by (simp add: sp_vm_def)
  moreover have "\<not> permanent bs \<and> vmoset_lookup_locked (vmoset bs) (mm_vmo (sp_mm st')) \<noteq> None \<and>
      as_references bs = space_refs holders' queued' st' b \<and> 0 < as_references bs"
    if b: "vm_spaces (sp_vm st') b = Some bs" "b \<noteq> address_space_kernel" for b bs
  proof (cases "b = a")
    case True
    then have "bs = as\<lparr>as_references := n\<rparr>" using b(1) by (simp add: vm)
    then show ?thesis using S(3) [OF a(1) ak] n new(2) a(2) True st'(1) by simp
  next
    case False
    then have "vm_spaces (sp_vm st) b = Some bs" using b(1) by (simp add: vm)
    from S(3) [OF this b(2)] new(1) [OF False] st'(1) show ?thesis by simp
  qed
  moreover have "permanent bs" if "vm_spaces (sp_vm st') address_space_kernel = Some bs" for bs
    using that S(4) ak by (simp add: vm)
  moreover have "space_refs holders' queued' st' b = 0" if "vm_spaces (sp_vm st') b = None" for b
  proof -
    have b: "b \<noteq> a" "vm_spaces (sp_vm st) b = None" using that by (auto simp: vm split: if_splits)
    from new(1) [OF b(1)] S(5) [OF b(2)] show ?thesis by simp
  qed
  ultimately show ?thesis unfolding space_ok_def using st'(2) by blast
qed

lemma retain_ok:
  assumes ok: "space_ok ext holders queued st" and a: "vm_spaces (sp_vm st) a = Some as"
  shows "\<exists>st'. address_space_retain (Some a) st = Some st' \<and> space_ok ext (if a = address_space_kernel then holders else one_more a holders) queued st' \<and>
    address_spaces st' = address_spaces st \<and> next_as_handle st' = next_as_handle st \<and> reaper_queue st' = reaper_queue st \<and>
    (\<forall>b v. frame_at b v (sp_vm st') = frame_at b v (sp_vm st)) \<and> dom (vm_spaces (sp_vm st')) = dom (vm_spaces (sp_vm st))"
proof (cases "a = address_space_kernel")
  case True
  then have "permanent as" using space_okD(4) [OF ok] a by simp
  then show ?thesis using True a ok by (simp add: address_space_retain_def)
next
  case False
  note S = space_okD [OF ok]
  note A = S(3) [OF a False]
  let ?st = "put_vm (set_space a (as\<lparr>as_references := as_references as + 1\<rparr>) (vm_phys (sp_vm st)) (sp_vm st)) st"
  have run: "address_space_retain (Some a) st = Some ?st" using a A by (simp add: address_space_retain_def)
  have "space_ok ext (one_more a holders) queued ?st"
    by (rule space_ok_count [OF ok a, where n = "as_references as + 1"]) (use A S(2) in \<open>simp_all add: refs_more\<close>)
  moreover have "frame_at b v (sp_vm ?st) = frame_at b v (sp_vm st)" for b v
    using vm_inv_count(2) [OF mm_invD(1) [OF S(1), folded sp_vm_def] a refl] by simp
  moreover have "dom (vm_spaces (sp_vm ?st)) = dom (vm_spaces (sp_vm st))" using a by auto
  ultimately show ?thesis using run False by simp
qed

lemma release_ok:
  assumes ok: "space_ok ext (one_more a holders) queued st" and ak: "a \<noteq> address_space_kernel"
  shows "\<exists>st' ext'. address_space_release (Some a) st = Some st' \<and> (\<forall>q. ext q \<le> ext' q) \<and> space_ok ext' holders queued st' \<and>
    address_spaces st' = address_spaces st \<and> next_as_handle st' = next_as_handle st \<and> reaper_queue st' = reaper_queue st \<and>
    (\<forall>b v. b \<noteq> a \<or> space_refs holders queued st a \<noteq> 0 \<longrightarrow> v < USER_CANONICAL_TOP \<longrightarrow> frame_at b v (sp_vm st') = frame_at b v (sp_vm st)) \<and>
    dom (vm_spaces (sp_vm st')) \<subseteq> dom (vm_spaces (sp_vm st)) \<and>
    (vm_spaces (sp_vm st') a = None \<longleftrightarrow> space_refs holders queued st a = 0)"
proof -
  note S = space_okD [OF ok]
  obtain as where a: "vm_spaces (sp_vm st) a = Some as" using S(6) [of a] by (auto simp: refs_more)
  note A = S(3) [OF a ak]
  have n: "as_references as = space_refs holders queued st a + 1" using A by (simp add: refs_more)
  let ?r = "space_refs holders queued st a"
  let ?st1 = "put_vm (set_space a (as\<lparr>as_references := ?r\<rparr>) (vm_phys (sp_vm st)) (sp_vm st)) st"
  have run: "address_space_release (Some a) st = (if ?r = 0 then address_space_destroy a ?st1 else Some ?st1)"
    using a conjunct1 [OF A] n by (simp add: address_space_release_def)
  have fr: "frame_at b v (sp_vm ?st1) = frame_at b v (sp_vm st)" for b v
    using vm_inv_count(2) [OF mm_invD(1) [OF S(1), folded sp_vm_def] a refl] by simp
  show ?thesis
  proof (cases "?r = 0")
    case False
    have "space_ok ext holders queued ?st1"
      by (rule space_ok_count [OF ok a, where n = ?r]) (use A S(2) False in \<open>simp_all add: refs_more\<close>)
    then show ?thesis using run False fr a by (intro exI [of _ ?st1] exI [of _ ext]) auto
  next
    case True
    let ?as = "as\<lparr>as_references := ?r\<rparr>"
    have mm1: "mm_inv ext (sp_mm ?st1)" using mm_inv_count [OF S(1), of a as ?r] a by (simp add: sp_vm_def)
    have a1: "vm_spaces (sp_vm ?st1) a = Some ?as" "\<not> permanent ?as" "vmoset_lookup_locked (vmoset ?as) (mm_vmo (sp_mm ?st1)) \<noteq> None"
      using A by simp_all
    obtain st' ext' where D: "address_space_destroy a ?st1 = Some st'" "\<forall>q. ext q \<le> ext' q" "mm_inv ext' (sp_mm st')" "vm_spaces (sp_vm st') a = None"
      "\<forall>b. b \<noteq> a \<longrightarrow> map_option (\<lambda>x. x\<lparr>mappings := []\<rparr>) (vm_spaces (sp_vm st') b) = map_option (\<lambda>x. x\<lparr>mappings := []\<rparr>) (vm_spaces (sp_vm ?st1) b)"
      "\<forall>b v. b \<noteq> a \<longrightarrow> v < USER_CANONICAL_TOP \<longrightarrow> frame_at b v (sp_vm st') = frame_at b v (sp_vm ?st1)"
      "\<forall>h. h \<noteq> vmoset ?as \<longrightarrow> vmoset_lookup_locked h (mm_vmo (sp_mm st')) = vmoset_lookup_locked h (mm_vmo (sp_mm ?st1))"
      "address_spaces st' = address_spaces ?st1" "next_as_handle st' = next_as_handle ?st1" "reaper_queue st' = reaper_queue ?st1"
      using destroy_clean [OF mm1 a1(1) ak a1(2,3)] by blast
    have refs: "space_refs holders queued st' b = space_refs holders queued st b" for b using D(8) by (simp add: space_refs_def)
    have other: "\<exists>bs0. vm_spaces (sp_vm st) b = Some bs0 \<and> bs0\<lparr>mappings := []\<rparr> = bs\<lparr>mappings := []\<rparr> \<and> b \<noteq> a" if "vm_spaces (sp_vm st') b = Some bs" for b bs
    proof -
      have b: "b \<noteq> a" using that D(4) by auto
      from D(5) [rule_format, OF this] that b have "map_option (\<lambda>x. x\<lparr>mappings := []\<rparr>) (vm_spaces (sp_vm st) b) = Some (bs\<lparr>mappings := []\<rparr>)" by simp
      then obtain bs0 where "vm_spaces (sp_vm st) b = Some bs0" "bs0\<lparr>mappings := []\<rparr> = bs\<lparr>mappings := []\<rparr>" unfolding map_option_eq_Some by iprover
      with b show ?thesis by blast
    qed
    have good: "\<not> permanent bs \<and> vmoset_lookup_locked (vmoset bs) (mm_vmo (sp_mm st')) \<noteq> None \<and>
      as_references bs = space_refs holders queued st' b \<and> 0 < as_references bs"
      if b: "vm_spaces (sp_vm st') b = Some bs" "b \<noteq> address_space_kernel" for b bs
    proof -
      obtain bs0 where b0: "vm_spaces (sp_vm st) b = Some bs0" "bs0\<lparr>mappings := []\<rparr> = bs\<lparr>mappings := []\<rparr>" "b \<noteq> a" using other [OF b(1)] by blast
      have e: "permanent bs0 = permanent bs" "vmoset bs0 = vmoset bs" "as_references bs0 = as_references bs"
        using arg_cong [OF b0(2), of permanent] arg_cong [OF b0(2), of vmoset] arg_cong [OF b0(2), of as_references] by simp_all
      have "vmoset bs \<noteq> vmoset as" using mm_invD(4) [OF S(1) b0(1) [unfolded sp_vm_def] a [unfolded sp_vm_def]] b0(3) e by auto
      then have "vmoset_lookup_locked (vmoset bs) (mm_vmo (sp_mm st')) = vmoset_lookup_locked (vmoset bs) (mm_vmo (sp_mm st))" using D(7) by simp
      with S(3) [OF b0(1) b(2)] b0(3) show ?thesis by (simp add: e refs refs_more)
    qed
    have kern: "permanent bs" if bs: "vm_spaces (sp_vm st') address_space_kernel = Some bs" for bs
    proof -
      obtain bs0 where b0: "vm_spaces (sp_vm st) address_space_kernel = Some bs0" "bs0\<lparr>mappings := []\<rparr> = bs\<lparr>mappings := []\<rparr>" using other [OF bs] by blast
      have "permanent bs0 = permanent bs" using arg_cong [OF b0(2), of permanent] by simp
      with S(4) [OF b0(1)] show ?thesis by simp
    qed
    have dead: "space_refs holders queued st' b = 0" if "vm_spaces (sp_vm st') b = None" for b
    proof (cases "b = a")
      case False
      then have "vm_spaces (sp_vm st) b = None" using D(5) [rule_format, OF False] that by (simp add: eq_commute [of None])
      from S(5) [OF this] False show ?thesis by (simp add: refs refs_more)
    qed (use True refs in simp)
    have "reg_wf (address_spaces st') (next_as_handle st')" using S(2) D(8,9) by simp
    then have "space_ok ext' holders queued st'" unfolding space_ok_def using D(3) good kern dead by blast
    moreover have "dom (vm_spaces (sp_vm st')) \<subseteq> dom (vm_spaces (sp_vm st))" using other by blast
    ultimately show ?thesis using run True D(1,2,4,6,8-10) fr by (intro exI [of _ st'] exI [of _ ext']) simp
  qed
qed

end
