(* ===== verification/Spaces_Create.thy ===== *)
theory Spaces_Create
  imports Spaces_Refs
begin

text \<open>
  Creation of address spaces: a new space shares the kernel's half of the address space, maps nothing of its own and has one
  reference; a failed creation gives everything back.
\<close>

section \<open>Creation\<close>

text \<open>A page allocated and given back leaves the page tables as they were.\<close>

lemma vm_alloc_put:
  assumes inv: "vm_inv ext vm" and al: "phys_alloc_page (vm_phys vm) = Some (p, s1)"
  shows "\<exists>s2. phys_page_put p s1 = Some s2 \<and> vm_inv ext (vm\<lparr>vm_phys := s2\<rparr>) \<and> all_same vm (vm\<lparr>vm_phys := s2\<rparr>) \<and>
    same_managed (vm_phys vm) s2"
proof -
  let ?s = "vm_phys vm"
  note V = vm_invD(2) [OF inv] and I = pt_invD [OF vm_invD(2) [OF inv]] and A = alloc_at [OF pt_invD(1) [OF vm_invD(2) [OF inv]] al]
  have m1: "phys_page_is_managed p s1" using A(1,4) by (simp add: same_managed_def)
  have r1: "refs_at s1 p = 1" using A(6) [OF A(1)] A(2) by simp
  from put_at [OF A(3) m1] r1 obtain s2 where
    P: "phys_page_put p s1 = Some s2" "phys_wf s2" "same_managed s1 s2" "phys_words s2 = (phys_words ?s)(p := (\<lambda>_. 0))"
      "\<And>q. phys_page_is_managed q s1 \<Longrightarrow> refs_at s2 q + of_bool (q = p) = refs_at s1 q" using A(5) by auto
  have sm: "same_managed ?s s2" by (rule same_managed_trans [OF A(4) P(3)])
  let ?t = "s2\<lparr>phys_words := phys_words ?s\<rparr>"
  have t: "pt_inv (kroot vm) (roots vm) ext ?t"
  proof (rule pt_inv_same_words [OF V])
    show "phys_wf ?t" "phys_words ?t = phys_words ?s" "same_managed ?s ?t" using P(2) sm by (simp_all add: same_managed_def)
    show "refs_at ?t q = ext q + tree_refs (kroot vm) (roots vm) (phys_words ?s) q" if q: "phys_page_is_managed q ?s" for q
    proof -
      have "phys_page_is_managed q s1" using q A(4) by (simp add: same_managed_def)
      from P(5) [OF this] A(6) [OF q] I(8) [OF q] show ?thesis by simp
    qed
  qed
  have q: "tab (phys_words ?s) r \<pi> \<noteq> Some p" if "(r, \<pi>) \<in> slots (kroot vm) (roots vm) 3" for r \<pi>
    by (rule unreferenced_not_in_tree [OF V A(1,2)]) (rule slots_mono [OF that], simp)
  have "pt_inv (kroot vm) (roots vm) ext (?t\<lparr>phys_words := (phys_words ?t)(p := (\<lambda>_. 0))\<rparr>)"
    by (rule pt_inv_other_page [OF t]) (use q in simp)
  moreover have "?t\<lparr>phys_words := (phys_words ?t)(p := (\<lambda>_. 0))\<rparr> = s2" using P(4) by simp
  ultimately have s2: "pt_inv (kroot vm) (roots vm) ext s2" by simp
  have "leaves_same (kroot vm) (roots vm) (phys_words ?s) (phys_words s2)"
    using trees_same_other_page [of "kroot vm" "roots vm" "phys_words ?s" p, OF q] unfolding P(4) trees_same_def leaves_same_def by blast
  from vm_update_same [OF inv s2 this] P(1) sm show ?thesis by blast
qed

lemma vmoset_new_facts:
  assumes wf: "reg_wf (vmosets v) (next_vmoset_handle v)" and n: "next_vmoset_handle v \<noteq> UINT64_MAX"
    and v': "v' = v\<lparr>vmosets := HASH_ADD (next_vmoset_handle v) [] (vmosets v), next_vmoset_handle := next_vmoset_handle v + 1\<rparr>"
  shows "reg_wf (vmosets v') (next_vmoset_handle v')" "vmoset_lookup_locked (next_vmoset_handle v) v' = Some []"
    "h \<noteq> next_vmoset_handle v \<Longrightarrow> vmoset_lookup_locked h v' = vmoset_lookup_locked h v"
    "next_vmoset_handle v < next_vmoset_handle v'" "h < next_vmoset_handle v \<Longrightarrow> h < next_vmoset_handle v'"
    "reg_wf (vmosets (snd (kvmoset_destroy (next_vmoset_handle v) v'))) (next_vmoset_handle (snd (kvmoset_destroy (next_vmoset_handle v) v')))"
    "vmoset_lookup_locked h (snd (kvmoset_destroy (next_vmoset_handle v) v')) = vmoset_lookup_locked h v"
    "next_vmoset_handle (snd (kvmoset_destroy (next_vmoset_handle v) v')) = next_vmoset_handle v'"
proof -
  let ?n = "next_vmoset_handle v"
  show w: "reg_wf (vmosets v') (next_vmoset_handle v')" using reg_wf_ADD [OF wf n] by (simp add: v')
  show l: "vmoset_lookup_locked ?n v' = Some []" and o: "h \<noteq> ?n \<Longrightarrow> vmoset_lookup_locked h v' = vmoset_lookup_locked h v" for h
    using reg_wf_fresh [OF wf] by (simp_all add: v' vmoset_lookup_locked_def HASH_FIND_ADD)
  show lt: "?n < next_vmoset_handle v'" using n less_succ_word [of ?n ?n] by (simp add: v')
  show "h < ?n \<Longrightarrow> h < next_vmoset_handle v'" using lt by simp
  have d: "snd (kvmoset_destroy ?n v') = v'\<lparr>vmosets := HASH_DEL ?n (vmosets v')\<rparr>" using n l by (simp add: kvmoset_destroy_def)
  show "reg_wf (vmosets (snd (kvmoset_destroy ?n v'))) (next_vmoset_handle (snd (kvmoset_destroy ?n v')))"
    "next_vmoset_handle (snd (kvmoset_destroy ?n v')) = next_vmoset_handle v'"
    unfolding d using reg_wf_DEL [OF w] by simp_all
  have "HASH_FIND ?n (vmosets v) = None" using wf by (rule reg_wf_fresh)
  then show "vmoset_lookup_locked h (snd (kvmoset_destroy ?n v')) = vmoset_lookup_locked h v"
    unfolding d using o [of h] by (cases "h = ?n") (simp_all add: vmoset_lookup_locked_def HASH_FIND_DEL)
qed

text \<open>Steps that change neither a mapping nor a set in use.\<close>

lemma mm_inv_same:
  assumes inv: "mm_inv ext mm" and vm: "vm_inv ext vm'" "all_same (mm_vm mm) vm'" "vm_spaces vm' = vm_spaces (mm_vm mm)" "same_managed (vm_phys (mm_vm mm)) (vm_phys vm')"
    and v: "reg_wf (vmosets v') (next_vmoset_handle v')" "\<And>h. vmoset_lookup_locked h v' = vmoset_lookup_locked h (mm_vmo mm)"
      "next_vmoset_handle (mm_vmo mm) \<le> next_vmoset_handle v'"
  shows "mm_inv ext (mm\<lparr>mm_vm := vm', mm_vmo := v'\<rparr>)"
proof (rule mm_invI [OF vm(1) v(1)])
  note M = mm_invD [OF inv]
  show "set_ok a es vm'" if "vm_spaces vm' a = Some as" "vmoset_lookup_locked (vmoset as) v' = Some es" for a as es
    using M(3) [of a as es] that set_ok_mapped [of a es "mm_vm mm" vm'] vm(2) unfolding vm(3) v(2) by (simp add: entry_mapped_def all_same_def)
  show "a = b" if "vm_spaces vm' a = Some as" "vm_spaces vm' b = Some bs" "vmoset as = vmoset bs" for a b as bs
    using M(4) that unfolding vm(3) by blast
  show "vmoset as < next_vmoset_handle v'" if "vm_spaces vm' a = Some as" for a as
    using M(5) that v(3) unfolding vm(3) by (meson less_le_trans)
  show "phys_page_is_managed (pml4_phys as) (vm_phys vm')" if "vm_spaces vm' a = Some as" "a \<noteq> address_space_kernel" for a as
    using M(6) that vm(4) unfolding vm(3) same_managed_def by blast
qed

lemma space_ok_same:
  assumes ok: "space_ok ext holders queued st" and mm: "mm_inv ext (sp_mm st')" and same: "same_objects (sp_vm st) (sp_vm st')"
    and sets: "\<And>a as. vm_spaces (sp_vm st) a = Some as \<Longrightarrow> vmoset_lookup_locked (vmoset as) (mm_vmo (sp_mm st)) \<noteq> None \<Longrightarrow>
      vmoset_lookup_locked (vmoset as) (mm_vmo (sp_mm st')) \<noteq> None"
    and reg: "reg_wf (address_spaces st') (next_as_handle st')" and refs: "\<And>a. a \<noteq> address_space_kernel \<Longrightarrow> space_refs holders' queued' st' a = space_refs holders queued st a"
  shows "space_ok ext holders' queued' st'"
proof -
  note S = space_okD [OF ok]
  have old: "\<exists>bs0. vm_spaces (sp_vm st) b = Some bs0 \<and> permanent bs0 = permanent bs \<and> vmoset bs0 = vmoset bs \<and> as_references bs0 = as_references bs"
    if b: "vm_spaces (sp_vm st') b = Some bs" for b bs
  proof -
    from same b have "map_option (\<lambda>x. x\<lparr>mappings := []\<rparr>) (vm_spaces (sp_vm st) b) = Some (bs\<lparr>mappings := []\<rparr>)"
      unfolding same_objects_def by (metis option.simps(9))
    then obtain bs0 where b0: "vm_spaces (sp_vm st) b = Some bs0" "bs0\<lparr>mappings := []\<rparr> = bs\<lparr>mappings := []\<rparr>" unfolding map_option_eq_Some by iprover
    have "permanent bs0 = permanent bs" "vmoset bs0 = vmoset bs" "as_references bs0 = as_references bs"
      using arg_cong [OF b0(2), of permanent] arg_cong [OF b0(2), of vmoset] arg_cong [OF b0(2), of as_references] by simp_all
    with b0(1) show ?thesis by iprover
  qed
  have "\<not> permanent bs \<and> vmoset_lookup_locked (vmoset bs) (mm_vmo (sp_mm st')) \<noteq> None \<and>
      as_references bs = space_refs holders' queued' st' b \<and> 0 < as_references bs"
    if b: "vm_spaces (sp_vm st') b = Some bs" "b \<noteq> address_space_kernel" for b bs
  proof -
    obtain bs0 where b0: "vm_spaces (sp_vm st) b = Some bs0" "permanent bs0 = permanent bs" "vmoset bs0 = vmoset bs" "as_references bs0 = as_references bs"
      using old [OF b(1)] by iprover
    from S(3) [OF b0(1) b(2)] sets [OF b0(1)] show ?thesis unfolding b0(2-4) refs [OF b(2)] by iprover
  qed
  moreover have "permanent bs" if "vm_spaces (sp_vm st') address_space_kernel = Some bs" for bs
    using old [OF that] S(4) by auto
  moreover have "space_refs holders' queued' st' b = 0" if "vm_spaces (sp_vm st') b = None" for b
  proof -
    have "vm_spaces (sp_vm st) b = None" using same that unfolding same_objects_def by (metis option.map_disc_iff)
    moreover from this have "b \<noteq> address_space_kernel" using vm_invD(1) [OF mm_invD(1) [OF S(1)]] by (auto simp: sp_vm_def)
    ultimately show ?thesis using S(5) refs by simp
  qed
  ultimately show ?thesis unfolding space_ok_def using mm reg by iprover
qed

lemma mm_add_space:
  assumes inv: "mm_inv ext mm" and al: "phys_alloc_page (vm_phys (mm_vm mm)) = Some (p, s1)" and a: "vm_spaces (mm_vm mm) a = None"
    and n: "next_vmoset_handle (mm_vmo mm) \<noteq> UINT64_MAX"
    and v': "v' = (mm_vmo mm)\<lparr>vmosets := HASH_ADD (next_vmoset_handle (mm_vmo mm)) [] (vmosets (mm_vmo mm)), next_vmoset_handle := next_vmoset_handle (mm_vmo mm) + 1\<rparr>"
    and as: "pml4_phys as = p" "mappings as = []" "vmoset as = next_vmoset_handle (mm_vmo mm)"
    and vm': "vm' = set_space a as (s1\<lparr>phys_words := fresh_root (kroot (mm_vm mm)) p (phys_words (vm_phys (mm_vm mm)))\<rparr>) (mm_vm mm)"
  shows "mm_inv ext (mm\<lparr>mm_vm := vm', mm_vmo := v'\<rparr>)" "b \<noteq> a \<Longrightarrow> frame_at b v vm' = frame_at b v (mm_vm mm)"
    "v < USER_CANONICAL_TOP \<Longrightarrow> frame_at a v vm' = None"
proof -
  note M = mm_invD [OF inv] and N = vmoset_new_facts [OF mm_invD(2) [OF inv] n v']
    and W = vm_add_space [OF mm_invD(1) [OF inv] al a as(1,2), folded vm']
  show "b \<noteq> a \<Longrightarrow> frame_at b v vm' = frame_at b v (mm_vm mm)" for b v by (rule W(2))
  show "v < USER_CANONICAL_TOP \<Longrightarrow> frame_at a v vm' = None" by (rule W(3))
  have sp: "vm_spaces vm' b = Some bs \<longleftrightarrow> (if b = a then bs = as else vm_spaces (mm_vm mm) b = Some bs)" for b bs by (auto simp: vm')
  have ne: "vmoset bs \<noteq> vmoset as" if "vm_spaces (mm_vm mm) b = Some bs" for b bs using M(5) [OF that] as(3) by auto
  show "mm_inv ext (mm\<lparr>mm_vm := vm', mm_vmo := v'\<rparr>)"
  proof (rule mm_invI [OF W(1) N(1)])
    fix b bs es assume b: "vm_spaces vm' b = Some bs" and es: "vmoset_lookup_locked (vmoset bs) v' = Some es"
    show "set_ok b es vm'"
    proof (cases "b = a")
      case True
      then have "es = []" using b es N(2) as(3) by (simp add: sp)
      then show ?thesis by (simp add: set_ok_def)
    next
      case False
      then have b0: "vm_spaces (mm_vm mm) b = Some bs" using b by (simp add: sp)
      then have "vmoset_lookup_locked (vmoset bs) (mm_vmo mm) = Some es" using es N(3) ne [OF b0] as(3) by simp
      from set_ok_mapped [OF M(3) [OF b0 this], of vm'] show ?thesis unfolding entry_mapped_def W(2) [OF False] by blast
    qed
  next
    show "b = c" if "vm_spaces vm' b = Some bs" "vm_spaces vm' c = Some cs" "vmoset bs = vmoset cs" for b c bs cs
      using that M(4) [of b bs c cs] ne [of b bs] ne [of c cs] unfolding sp by (auto split: if_splits)
    show "vmoset bs < next_vmoset_handle v'" if "vm_spaces vm' b = Some bs" for b bs
      using that M(5) [of b bs] N(4) N(5) [of "vmoset bs"] as(3) unfolding sp by (cases "b = a") simp_all
    show "phys_page_is_managed (pml4_phys bs) (vm_phys vm')" if "vm_spaces vm' b = Some bs" "b \<noteq> address_space_kernel" for b bs
      using that M(6) [of b bs] W(4,5) as(1) unfolding sp same_managed_def by (cases "b = a") simp_all
  qed
qed

lemma create_failed:
  assumes ok: "space_ok ext holders queued st" and n: "next_vmoset_handle (mm_vmo (sp_mm st)) \<noteq> UINT64_MAX"
    and v': "v' = (mm_vmo (sp_mm st))\<lparr>vmosets := HASH_ADD (next_vmoset_handle (mm_vmo (sp_mm st))) [] (vmosets (mm_vmo (sp_mm st))),
      next_vmoset_handle := next_vmoset_handle (mm_vmo (sp_mm st)) + 1\<rparr>"
    and vm: "vm_inv ext vm'" "all_same (sp_vm st) vm'" "vm_spaces vm' = vm_spaces (sp_vm st)" "same_managed (vm_phys (sp_vm st)) (vm_phys vm')"
    and st': "sp_mm st' = (sp_mm st)\<lparr>mm_vm := vm', mm_vmo := snd (kvmoset_destroy (next_vmoset_handle (mm_vmo (sp_mm st))) v')\<rparr>"
      "address_spaces st' = address_spaces st" "next_as_handle st' = next_as_handle st"
  shows "space_ok ext holders queued st'"
proof -
  note S = space_okD [OF ok] and N = vmoset_new_facts [OF mm_invD(2) [OF space_okD(1) [OF ok]] n v']
  have "mm_inv ext (sp_mm st')" unfolding st'(1)
    by (rule mm_inv_same [OF S(1) vm(1) vm(2) [unfolded sp_vm_def] vm(3) [unfolded sp_vm_def] vm(4) [unfolded sp_vm_def] N(6,7)])
      (use N(4) in \<open>simp add: N(8)\<close>)
  moreover have "same_objects (sp_vm st) (sp_vm st')" using vm(3) by (simp add: same_objects_def sp_vm_def st')
  ultimately show ?thesis by (rule space_ok_same [OF ok]) (use N(7) S(2) in \<open>simp_all add: st' space_refs_def\<close>)
qed

lemma space_ok_add:
  assumes ok: "space_ok ext holders queued st" and a: "vm_spaces (sp_vm st) a = None" and mm: "mm_inv ext (sp_mm st')"
    and sp: "vm_spaces (sp_vm st') = (vm_spaces (sp_vm st))(a \<mapsto> as)" and as: "\<not> permanent as" "as_references as = 1"
    and sets: "vmoset_lookup_locked (vmoset as) (mm_vmo (sp_mm st')) \<noteq> None"
      "\<And>b bs. vm_spaces (sp_vm st) b = Some bs \<Longrightarrow> vmoset_lookup_locked (vmoset bs) (mm_vmo (sp_mm st')) = vmoset_lookup_locked (vmoset bs) (mm_vmo (sp_mm st))"
    and st': "address_spaces st' = address_spaces st" "next_as_handle st' = next_as_handle st"
  shows "space_ok ext (one_more a holders) queued st'"
proof -
  note S = space_okD [OF ok]
  have refs: "space_refs (one_more a holders) queued st' b = space_refs holders queued st b + of_bool (b = a)" for b
    by (simp add: space_refs_def st')
  have ak: "a \<noteq> address_space_kernel" using a vm_invD(1) [OF mm_invD(1) [OF S(1)]] by (auto simp: sp_vm_def)
  have "\<not> permanent bs \<and> vmoset_lookup_locked (vmoset bs) (mm_vmo (sp_mm st')) \<noteq> None \<and>
      as_references bs = space_refs (one_more a holders) queued st' b \<and> 0 < as_references bs"
    if b: "vm_spaces (sp_vm st') b = Some bs" "b \<noteq> address_space_kernel" for b bs
  proof (cases "b = a")
    case True
    then show ?thesis using b(1) as sets(1) S(5) [OF a] unfolding sp refs by simp
  next
    case False
    then have b0: "vm_spaces (sp_vm st) b = Some bs" using b(1) by (simp add: sp)
    from S(3) [OF b0 b(2)] sets(2) [OF b0] False show ?thesis unfolding refs by simp
  qed
  moreover have "permanent bs" if "vm_spaces (sp_vm st') address_space_kernel = Some bs" for bs
    using that S(4) ak by (simp add: sp)
  moreover have "space_refs (one_more a holders) queued st' b = 0" if b: "vm_spaces (sp_vm st') b = None" for b
  proof -
    have "b \<noteq> a" "vm_spaces (sp_vm st) b = None" using b unfolding sp by (simp_all split: if_splits)
    then show ?thesis using S(5) unfolding refs by simp
  qed
  moreover have "reg_wf (address_spaces st') (next_as_handle st')" using S(2) st' by simp
  ultimately show ?thesis unfolding space_ok_def using mm by iprover
qed

lemma space_create_ok:
  assumes ok: "space_ok ext holders queued st" and n: "next_vmoset_handle (mm_vmo (sp_mm st)) \<noteq> UINT64_MAX"
    and fresh: "\<And>a. mem = Some a \<Longrightarrow> vm_spaces (sp_vm st) a = None"
  shows "\<exists>r st'. address_space_create flags cok vok mem st = Some (r, st') \<and>
    space_ok ext (case r of None \<Rightarrow> holders | Some a \<Rightarrow> one_more a holders) queued st' \<and>
    address_spaces st' = address_spaces st \<and> next_as_handle st' = next_as_handle st \<and> reaper_queue st' = reaper_queue st \<and>
    unat (next_vmoset_handle (mm_vmo (sp_mm st'))) \<le> Suc (unat (next_vmoset_handle (mm_vmo (sp_mm st)))) \<and>
    (\<forall>b v. mem \<noteq> Some b \<longrightarrow> frame_at b v (sp_vm st') = frame_at b v (sp_vm st)) \<and>
    (\<forall>b. mem \<noteq> Some b \<longrightarrow> vm_spaces (sp_vm st') b = vm_spaces (sp_vm st) b) \<and>
    (\<forall>a. r = Some a \<longrightarrow> mem = Some a \<and> (\<forall>v < USER_CANONICAL_TOP. frame_at a v (sp_vm st') = None))"
proof -
  note S = space_okD [OF ok] and M = mm_invD [OF space_okD(1) [OF ok]]
  let ?h = "next_vmoset_handle (mm_vmo (sp_mm st))"
  define v' where "v' = (mm_vmo (sp_mm st))\<lparr>vmosets := HASH_ADD ?h [] (vmosets (mm_vmo (sp_mm st))), next_vmoset_handle := ?h + 1\<rparr>"
  note N = vmoset_new_facts [OF M(2) n v'_def]
  have inc: "unat (?h + 1) \<le> Suc (unat ?h)" by (rule unat_succ_le)
  have nx: "next_vmoset_handle v' = ?h + 1" by (simp add: v'_def)
  let ?caps = "capset_insert [] (sp_caps st)" and ?ch = "next_capset_handle (sp_caps st)"
  have kc: "kcapset_new True (sp_caps st) = (Some ?ch, ?caps)" by (simp add: kcapset_new_def)
  let ?undo = "st\<lparr>sp_caps := snd (kcapset_destroy ?ch ?caps), sp_mm := (sp_mm st)\<lparr>mm_vmo := snd (kvmoset_destroy ?h v')\<rparr>\<rparr>"
  have kv: "kvmoset_new True (mm_vmo (sp_mm st)) = (Some ?h, v')" by (simp add: kvmoset_new_def v'_def Let_def)
  have failed: ?thesis if run: "address_space_create flags cok vok mem st = Some (None, put_vm vm' ?undo)"
    and vm: "vm_inv ext vm'" "all_same (sp_vm st) vm'" "vm_spaces vm' = vm_spaces (sp_vm st)" "same_managed (vm_phys (sp_vm st)) (vm_phys vm')" for vm'
  proof -
    have "space_ok ext holders queued (put_vm vm' ?undo)"
      by (rule create_failed [OF ok n v'_def vm]) simp_all
    then show ?thesis using run vm(2,3) N(8) inc nx by (intro exI [of _ None] exI [of _ "put_vm vm' ?undo"]) (simp add: all_same_def)
  qed
  consider (nocap) "\<not> cok" | (novmo) "cok" "\<not> vok" | (nopage) "cok" "vok" "phys_alloc_page (vm_phys (sp_vm st)) = None"
    | (nomem) p s1 where "cok" "vok" "phys_alloc_page (vm_phys (sp_vm st)) = Some (p, s1)" "mem = None"
    | (created) p s1 a where "cok" "vok" "phys_alloc_page (vm_phys (sp_vm st)) = Some (p, s1)" "mem = Some a" by (cases cok; cases vok; cases "phys_alloc_page (vm_phys (sp_vm st))"; cases mem) auto
  then show ?thesis
  proof cases
    case nocap
    then have "address_space_create flags cok vok mem st = Some (None, st)" by (simp add: address_space_create_def kcapset_new_def)
    then show ?thesis using ok by (intro exI [of _ None] exI [of _ st]) simp
  next
    case novmo
    let ?st = "st\<lparr>sp_caps := snd (kcapset_destroy ?ch ?caps)\<rparr>"
    have "address_space_create flags cok vok mem st = Some (None, ?st)" using novmo kc by (simp add: address_space_create_def kvmoset_new_def)
    moreover have "space_ok ext holders queued ?st"
      by (rule space_ok_same [OF ok]) (use S(1,2) in \<open>simp_all add: same_objects_def sp_vm_def\<close>)
    ultimately show ?thesis by (intro exI [of _ None] exI [of _ ?st]) (simp add: sp_vm_def)
  next
    case nopage
    have "address_space_create flags cok vok mem st = Some (None, ?undo)" using nopage kc kv by (simp add: address_space_create_def)
    then have "address_space_create flags cok vok mem st = Some (None, put_vm (sp_vm st) ?undo)" by (simp add: put_vm_def sp_vm_def)
    then show ?thesis by (rule failed) (use M(1) in \<open>simp_all add: sp_vm_def all_same_def\<close>)
  next
    case nomem
    obtain s2 where P: "phys_page_put p s1 = Some s2" "vm_inv ext ((sp_vm st)\<lparr>vm_phys := s2\<rparr>)" "all_same (sp_vm st) ((sp_vm st)\<lparr>vm_phys := s2\<rparr>)"
      "same_managed (vm_phys (sp_vm st)) s2" using vm_alloc_put [OF M(1) [folded sp_vm_def] nomem(3)] by blast
    have "address_space_create flags cok vok mem st = Some (None, put_vm ((sp_vm st)\<lparr>vm_phys := s2\<rparr>) ?undo)"
      using nomem kc kv P(1) by (simp add: address_space_create_def sp_vm_def)
    then show ?thesis by (rule failed) (use P in simp_all)
  next
    case created
    obtain ks where ks: "vm_spaces (sp_vm st) address_space_kernel = Some ks" using vm_invD(1) [OF M(1)] by (auto simp: sp_vm_def)
    note A = alloc_at [OF pt_invD(1) [OF vm_invD(2) [OF M(1)]] created(3) [unfolded sp_vm_def]]
    have km: "pml4_phys ks = kroot (sp_vm st)" using ks by (simp add: kroot_def)
    have mk: "masked (pml4_phys ks)" using vm_invD(6) [OF M(1) [folded sp_vm_def] ks] .
    have mp: "masked p" by (rule managed_masked [OF vm_invD(2) [OF M(1)] A(1)])
    define as where "as = \<lparr>pml4_phys = p, mappings = [], as_flags = flags, as_references = 1, live_threads = 0,
      permanent = False, capset = ?ch, vmoset = ?h\<rparr>"
    define vm' where "vm' = set_space a as (s1\<lparr>phys_words := fresh_root (kroot (sp_vm st)) p (phys_words (vm_phys (sp_vm st)))\<rparr>) (sp_vm st)"
    let ?st = "st\<lparr>sp_caps := ?caps, sp_mm := (sp_mm st)\<lparr>mm_vm := vm', mm_vmo := v'\<rparr>\<rparr>"
    have run: "address_space_create flags cok vok mem st = Some (Some a, ?st)"
      using created kc kv ks mk mp A(5) unfolding address_space_create_def Let_def vm'_def as_def fresh_root_def km [symmetric]
      by (simp add: page_table_def sp_vm_def cong: if_cong)
    have as: "pml4_phys as = p" "mappings as = []" "vmoset as = ?h" by (simp_all add: as_def)
    note al = created(3) [unfolded sp_vm_def] and fr = fresh [OF created(4)]
    note W = mm_add_space [OF S(1) al fr [unfolded sp_vm_def] n v'_def as vm'_def [unfolded sp_vm_def]]
    have "space_ok ext (one_more a holders) queued ?st"
    proof (rule space_ok_add [OF ok fr])
      show "mm_inv ext (sp_mm ?st)" using W(1) by simp
      show "vm_spaces (sp_vm ?st) = (vm_spaces (sp_vm st))(a \<mapsto> as)" by (simp add: sp_vm_def vm'_def)
      show "\<not> permanent as" "as_references as = 1" by (simp_all add: as_def)
      show "vmoset_lookup_locked (vmoset as) (mm_vmo (sp_mm ?st)) \<noteq> None" using N(2) as(3) by simp
      show "vmoset_lookup_locked (vmoset bs) (mm_vmo (sp_mm ?st)) = vmoset_lookup_locked (vmoset bs) (mm_vmo (sp_mm st))"
        if "vm_spaces (sp_vm st) b = Some bs" for b bs
        using M(5) [OF that [unfolded sp_vm_def]] N(3) [of "vmoset bs"] by auto
    qed simp_all
    then show ?thesis using run W(2,3) inc nx created(4) by (intro exI [of _ "Some a"] exI [of _ ?st]) (auto simp: sp_vm_def vm'_def)
  qed
qed

end
