(* ===== verification/Spaces_History.thy ===== *)
theory Spaces_History
  imports Spaces_Create
begin

text \<open>
  Histories of address spaces: creation, references, handles, the reaper and the mappings of VMOs, in any order.  No call
  panics, the counts stay exact, and a space in use is never destroyed.
\<close>

section \<open>The queue of the reaper\<close>

record 'q fifo_ops =
  fifo_push :: "'q \<Rightarrow> addr \<Rightarrow> 'q option"
  fifo_pop :: "'q \<Rightarrow> (addr \<times> 'q) option"
  fifo_full :: "'q \<Rightarrow> bool"
  fifo_capacity :: "'q \<Rightarrow> nat"
  fifo_resize :: "'q \<Rightarrow> nat \<Rightarrow> 'q option"

text \<open>What kas.c relies on of libfifo: \<open>items\<close> lists the queued elements, oldest first.\<close>

definition fifo_laws :: "'q fifo_ops \<Rightarrow> ('q \<Rightarrow> addr list) \<Rightarrow> bool" where
  "fifo_laws F items \<longleftrightarrow>
     (\<forall>q. fifo_full F q \<longleftrightarrow> fifo_capacity F q \<le> length (items q)) \<and>
     (\<forall>q x. if fifo_full F q then fifo_push F q x = None
        else \<exists>q'. fifo_push F q x = Some q' \<and> items q' = items q @ [x] \<and> fifo_capacity F q' = fifo_capacity F q) \<and>
     (\<forall>q. case items q of [] \<Rightarrow> fifo_pop F q = None
        | x # xs \<Rightarrow> \<exists>q'. fifo_pop F q = Some (x, q') \<and> items q' = xs \<and> fifo_capacity F q' = fifo_capacity F q) \<and>
     (\<forall>q n. length (items q) \<le> n \<longrightarrow> (\<exists>q'. fifo_resize F q n = Some q' \<and> items q' = items q \<and> fifo_capacity F q' = n))"

lemma fifo_lawsD:
  assumes "fifo_laws F items"
  shows "fifo_full F q \<longleftrightarrow> fifo_capacity F q \<le> length (items q)" "fifo_full F q \<Longrightarrow> fifo_push F q x = None"
    "\<not> fifo_full F q \<Longrightarrow> \<exists>q'. fifo_push F q x = Some q' \<and> items q' = items q @ [x] \<and> fifo_capacity F q' = fifo_capacity F q"
    "items q = [] \<Longrightarrow> fifo_pop F q = None"
    "items q = x # xs \<Longrightarrow> \<exists>q'. fifo_pop F q = Some (x, q') \<and> items q' = xs \<and> fifo_capacity F q' = fifo_capacity F q"
    "length (items q) \<le> n \<Longrightarrow> \<exists>q'. fifo_resize F q n = Some q' \<and> items q' = items q \<and> fifo_capacity F q' = n"
proof -
  note L = assms [unfolded fifo_laws_def]
  note P = L [THEN conjunct2, THEN conjunct1, THEN spec, THEN spec, of q x] and
    O = L [THEN conjunct2, THEN conjunct2, THEN conjunct1, THEN spec, of q] and
    Z = L [THEN conjunct2, THEN conjunct2, THEN conjunct2, THEN spec, THEN spec, of q n]
  show "fifo_full F q \<longleftrightarrow> fifo_capacity F q \<le> length (items q)" using L by (rule conjE) (erule spec)
  show "fifo_push F q x = None" if "fifo_full F q" using P that by simp
  show "\<exists>q'. fifo_push F q x = Some q' \<and> items q' = items q @ [x] \<and> fifo_capacity F q' = fifo_capacity F q" if "\<not> fifo_full F q" using P that by simp
  show "fifo_pop F q = None" if "items q = []" using O that by simp
  show "\<exists>q'. fifo_pop F q = Some (x, q') \<and> items q' = xs \<and> fifo_capacity F q' = fifo_capacity F q" if "items q = x # xs" using O that by simp
  show "\<exists>q'. fifo_resize F q n = Some q' \<and> items q' = items q \<and> fifo_capacity F q' = n" if "length (items q) \<le> n" using Z that by iprover
qed

lemma enqueue_ok:
  assumes F: "fifo_laws F items" and room: "int (fifo_capacity F q) \<le> SIZE_MAX - int KAS_REAPER_CAPACITY"
    and fits: "length (items q) \<le> fifo_capacity F q"
  shows "\<exists>q'. kas_reaper_enqueue (fifo_push F) (fifo_full F) (fifo_capacity F) (fifo_resize F) True a q = Some q' \<and>
    items q' = items q @ [a] \<and> length (items q') \<le> fifo_capacity F q'"
proof (cases "fifo_full F q")
  case False
  then have "length (items q) < fifo_capacity F q" using fifo_lawsD(1) [OF F] by simp
  moreover obtain q' where "fifo_push F q a = Some q'" "items q' = items q @ [a]" "fifo_capacity F q' = fifo_capacity F q"
    using fifo_lawsD(3) [OF F False] by iprover
  ultimately show ?thesis by (simp add: kas_reaper_enqueue_def)
next
  case True
  let ?n = "fifo_capacity F q + KAS_REAPER_CAPACITY"
  obtain q1 where q1: "fifo_resize F q ?n = Some q1" "items q1 = items q" "fifo_capacity F q1 = ?n"
    using fifo_lawsD(6) [OF F, of q ?n] fits by auto
  then have nf: "\<not> fifo_full F q1" using fifo_lawsD(1) [OF F, of q1] fits by simp
  obtain q' where q': "fifo_push F q1 a = Some q'" "items q' = items q1 @ [a]" "fifo_capacity F q' = fifo_capacity F q1"
    using fifo_lawsD(3) [OF F nf] by iprover
  have "kas_reaper_enqueue (fifo_push F) (fifo_full F) (fifo_capacity F) (fifo_resize F) True a q = Some q'"
    using True room q1(1) q'(1) fifo_lawsD(2) [OF F True] by (simp add: kas_reaper_enqueue_def)
  moreover have "length (items q') \<le> fifo_capacity F q'" using q' q1 fits by simp
  ultimately show ?thesis using q'(2) q1(2) by simp
qed

section \<open>Handles\<close>

abbreviation one_less :: "addr \<Rightarrow> (addr \<Rightarrow> nat) \<Rightarrow> addr \<Rightarrow> nat" where
  "one_less a holders \<equiv> holders(a := holders a - 1)"

lemma count_DEL:
  assumes "distinct (keys t)" "HASH_FIND h t = Some a"
  shows "count_list (map snd t) b = count_list (map snd (HASH_DEL h t)) b + of_bool (b = a)"
  using assms
proof (induction t)
  case (Cons e t)
  obtain k v where e: "e = (k, v)" by force
  show ?case
  proof (cases "k = h")
    case True
    have "HASH_FIND h t = None" using Cons.prems(1) e True by (auto simp: HASH_FIND_None_iff)
    then have "HASH_DEL h t = t" by (simp add: HASH_DEL_def HASH_FIND_None_iff filter_id_conv) (metis image_eqI)
    moreover have "v = a" using Cons.prems(2) e True by (simp add: HASH_FIND_def)
    ultimately show ?thesis using e True by (simp add: HASH_DEL_def)
  next
    case False
    have "HASH_FIND h t = Some a" using Cons.prems(2) e False by (simp add: HASH_FIND_def)
    from Cons.IH [OF _ this] Cons.prems(1) e False show ?thesis by (simp add: HASH_DEL_def)
  qed
qed (simp add: HASH_FIND_def)

lemma kernel_live: "space_ok ext holders queued st \<Longrightarrow> vm_spaces (sp_vm st) address_space_kernel \<noteq> None"
  using vm_invD(1) [OF mm_invD(1) [OF space_okD(1)]] by (simp add: sp_vm_def)

text \<open>What a call that changes no mapping leaves as it was.\<close>

definition maps_same :: "'q space_state \<Rightarrow> 'q space_state \<Rightarrow> bool" where
  "maps_same st st' \<longleftrightarrow> all_same (sp_vm st) (sp_vm st') \<and> dom (vm_spaces (sp_vm st')) = dom (vm_spaces (sp_vm st))"

lemma register_ok:
  assumes ok: "space_ok ext holders queued st" and a: "vm_spaces (sp_vm st) a = Some as"
  shows "\<exists>r st'. kas_register (Some a) mok st = Some (r, st') \<and> space_ok ext holders queued st' \<and> maps_same st st' \<and>
    reaper_queue st' = reaper_queue st \<and> (\<forall>h. r = Some h \<longrightarrow> kas_find_locked h st' = Some a)"
proof (cases "mok \<and> next_as_handle st \<noteq> AS_INVALID_HANDLE")
  case False
  then have "kas_register (Some a) mok st = Some (None, st)" by (auto simp: kas_register_def)
  then show ?thesis using ok by (simp add: maps_same_def all_same_def)
next
  case True
  obtain st1 where R: "address_space_retain (Some a) st = Some st1"
    "space_ok ext (if a = address_space_kernel then holders else one_more a holders) queued st1"
    "address_spaces st1 = address_spaces st" "next_as_handle st1 = next_as_handle st" "reaper_queue st1 = reaper_queue st"
    "\<forall>b v. frame_at b v (sp_vm st1) = frame_at b v (sp_vm st)" "dom (vm_spaces (sp_vm st1)) = dom (vm_spaces (sp_vm st))"
    using retain_ok [OF ok a] by blast
  let ?h = "next_as_handle st"
  let ?st = "st1\<lparr>address_spaces := HASH_ADD ?h a (address_spaces st), next_as_handle := ?h + 1\<rparr>"
  have run: "kas_register (Some a) mok st = Some (Some ?h, ?st)" using True R(1,3,4) by (simp add: kas_register_def)
  note S = space_okD [OF R(2)]
  have reg: "reg_wf (HASH_ADD ?h a (address_spaces st)) (?h + 1)" using reg_wf_ADD [OF S(2)] True by (simp add: R)
  have "space_ok ext holders queued ?st"
  proof (rule space_ok_same [OF R(2)])
    show "mm_inv ext (sp_mm ?st)" using S(1) by simp
    show "same_objects (sp_vm st1) (sp_vm ?st)" by (simp add: same_objects_def sp_vm_def)
    show "reg_wf (address_spaces ?st) (next_as_handle ?st)" using reg by simp
    show "space_refs holders queued ?st b = space_refs (if a = address_space_kernel then holders else one_more a holders) queued st1 b"
      if "b \<noteq> address_space_kernel" for b using that by (simp add: space_refs_def R(3) HASH_ADD_def)
  qed simp
  moreover have "HASH_FIND ?h (address_spaces st) = None" using reg_wf_fresh [OF S(2)] by (simp add: R)
  then have "kas_find_locked ?h ?st = Some a" by (simp add: kas_find_locked_def HASH_FIND_ADD)
  moreover have "maps_same st ?st" using R(6,7) by (simp add: maps_same_def all_same_def sp_vm_def)
  ultimately show ?thesis using run R(5) by simp
qed

lemma acquire_ok:
  assumes ok: "space_ok ext holders queued st"
  shows "\<exists>r st'. kas_acquire h st = Some (r, st') \<and> maps_same st st' \<and> reaper_queue st' = reaper_queue st \<and>
    space_ok ext (case r of None \<Rightarrow> holders | Some a \<Rightarrow> if a = address_space_kernel then holders else one_more a holders) queued st' \<and>
    (\<forall>a. r = Some a \<longrightarrow> kas_find_locked h st = Some a)"
proof (cases "h = AS_INVALID_HANDLE \<or> kas_find_locked h st = None")
  case True
  then have "kas_acquire h st = Some (None, st)" by (auto simp: kas_acquire_def)
  then show ?thesis using ok by (intro exI [of _ None] exI [of _ st]) (simp add: maps_same_def all_same_def)
next
  case False
  then obtain a where f: "kas_find_locked h st = Some a" by blast
  have "a \<in> set (map snd (address_spaces st))" using HASH_FIND_Some_in [OF f [unfolded kas_find_locked_def]] by force
  then have "0 < space_refs holders queued st a" by (simp add: space_refs_def count_list_0_iff flip: neq0_conv)
  then obtain as where a: "vm_spaces (sp_vm st) a = Some as" using space_okD(6) [OF ok] by blast
  obtain st1 where R: "address_space_retain (Some a) st = Some st1"
    "space_ok ext (if a = address_space_kernel then holders else one_more a holders) queued st1" "reaper_queue st1 = reaper_queue st"
    "\<forall>b v. frame_at b v (sp_vm st1) = frame_at b v (sp_vm st)" "dom (vm_spaces (sp_vm st1)) = dom (vm_spaces (sp_vm st))"
    using retain_ok [OF ok a] by blast
  have "kas_acquire h st = Some (Some a, st1)" using False f R(1) by (simp add: kas_acquire_def)
  then show ?thesis using R f by (intro exI [of _ "Some a"] exI [of _ st1]) (simp add: maps_same_def all_same_def)
qed

lemma unregister_ok:
  assumes ok: "space_ok ext holders (items (reaper_queue st)) st" and F: "fifo_laws F items"
    and room: "int (fifo_capacity F (reaper_queue st)) \<le> SIZE_MAX - int KAS_REAPER_CAPACITY"
    and fits: "length (items (reaper_queue st)) \<le> fifo_capacity F (reaper_queue st)"
  shows "\<exists>r st'. kas_unregister (fifo_push F) (fifo_full F) (fifo_capacity F) (fifo_resize F) True h st = Some (r, st') \<and>
    space_ok ext holders (items (reaper_queue st')) st' \<and> maps_same st st' \<and>
    length (items (reaper_queue st')) \<le> fifo_capacity F (reaper_queue st') \<and> (r = 0 \<longrightarrow> kas_find_locked h st' = None)"
proof (cases "h = AS_INVALID_HANDLE \<or> kas_find_locked h st = None")
  case True
  then have "kas_unregister (fifo_push F) (fifo_full F) (fifo_capacity F) (fifo_resize F) True h st = Some (-1, st)" by (auto simp: kas_unregister_def)
  then show ?thesis using ok fits by (simp add: maps_same_def all_same_def)
next
  case False
  then obtain a where f: "kas_find_locked h st = Some a" by blast
  obtain q where q: "kas_reaper_enqueue (fifo_push F) (fifo_full F) (fifo_capacity F) (fifo_resize F) True a (reaper_queue st) = Some q"
    "items q = items (reaper_queue st) @ [a]" "length (items q) \<le> fifo_capacity F q" using enqueue_ok [OF F room fits] by blast
  let ?st = "st\<lparr>address_spaces := HASH_DEL h (address_spaces st), reaper_queue := q\<rparr>"
  have run: "kas_unregister (fifo_push F) (fifo_full F) (fifo_capacity F) (fifo_resize F) True h st = Some (0, ?st)"
    using False f q(1) by (simp add: kas_unregister_def)
  note S = space_okD [OF ok]
  have "space_ok ext holders (items q) ?st"
  proof (rule space_ok_same [OF ok])
    show "mm_inv ext (sp_mm ?st)" using S(1) by simp
    show "same_objects (sp_vm st) (sp_vm ?st)" by (simp add: same_objects_def sp_vm_def)
    show "reg_wf (address_spaces ?st) (next_as_handle ?st)" using reg_wf_DEL [OF S(2)] by simp
    show "space_refs holders (items q) ?st b = space_refs holders (items (reaper_queue st)) st b" for b
      using count_DEL [OF reg_wf_distinct [OF S(2)] f [unfolded kas_find_locked_def], of b] by (simp add: space_refs_def q(2) eq_commute [of b])
  qed simp
  then show ?thesis using run q(3) by (simp add: maps_same_def all_same_def sp_vm_def kas_find_locked_def HASH_FIND_DEL)
qed

text \<open>Dropping a reference: the caller's own, or the one a dead handle left in the queue.\<close>

definition drops :: "'q space_state \<Rightarrow> 'q space_state \<Rightarrow> bool" where
  \<comment> \<open>spaces disappear, and those that stay keep their mappings\<close>
  "drops st st' \<longleftrightarrow> dom (vm_spaces (sp_vm st')) \<subseteq> dom (vm_spaces (sp_vm st)) \<and>
     (\<forall>b v. vm_spaces (sp_vm st') b \<noteq> None \<longrightarrow> v < USER_CANONICAL_TOP \<longrightarrow> frame_at b v (sp_vm st') = frame_at b v (sp_vm st))"

lemma maps_same_drops: "maps_same st st' \<Longrightarrow> drops st st'"
  by (simp add: maps_same_def drops_def all_same_def)

lemma release_kernel:
  assumes "space_ok ext holders queued st"
  shows "address_space_release (Some address_space_kernel) st = Some st"
proof -
  obtain as where a: "vm_spaces (sp_vm st) address_space_kernel = Some as" using kernel_live [OF assms] by blast
  with space_okD(4) [OF assms this] show ?thesis by (simp add: address_space_release_def)
qed

lemma drop_ok:
  assumes ok: "space_ok ext holders queued st" and refs: "\<And>b. b \<noteq> address_space_kernel \<Longrightarrow> holders b + count_list queued b = holders' b + count_list queued' b + of_bool (b = a)"
  shows "\<exists>ext' st'. address_space_release (Some a) st = Some st' \<and> (\<forall>q. ext q \<le> ext' q) \<and> space_ok ext' holders' queued' st' \<and>
    drops st st' \<and> reaper_queue st' = reaper_queue st"
proof -
  note S = space_okD [OF ok]
  let ?h = "if a = address_space_kernel then holders' else one_more a holders'"
  have ok': "space_ok ext ?h queued' st"
    by (rule space_ok_same [OF ok]) (use S(1,2) refs in \<open>auto simp: same_objects_def space_refs_def\<close>)
  show ?thesis
  proof (cases "a = address_space_kernel")
    case True
    then show ?thesis using release_kernel [OF ok] ok' by (intro exI [of _ ext] exI [of _ st]) (simp add: drops_def)
  next
    case False
    with ok' have ok1: "space_ok ext (one_more a holders') queued' st" by simp
    obtain st' ext' where R: "address_space_release (Some a) st = Some st'" "\<forall>q. ext q \<le> ext' q" "space_ok ext' holders' queued' st'"
      "reaper_queue st' = reaper_queue st"
      "\<forall>b v. b \<noteq> a \<or> space_refs holders' queued' st a \<noteq> 0 \<longrightarrow> v < USER_CANONICAL_TOP \<longrightarrow> frame_at b v (sp_vm st') = frame_at b v (sp_vm st)"
      "dom (vm_spaces (sp_vm st')) \<subseteq> dom (vm_spaces (sp_vm st))"
      "vm_spaces (sp_vm st') a = None \<longleftrightarrow> space_refs holders' queued' st a = 0"
      by (insert release_ok [OF ok1 False]) (elim exE conjE, rule that)
    have "frame_at b v (sp_vm st') = frame_at b v (sp_vm st)" if "vm_spaces (sp_vm st') b \<noteq> None" "v < USER_CANONICAL_TOP" for b v
      using R(5) [rule_format, of b v] that R(7) by (cases "b = a") simp_all
    then have "drops st st'" unfolding drops_def using R(6) by iprover
    with R(1-4) show ?thesis by iprover
  qed
qed

lemma reap_ok:
  assumes ok: "space_ok ext holders (items (reaper_queue st)) st" and F: "fifo_laws F items"
    and fits: "length (items (reaper_queue st)) \<le> fifo_capacity F (reaper_queue st)"
  shows "\<exists>ext' st'. kas_reaper_step (fifo_pop F) st = Some st' \<and> (\<forall>q. ext q \<le> ext' q) \<and> space_ok ext' holders (items (reaper_queue st')) st' \<and>
    drops st st' \<and> length (items (reaper_queue st')) \<le> fifo_capacity F (reaper_queue st')"
proof (cases "items (reaper_queue st)")
  case Nil
  then show ?thesis using fifo_lawsD(4) [OF F Nil] ok fits by (intro exI [of _ ext] exI [of _ st]) (simp add: kas_reaper_step_def drops_def)
next
  case (Cons a xs)
  obtain q where q: "fifo_pop F (reaper_queue st) = Some (a, q)" "items q = xs" "fifo_capacity F q = fifo_capacity F (reaper_queue st)"
    using fifo_lawsD(5) [OF F Cons] by iprover
  let ?st = "st\<lparr>reaper_queue := q\<rparr>"
  note S = space_okD [OF ok]
  have "space_ok ext holders (items (reaper_queue st)) ?st"
    by (rule space_ok_same [OF ok]) (use S(1,2) in \<open>simp_all add: same_objects_def sp_vm_def space_refs_def\<close>)
  then have "\<exists>ext' st'. address_space_release (Some a) ?st = Some st' \<and> (\<forall>q. ext q \<le> ext' q) \<and> space_ok ext' holders xs st' \<and>
    drops ?st st' \<and> reaper_queue st' = reaper_queue ?st" by (rule drop_ok) (simp add: Cons eq_commute [of a])
  then show ?thesis using q fits Cons by (auto simp: kas_reaper_step_def drops_def sp_vm_def)
qed

section \<open>Mappings of VMOs\<close>

lemma set_updated: "\<exists>y. vmoset_lookup_locked h v = Some y \<Longrightarrow> vmoset_lookup_locked h (set_update k f v) \<noteq> None"
  by (auto simp: set_update_lookup)

lemma vmo_ok:
  assumes ok: "space_ok ext holders queued st" and mm: "mm_inv ext mm'" "same_objects (sp_vm st) (mm_vm mm')"
    and v: "mm_vmo mm' = mm_vmo (sp_mm st) \<or> (\<exists>h f. mm_vmo mm' = set_update h f (mm_vmo (sp_mm st)))"
  shows "space_ok ext holders queued (st\<lparr>sp_mm := mm'\<rparr>)"
proof (rule space_ok_same [OF ok])
  show "mm_inv ext (sp_mm (st\<lparr>sp_mm := mm'\<rparr>))" "same_objects (sp_vm st) (sp_vm (st\<lparr>sp_mm := mm'\<rparr>))" using mm by (simp_all add: sp_vm_def)
  show "vmoset_lookup_locked (vmoset as) (mm_vmo (sp_mm (st\<lparr>sp_mm := mm'\<rparr>))) \<noteq> None"
    if "vmoset_lookup_locked (vmoset as) (mm_vmo (sp_mm st)) \<noteq> None" for as using v that set_updated by auto
qed (use space_okD(2) [OF ok] in simp_all)

lemma backed_mono: "backed held h offset len mm \<Longrightarrow> (\<And>p. held p \<le> ext p) \<Longrightarrow> backed ext h offset len mm"
  unfolding backed_def holds_pages_def by (meson less_le_trans)

section \<open>Histories\<close>

datatype space_op =
    CreateSpace u32 bool bool "addr option"
  | RetainSpace addr
  | ReleaseSpace addr
  | RegisterSpace addr bool
  | AcquireSpace u64
  | UnregisterSpace u64
  | ReapSpace
  | MapVmo u64 addr u64 u64 u64 u64 "bool list" bool
  | UnmapVmo u64 addr u64 u64
  | UnmapVmoAt u64 addr u64
  | ProtectVmo u64 addr u64 u64 u64

abbreviation in_use :: "(addr \<Rightarrow> nat) \<Rightarrow> addr \<Rightarrow> bool" where
  "in_use holders a \<equiv> a = address_space_kernel \<or> 0 < holders a"

text \<open>
  What the callers in the kernel keep to: a space is named by an own reference, memory from kmalloc is not in use, and a VMO
  is mapped while its pages are held.  A call that would not keep to it is left out.
\<close>

fun space_may :: "'q fifo_ops \<Rightarrow> (u64 \<Rightarrow> nat) \<Rightarrow> space_op \<Rightarrow> (addr \<Rightarrow> nat) \<Rightarrow> 'q space_state \<Rightarrow> bool" where
  "space_may F held (CreateSpace fl cok vok mem) holders st \<longleftrightarrow>
     (case mem of None \<Rightarrow> True | Some a \<Rightarrow> vm_spaces (sp_vm st) a = None) \<and> next_vmoset_handle (mm_vmo (sp_mm st)) \<noteq> UINT64_MAX"
| "space_may F held (RetainSpace a) holders st \<longleftrightarrow> in_use holders a"
| "space_may F held (ReleaseSpace a) holders st \<longleftrightarrow> in_use holders a"
| "space_may F held (RegisterSpace a mok) holders st \<longleftrightarrow> in_use holders a"
| "space_may F held (AcquireSpace h) holders st \<longleftrightarrow> True"
| "space_may F held (UnregisterSpace h) holders st \<longleftrightarrow> int (fifo_capacity F (reaper_queue st)) \<le> SIZE_MAX - int KAS_REAPER_CAPACITY"
| "space_may F held ReapSpace holders st \<longleftrightarrow> True"
| "space_may F held (MapVmo h a va off len rts oks mok) holders st \<longleftrightarrow> in_use holders a \<and> backed held h off len (sp_mm st) \<and>
     (case kvmo_get h (mm_vmo (sp_mm st)) of None \<Rightarrow> True | Some vmo \<Rightarrow> kpmem_get (v_pmem vmo) (mm_pmem (sp_mm st)) \<noteq> None)"
| "space_may F held (UnmapVmo h a va len) holders st \<longleftrightarrow> in_use holders a"
| "space_may F held (UnmapVmoAt h a va) holders st \<longleftrightarrow> in_use holders a"
| "space_may F held (ProtectVmo h a va len rts) holders st \<longleftrightarrow> in_use holders a"

definition space_taken :: "addr option \<Rightarrow> (addr \<Rightarrow> nat) \<Rightarrow> addr \<Rightarrow> nat" where
  "space_taken ao holders = (case ao of None \<Rightarrow> holders | Some a \<Rightarrow> if a = address_space_kernel then holders else one_more a holders)"

definition on_mm :: "(mm_state \<Rightarrow> (int \<times> mm_state) option) \<Rightarrow> (addr \<Rightarrow> nat) \<Rightarrow> 'q space_state \<Rightarrow> ((addr \<Rightarrow> nat) \<times> 'q space_state) option" where
  "on_mm f holders st = map_option (\<lambda>(r, mm). (holders, st\<lparr>sp_mm := mm\<rparr>)) (f (sp_mm st))"

fun space_call :: "'q fifo_ops \<Rightarrow> space_op \<Rightarrow> (addr \<Rightarrow> nat) \<Rightarrow> 'q space_state \<Rightarrow> ((addr \<Rightarrow> nat) \<times> 'q space_state) option" where
  "space_call F (CreateSpace fl cok vok mem) holders st =
     map_option (\<lambda>(r, st). (space_taken r holders, st)) (address_space_create fl cok vok mem st)"
| "space_call F (RetainSpace a) holders st = map_option (Pair (space_taken (Some a) holders)) (address_space_retain (Some a) st)"
| "space_call F (ReleaseSpace a) holders st = map_option (Pair (one_less a holders)) (address_space_release (Some a) st)"
| "space_call F (RegisterSpace a mok) holders st = map_option (\<lambda>(r, st). (holders, st)) (kas_register (Some a) mok st)"
| "space_call F (AcquireSpace h) holders st = map_option (\<lambda>(r, st). (space_taken r holders, st)) (kas_acquire h st)"
| "space_call F (UnregisterSpace h) holders st =
     map_option (\<lambda>(r, st). (holders, st)) (kas_unregister (fifo_push F) (fifo_full F) (fifo_capacity F) (fifo_resize F) True h st)"
| "space_call F ReapSpace holders st = map_option (Pair holders) (kas_reaper_step (fifo_pop F) st)"
| "space_call F (MapVmo h a va off len rts oks mok) holders st = on_mm (kvmo_map h (Some a) va off len rts oks mok) holders st"
| "space_call F (UnmapVmo h a va len) holders st = on_mm (kvmo_unmap h (Some a) va len) holders st"
| "space_call F (UnmapVmoAt h a va) holders st = on_mm (kvmo_unmap_at h (Some a) va) holders st"
| "space_call F (ProtectVmo h a va len rts) holders st = on_mm (kvmo_protect h (Some a) va len rts) holders st"

fun space_targets :: "space_op \<Rightarrow> addr set" where
  "space_targets (CreateSpace fl cok vok mem) = set_option mem"
| "space_targets (MapVmo h a va off len rts oks mok) = {a}"
| "space_targets (UnmapVmo h a va len) = {a}"
| "space_targets (UnmapVmoAt h a va) = {a}"
| "space_targets op = {}"

fun space_run :: "'q fifo_ops \<Rightarrow> (u64 \<Rightarrow> nat) \<Rightarrow> space_op list \<Rightarrow> (addr \<Rightarrow> nat) \<times> 'q space_state \<Rightarrow> ((addr \<Rightarrow> nat) \<times> 'q space_state) option" where
  "space_run F held [] x = Some x"
| "space_run F held (op # ops) (holders, st) =
     (if space_may F held op holders st then space_call F op holders st else Some (holders, st)) \<bind> space_run F held ops"

text \<open>Spaces that no call of a history targets keep their mappings as long as they live.\<close>

definition keeps_others :: "addr set \<Rightarrow> 'q space_state \<Rightarrow> 'q space_state \<Rightarrow> bool" where
  "keeps_others A st st' \<longleftrightarrow>
     (\<forall>b. b \<notin> A \<longrightarrow> vm_spaces (sp_vm st') b \<noteq> None \<longrightarrow>
        vm_spaces (sp_vm st) b \<noteq> None \<and> (\<forall>v < USER_CANONICAL_TOP. frame_at b v (sp_vm st') = frame_at b v (sp_vm st)))"

lemma keeps_others_trans:
  "keeps_others A st st1 \<Longrightarrow> keeps_others B st1 st2 \<Longrightarrow> keeps_others (A \<union> B) st st2"
  by (simp add: keeps_others_def)

lemma drops_keeps: "drops st st' \<Longrightarrow> keeps_others A st st'"
  unfolding drops_def keeps_others_def by blast

lemma targets_keeps:
  assumes "same_objects (sp_vm st) (sp_vm st')" "users_same A (sp_vm st) (sp_vm st')"
  shows "keeps_others A st st'"
  using assms unfolding keeps_others_def users_same_def same_objects_def by (metis option.map_disc_iff)

section \<open>Every call is safe\<close>

definition space_safe :: "'q fifo_ops \<Rightarrow> ('q \<Rightarrow> addr list) \<Rightarrow> (u64 \<Rightarrow> nat) \<Rightarrow> (addr \<Rightarrow> nat) \<times> 'q space_state \<Rightarrow> bool" where
  "space_safe F items held x \<longleftrightarrow>
     (\<exists>ext. (\<forall>p. held p \<le> ext p) \<and> space_ok ext (fst x) (items (reaper_queue (snd x))) (snd x)) \<and>
     length (items (reaper_queue (snd x))) \<le> fifo_capacity F (reaper_queue (snd x))"

lemma space_safeI:
  assumes "space_ok ext holders (items (reaper_queue st)) st" "\<And>p. held p \<le> ext p"
    "length (items (reaper_queue st)) \<le> fifo_capacity F (reaper_queue st)"
  shows "space_safe F items held (holders, st)"
  using assms unfolding space_safe_def by auto

lemma in_use_live:
  assumes "space_ok ext holders queued st" "in_use holders a"
  obtains as where "vm_spaces (sp_vm st) a = Some as"
proof (cases "a = address_space_kernel")
  case True
  with kernel_live [OF assms(1)] that show ?thesis by blast
next
  case False
  with assms(2) have "0 < space_refs holders queued st a" by (simp add: space_refs_def)
  with space_okD(6) [OF assms(1)] that show ?thesis by blast
qed

lemma on_mm_safe:
  assumes ok: "space_ok ext holders (items (reaper_queue st)) st" and held: "\<And>p. held p \<le> ext p"
    and fits: "length (items (reaper_queue st)) \<le> fifo_capacity F (reaper_queue st)"
    and f: "f (sp_mm st) = Some (r, mm')" "mm_inv ext mm'" "same_objects (mm_vm (sp_mm st)) (mm_vm mm')" "users_same A (mm_vm (sp_mm st)) (mm_vm mm')"
      "mm_vmo mm' = mm_vmo (sp_mm st) \<or> (\<exists>h g. mm_vmo mm' = set_update h g (mm_vmo (sp_mm st)))"
  shows "\<exists>x. on_mm f holders st = Some x \<and> space_safe F items held x \<and> keeps_others A st (snd x)"
proof -
  have "space_ok ext holders (items (reaper_queue st)) (st\<lparr>sp_mm := mm'\<rparr>)"
    by (rule vmo_ok [OF ok f(2) _ f(5)]) (use f(3) in \<open>simp add: sp_vm_def\<close>)
  then have "space_safe F items held (holders, st\<lparr>sp_mm := mm'\<rparr>)" by (intro space_safeI) (use held fits in simp_all)
  moreover have "keeps_others A st (st\<lparr>sp_mm := mm'\<rparr>)" by (rule targets_keeps) (use f(3,4) in \<open>simp_all add: sp_vm_def\<close>)
  ultimately show ?thesis using f(1) by (simp add: on_mm_def)
qed

lemma map_vmo_safe:
  assumes ok: "space_ok ext holders (items (reaper_queue st)) st" and held: "\<And>p. held p \<le> ext p"
    and fits: "length (items (reaper_queue st)) \<le> fifo_capacity F (reaper_queue st)"
    and may: "space_may F held (MapVmo h a va off len rts oks mok) holders st"
  shows "\<exists>x. on_mm (kvmo_map h (Some a) va off len rts oks mok) holders st = Some x \<and> space_safe F items held x \<and> keeps_others {a} st (snd x)"
proof -
  note S = space_okD [OF ok]
  have iu: "in_use holders a" and b: "backed ext h off len (sp_mm st)" using may backed_mono held by auto
  have pm: "\<forall>vmo. kvmo_get h (mm_vmo (sp_mm st)) = Some vmo \<longrightarrow> kpmem_get (v_pmem vmo) (mm_pmem (sp_mm st)) \<noteq> None" using may by auto
  obtain as where a: "vm_spaces (mm_vm (sp_mm st)) a = Some as" using in_use_live [OF ok iu] unfolding sp_vm_def .
  have "\<exists>h' g. set_update (vmoset as) f v = set_update h' g v" for f v by iprover
  with kvmo_map_outcome [OF S(1) a b pm, of va rts oks mok] obtain r mm' P where
    R: "kvmo_map h (Some a) va off len rts oks mok (sp_mm st) = Some (r, mm')" "mm_inv ext mm'" "same_objects (mm_vm (sp_mm st)) (mm_vm mm')"
      "same_outside a P (mm_vm (sp_mm st)) (mm_vm mm')" "mm_vmo mm' = mm_vmo (sp_mm st) \<or> (\<exists>h g. mm_vmo mm' = set_update h g (mm_vmo (sp_mm st)))" by auto
  show ?thesis
    by (rule on_mm_safe [where items = items and F = F and held = held and holders = holders and ext = ext and st = st, OF ok held fits, where r = r and mm' = mm']) (fact R users_same_outside [OF R(4)])+
qed

lemma unmap_vmo_safe:
  assumes ok: "space_ok ext holders (items (reaper_queue st)) st" and held: "\<And>p. held p \<le> ext p"
    and fits: "length (items (reaper_queue st)) \<le> fifo_capacity F (reaper_queue st)" and iu: "in_use holders a"
  shows "\<exists>x. on_mm (kvmo_unmap_exact h (Some a) va len chk) holders st = Some x \<and> space_safe F items held x \<and> keeps_others {a} st (snd x)"
proof -
  note S = space_okD [OF ok]
  obtain as where a: "vm_spaces (mm_vm (sp_mm st)) a = Some as" using in_use_live [OF ok iu] unfolding sp_vm_def .
  from unmap_exact_outcome [OF S(1) a, of h va len chk] obtain r mm' where
    R: "kvmo_unmap_exact h (Some a) va len chk (sp_mm st) = Some (r, mm')" "mm_inv ext mm'" "same_objects (mm_vm (sp_mm st)) (mm_vm mm')"
      "mm' = sp_mm st \<or> (\<exists>P. same_outside a P (mm_vm (sp_mm st)) (mm_vm mm')) \<and> (\<exists>h g. mm_vmo mm' = set_update h g (mm_vmo (sp_mm st)))" by auto
  have "users_same {a} (mm_vm (sp_mm st)) (mm_vm mm')" using R(4) users_same_outside by (auto simp: users_same_def)
  with R show ?thesis
    by (intro on_mm_safe [where items = items and F = F and held = held and holders = holders and ext = ext and st = st, OF ok held fits, where r = r and mm' = mm']) auto
qed

lemma protect_vmo_safe:
  assumes ok: "space_ok ext holders (items (reaper_queue st)) st" and held: "\<And>p. held p \<le> ext p"
    and fits: "length (items (reaper_queue st)) \<le> fifo_capacity F (reaper_queue st)" and iu: "in_use holders a"
  shows "\<exists>x. on_mm (kvmo_protect h (Some a) va len rts) holders st = Some x \<and> space_safe F items held x \<and> keeps_others {} st (snd x)"
proof -
  note S = space_okD [OF ok]
  obtain as where a: "vm_spaces (mm_vm (sp_mm st)) a = Some as" using in_use_live [OF ok iu] unfolding sp_vm_def .
  from kvmo_protect_outcome [OF S(1) a, of h va len rts] obtain r mm' where
    R: "kvmo_protect h (Some a) va len rts (sp_mm st) = Some (r, mm')" "mm_inv ext mm'" "all_same (mm_vm (sp_mm st)) (mm_vm mm')"
      "vm_spaces (mm_vm mm') = vm_spaces (mm_vm (sp_mm st))" "mm_vmo mm' = mm_vmo (sp_mm st) \<or> (\<exists>h g. mm_vmo mm' = set_update h g (mm_vmo (sp_mm st)))" by auto
  have "same_objects (mm_vm (sp_mm st)) (mm_vm mm')" by (simp add: same_objects_def R(4))
  with R users_same_all [OF R(3)] show ?thesis
    by (intro on_mm_safe [where items = items and F = F and held = held and holders = holders and ext = ext and st = st, OF ok held fits, where r = r and mm' = mm']) auto
qed

lemma space_call_safe:
  assumes F: "fifo_laws F items" and safe: "space_safe F items held (holders, st)" and may: "space_may F held op holders st"
  shows "\<exists>x. space_call F op holders st = Some x \<and> space_safe F items held x \<and> keeps_others (space_targets op) st (snd x)"
proof -
  from safe obtain ext where held: "\<And>p. held p \<le> ext p" and ok: "space_ok ext holders (items (reaper_queue st)) st"
    and fits: "length (items (reaper_queue st)) \<le> fifo_capacity F (reaper_queue st)" unfolding space_safe_def by auto
  note S = space_okD [OF ok]
  have goal: ?thesis if "space_call F op holders st = Some (holders', st')" "space_ok ext' holders' (items (reaper_queue st')) st'" "\<And>p. ext p \<le> ext' p"
    "length (items (reaper_queue st')) \<le> fifo_capacity F (reaper_queue st')" "keeps_others (space_targets op) st st'" for holders' st' ext'
    using that space_safeI [where items = items and F = F and held = held, OF that(2) order_trans [OF held that(3)] that(4)] by simp
  show ?thesis
  proof (cases op)
    case (CreateSpace fl cok vok mem)
    with may have "next_vmoset_handle (mm_vmo (sp_mm st)) \<noteq> UINT64_MAX" "\<And>a. mem = Some a \<Longrightarrow> vm_spaces (sp_vm st) a = None" by auto
    from space_create_ok [OF ok this] obtain r st' where R: "address_space_create fl cok vok mem st = Some (r, st')"
      "space_ok ext (case r of None \<Rightarrow> holders | Some a \<Rightarrow> one_more a holders) (items (reaper_queue st)) st'" "reaper_queue st' = reaper_queue st"
      "\<forall>b v. mem \<noteq> Some b \<longrightarrow> frame_at b v (sp_vm st') = frame_at b v (sp_vm st)" "\<forall>a. r = Some a \<longrightarrow> mem = Some a"
      "\<forall>b. mem \<noteq> Some b \<longrightarrow> vm_spaces (sp_vm st') b = vm_spaces (sp_vm st) b" by blast
    have ak: "a \<noteq> address_space_kernel" if "r = Some a" for a
      using that R(5) kernel_live [OF ok] may CreateSpace by auto
    then have t: "space_taken r holders = (case r of None \<Rightarrow> holders | Some a \<Rightarrow> one_more a holders)" by (cases r) (simp_all add: space_taken_def)
    show ?thesis
      by (rule goal [of "space_taken r holders" st' ext]) (use R fits t CreateSpace in \<open>auto simp: keeps_others_def\<close>)
  next
    case (RetainSpace a)
    then obtain as where a: "vm_spaces (sp_vm st) a = Some as" using may in_use_live [OF ok] by auto
    from retain_ok [OF ok a] obtain st' where R: "address_space_retain (Some a) st = Some st'"
      "space_ok ext (space_taken (Some a) holders) (items (reaper_queue st)) st'" "reaper_queue st' = reaper_queue st"
      "\<forall>b v. frame_at b v (sp_vm st') = frame_at b v (sp_vm st)" "dom (vm_spaces (sp_vm st')) = dom (vm_spaces (sp_vm st))"
      unfolding space_taken_def by auto
    have "keeps_others {} st st'" by (rule drops_keeps [OF maps_same_drops]) (use R(4,5) in \<open>simp add: maps_same_def all_same_def\<close>)
    then show ?thesis by (intro goal [of "space_taken (Some a) holders" st' ext]) (use R fits RetainSpace in simp_all)
  next
    case (ReleaseSpace a)
    have "holders b + count_list (items (reaper_queue st)) b = one_less a holders b + count_list (items (reaper_queue st)) b + of_bool (b = a)"
      if "b \<noteq> address_space_kernel" for b using may that ReleaseSpace by auto
    from drop_ok [OF ok this] obtain ext' st' where R: "address_space_release (Some a) st = Some st'" "\<forall>q. ext q \<le> ext' q"
      "space_ok ext' (one_less a holders) (items (reaper_queue st)) st'" "drops st st'" "reaper_queue st' = reaper_queue st" by blast
    show ?thesis by (rule goal [of "one_less a holders" st' ext']) (use R fits drops_keeps [OF R(4)] ReleaseSpace in simp_all)
  next
    case (RegisterSpace a mok)
    then obtain as where a: "vm_spaces (sp_vm st) a = Some as" using may in_use_live [OF ok] by auto
    from register_ok [OF ok a, of mok] obtain r st' where R: "kas_register (Some a) mok st = Some (r, st')"
      "space_ok ext holders (items (reaper_queue st)) st'" "maps_same st st'" "reaper_queue st' = reaper_queue st" by blast
    show ?thesis by (rule goal [of holders st' ext]) (use R fits drops_keeps [OF maps_same_drops [OF R(3)]] RegisterSpace in simp_all)
  next
    case (AcquireSpace h)
    from acquire_ok [OF ok, of h] obtain r st' where R: "kas_acquire h st = Some (r, st')" "maps_same st st'" "reaper_queue st' = reaper_queue st"
      "space_ok ext (space_taken r holders) (items (reaper_queue st)) st'" unfolding space_taken_def by blast
    show ?thesis by (rule goal [of "space_taken r holders" st' ext]) (use R fits drops_keeps [OF maps_same_drops [OF R(2)]] AcquireSpace in simp_all)
  next
    case (UnregisterSpace h)
    with may have room: "int (fifo_capacity F (reaper_queue st)) \<le> SIZE_MAX - int KAS_REAPER_CAPACITY" by simp
    from unregister_ok [OF ok F room fits, of h] obtain r st' where
      R: "kas_unregister (fifo_push F) (fifo_full F) (fifo_capacity F) (fifo_resize F) True h st = Some (r, st')"
        "space_ok ext holders (items (reaper_queue st')) st'" "maps_same st st'" "length (items (reaper_queue st')) \<le> fifo_capacity F (reaper_queue st')" by blast
    show ?thesis by (rule goal [of holders st' ext]) (use R drops_keeps [OF maps_same_drops [OF R(3)]] UnregisterSpace in simp_all)
  next
    case ReapSpace
    from reap_ok [OF ok F fits] obtain ext' st' where R: "kas_reaper_step (fifo_pop F) st = Some st'" "\<forall>q. ext q \<le> ext' q"
      "space_ok ext' holders (items (reaper_queue st')) st'" "drops st st'" "length (items (reaper_queue st')) \<le> fifo_capacity F (reaper_queue st')" by blast
    show ?thesis by (rule goal [of holders st' ext']) (use R drops_keeps [OF R(4)] ReapSpace in simp_all)
  next
    case (MapVmo h a va off len rts oks mok)
    show ?thesis using map_vmo_safe [where items = items and F = F and held = held, OF ok held fits may [unfolded MapVmo]] MapVmo by simp
  next
    case (UnmapVmo h a va len)
    show ?thesis using unmap_vmo_safe [where items = items and F = F and held = held, OF ok held fits, of a h va len True] may UnmapVmo by (simp add: kvmo_unmap_def [abs_def])
  next
    case (UnmapVmoAt h a va)
    show ?thesis using unmap_vmo_safe [where items = items and F = F and held = held, OF ok held fits, of a h va 0 False] may UnmapVmoAt by (simp add: kvmo_unmap_at_def [abs_def])
  next
    case (ProtectVmo h a va len rts)
    show ?thesis using protect_vmo_safe [where items = items and F = F and held = held, OF ok held fits, of a h va len rts] may ProtectVmo by simp
  qed
qed

end
