(* ===== verification/Vhistory.thy ===== *)
theory Vhistory
  imports Vranges
begin

text \<open>
  Histories of virtual memory operations, and the properties of page tables and address spaces.
\<close>

section \<open>Histories\<close>

text \<open>
  The callers of the virtual memory operations as a history.  A caller names a space that exists and maps pages that it
  holds a reference to; \<open>vm_given\<close> takes the reference away that a mapping with ADDRESS_SPACE_MAP_OWNED takes over.
\<close>

datatype vm_op =
  VMap addr u64 u64 u64 bool
  | VUnmap addr u64
  | VMapRange addr u64 u64 u64 u64 "bool list"
  | VUnmapRange addr u64 u64
  | VProtectRange addr u64 u64 u64
  | VKMap u64 u64 u64 bool
  | VKUnmap u64

fun vm_target :: "vm_op \<Rightarrow> addr" where
  "vm_target (VMap a va pa fl ok) = a"
| "vm_target (VUnmap a va) = a"
| "vm_target (VMapRange a va pa len fl oks) = a"
| "vm_target (VUnmapRange a va len) = a"
| "vm_target (VProtectRange a va len fl) = a"
| "vm_target (VKMap va pa fl tr) = address_space_kernel"
| "vm_target (VKUnmap va) = address_space_kernel"

fun vm_call :: "vm_op \<Rightarrow> vm_state \<Rightarrow> (int \<times> vm_state) option" where
  "vm_call (VMap a va pa fl ok) st = address_space_map_page (Some a) va pa fl ok st"
| "vm_call (VUnmap a va) st = address_space_unmap_page (Some a) va st"
| "vm_call (VMapRange a va pa len fl oks) st = address_space_map_range (Some a) va pa len fl oks st"
| "vm_call (VUnmapRange a va len) st = address_space_unmap_range (Some a) va len st"
| "vm_call (VProtectRange a va len fl) st = address_space_protect_range (Some a) va len fl st"
| "vm_call (VKMap va pa fl tr) st = kernel_map_page va pa fl tr st"
| "vm_call (VKUnmap va) st = kernel_unmap_page va st"

definition holds_page :: "(u64 \<Rightarrow> nat) \<Rightarrow> u64 \<Rightarrow> phys_state \<Rightarrow> bool" where
  "holds_page ext pa s \<longleftrightarrow> masked pa \<and> (phys_page_is_managed pa s \<longrightarrow> 0 < ext pa \<and> refs_at s pa < 2 ^ 32 - 2)"

definition vm_may :: "vm_op \<Rightarrow> (u64 \<Rightarrow> nat) \<Rightarrow> vm_state \<Rightarrow> bool" where
  "vm_may op ext st \<longleftrightarrow> vm_spaces st (vm_target op) \<noteq> None \<and>
     (case op of
        VMap a va pa fl ok \<Rightarrow> holds_page ext pa (vm_phys st)
      | VMapRange a va pa len fl oks \<Rightarrow> holds_pages ext pa len (vm_phys st)
      | VKMap va pa fl tr \<Rightarrow> holds_page ext pa (vm_phys st)
      | _ \<Rightarrow> True)"

fun vm_given :: "vm_op \<Rightarrow> int \<Rightarrow> vm_state \<Rightarrow> (u64 \<Rightarrow> nat) \<Rightarrow> u64 \<Rightarrow> nat" where
  "vm_given (VMap a va pa fl ok) r st ext = (if r = 0 then handed fl pa (vm_phys st) ext else ext)"
| "vm_given (VKMap va pa fl tr) r st ext =
     (if r = 0 then handed (fl OR (if tr then ADDRESS_SPACE_MAP_OWNED else 0)) pa (vm_phys st) ext else ext)"
| "vm_given _ r st ext = ext"

definition vm_do :: "vm_op \<Rightarrow> (u64 \<Rightarrow> nat) \<times> vm_state \<Rightarrow> ((u64 \<Rightarrow> nat) \<times> vm_state) option" where
  "vm_do op x = (case x of (ext, st) \<Rightarrow>
     if vm_may op ext st then map_option (\<lambda>(r, st'). (vm_given op r st ext, st')) (vm_call op st) else Some (ext, st))"

fun vm_run :: "vm_op list \<Rightarrow> (u64 \<Rightarrow> nat) \<times> vm_state \<Rightarrow> ((u64 \<Rightarrow> nat) \<times> vm_state) option" where
  "vm_run [] x = Some x"
| "vm_run (op # ops) x = vm_do op x \<bind> vm_run ops"

lemma map_outcomeD:
  assumes "map_outcome ext a va pa flags st r st'"
  shows "vm_inv (if r = 0 then handed flags pa (vm_phys st) ext else ext) st'" "same_objects st st'" "users_same {a} st st'"
  using assms users_same_outside [of a "{va}" st st'] users_same_all [of st st' "{a}"]
  unfolding map_outcome_def same_outside_one by auto

lemma vm_do_safe:
  assumes inv: "vm_inv ext st"
  shows "\<exists>ext' st'. vm_do op (ext, st) = Some (ext', st') \<and> vm_inv ext' st' \<and> same_objects st st' \<and> users_same {vm_target op} st st'"
proof (cases "vm_may op ext st")
  case False
  then show ?thesis using inv by (simp add: vm_do_def same_objects_def users_same_def)
next
  case True
  then obtain as where a: "vm_spaces st (vm_target op) = Some as" by (auto simp: vm_may_def)
  have goal: ?thesis if "vm_call op st = Some (r, st')" "vm_inv (vm_given op r st ext) st'" "same_objects st st'"
    "users_same {vm_target op} st st'" for r st'
    using that True by (simp add: vm_do_def)
  show ?thesis
  proof (cases op)
    case (VMap b va pa fl ok)
    with True a have p: "vm_spaces st b = Some as" "masked pa"
      "phys_page_is_managed pa (vm_phys st) \<Longrightarrow> 0 < ext pa \<and> refs_at (vm_phys st) pa < 2 ^ 32 - 2" by (auto simp: vm_may_def holds_page_def)
    obtain r st' where R: "map_page_internal (Some b) va pa fl False True ok st = Some (r, st')" "map_outcome ext b va pa fl st r st'"
      using map_page_internal_spec [OF inv p(1) disjI1 [OF TrueI] p(2,3)] by blast
    show ?thesis by (rule goal [of r st']) (use R(1) map_outcomeD [OF R(2)] VMap in \<open>simp_all add: address_space_map_page_def\<close>)
  next
    case (VKMap va pa fl tr)
    with True a have p: "vm_spaces st address_space_kernel = Some as" "masked pa"
      "phys_page_is_managed pa (vm_phys st) \<Longrightarrow> 0 < ext pa \<and> refs_at (vm_phys st) pa < 2 ^ 32 - 2" by (auto simp: vm_may_def holds_page_def)
    let ?fl = "fl OR (if tr then ADDRESS_SPACE_MAP_OWNED else 0)"
    obtain r st' where R: "map_page_internal (Some address_space_kernel) va pa ?fl True False True st = Some (r, st')"
      "map_outcome ext address_space_kernel va pa ?fl st r st'"
      using map_page_internal_spec [OF inv p(1) disjI2 [OF refl] p(2,3)] by blast
    show ?thesis by (rule goal [of r st']) (use R(1) map_outcomeD [OF R(2)] VKMap in \<open>simp_all add: kernel_map_page_def\<close>)
  next
    case (VUnmap b va)
    from unmap_page_internal_spec [OF inv a disjI1 [OF TrueI], of va False] VUnmap obtain r st' where
      R: "vm_call op st = Some (r, st')" "vm_inv ext st'" "same_objects st st'" "others_same b va st st' \<or> st' = st"
      using inv by (auto simp: address_space_unmap_page_def same_objects_def)
    show ?thesis by (rule goal [OF R(1)]) (use R VUnmap users_same_outside in \<open>auto simp: same_outside_one users_same_def\<close>)
  next
    case (VKUnmap va)
    from unmap_page_internal_spec [OF inv a, of False va True] VKUnmap obtain r st' where
      R: "vm_call op st = Some (r, st')" "vm_inv ext st'" "same_objects st st'" "others_same address_space_kernel va st st' \<or> st' = st"
      using inv by (auto simp: kernel_unmap_page_def same_objects_def)
    show ?thesis by (rule goal [OF R(1)]) (use R VKUnmap users_same_outside in \<open>auto simp: same_outside_one users_same_def\<close>)
  next
    case (VMapRange b va pa len fl oks)
    with True have "holds_pages ext pa len (vm_phys st)" by (simp add: vm_may_def)
    from map_range_outcome [OF inv a this, of va fl oks] VMapRange obtain r st' P where
      R: "vm_call op st = Some (r, st')" "vm_inv ext st'" "same_objects st st'" "same_outside b P st st'" by auto
    show ?thesis by (rule goal [OF R(1)]) (use R users_same_outside [OF R(4)] VMapRange in simp_all)
  next
    case (VUnmapRange b va len)
    from unmap_range_outcome [OF inv a, of va len] VUnmapRange obtain r st' P where
      R: "vm_call op st = Some (r, st')" "vm_inv ext st'" "same_objects st st'" "same_outside b P st st'"
      using same_outside_refl by auto
    show ?thesis by (rule goal [OF R(1)]) (use R users_same_outside [OF R(4)] VUnmapRange in simp_all)
  next
    case (VProtectRange b va len fl)
    from protect_range_outcome [OF inv a, of va len fl] VProtectRange obtain r st' where
      R: "vm_call op st = Some (r, st')" "vm_inv ext st'" "all_same st st'" "vm_spaces st' = vm_spaces st" by auto
    show ?thesis by (rule goal [OF R(1)]) (use R users_same_all [OF R(3)] VProtectRange in \<open>simp_all add: same_objects_def\<close>)
  qed
qed

lemma vm_run_safe:
  assumes "vm_inv ext st"
  shows "\<exists>ext' st'. vm_run ops (ext, st) = Some (ext', st') \<and> vm_inv ext' st' \<and> same_objects st st' \<and> users_same (vm_target ` set ops) st st'"
  using assms
proof (induction ops arbitrary: ext st)
  case Nil
  then show ?case by (simp add: same_objects_def users_same_def)
next
  case (Cons op ops)
  obtain ext1 st1 where 1: "vm_do op (ext, st) = Some (ext1, st1)" "vm_inv ext1 st1" "same_objects st st1" "users_same {vm_target op} st st1"
    using vm_do_safe [OF Cons.prems] by blast
  from Cons.IH [OF 1(2)] obtain ext2 st2 where
    2: "vm_run ops (ext1, st1) = Some (ext2, st2)" "vm_inv ext2 st2" "same_objects st1 st2" "users_same (vm_target ` set ops) st1 st2" by blast
  from users_same_trans [OF 1(4) 2(4)] same_objects_trans [OF 1(3) 2(3)] 1(1) 2(1,2) show ?case by simp
qed

section \<open>Properties\<close>

lemma frame_at_page:
  assumes "canonical v" "canonical va" "page_of va = va" "page_of v = va"
  shows "frame_at a v st = frame_at a va st"
proof -
  have "vpath v = vpath va" using vpath_inj [OF assms(1,2)] assms(3,4) by simp
  then show ?thesis by (simp only: frame_at_def)
qed

lemma one_page_translation:
  assumes inv: "vm_inv ext st" "vm_inv ext' st'" and obj: "same_objects st st'" and a: "vm_spaces st a = Some as"
    and va: "va < USER_CANONICAL_TOP" "canonical va" "page_of va = va" and same: "others_same a va st st'" and v: "canonical v"
  shows "address_space_translate (Some b) v st' =
    (if b = a \<and> page_of v = va
     then Some (case frame_at a va st' of None \<Rightarrow> UINT64_MAX | Some f \<Rightarrow> f OR (v AND (PAGE_SIZE - 1)))
     else address_space_translate (Some b) v st)"
proof (cases "b = a \<and> page_of v = va")
  case True
  then have "frame_at a v st' = frame_at a va st'" using frame_at_page [OF v va(2,3)] by simp
  with True a show ?thesis unfolding translate_frame [OF inv(2)] using same_objects_dom [OF obj, of a] by simp
next
  case False
  then have "frame_at b v st' = frame_at b v st" using same v va(1) unfolding others_same_def by blast
  then have "address_space_translate (Some b) v st' = address_space_translate (Some b) v st" by (rule translate_same [OF inv obj])
  then show ?thesis using False by (simp only: if_False)
qed

lemma map_page_translation:
  assumes inv: "vm_inv ext st" and a: "vm_spaces st a = Some as" and "holds_page ext pa (vm_phys st)"
  shows "\<exists>r st'. address_space_map_page (Some a) va pa flags ok st = Some (r, st') \<and> r \<in> {0, -1} \<and>
      (r = 0 \<longrightarrow> address_space_translate (Some a) va st = Some UINT64_MAX) \<and>
      (\<forall>b v. canonical v \<longrightarrow> address_space_translate (Some b) v st' =
        (if r = 0 \<and> b = a \<and> page_of v = va then Some (pa OR (v AND (PAGE_SIZE - 1))) else address_space_translate (Some b) v st))"
proof -
  have p: "masked pa" "phys_page_is_managed pa (vm_phys st) \<Longrightarrow> 0 < ext pa \<and> refs_at (vm_phys st) pa < 2 ^ 32 - 2"
    using assms(3) by (auto simp: holds_page_def)
  obtain r st' where R: "map_page_internal (Some a) va pa flags False True ok st = Some (r, st')"
    "r = 0 \<longrightarrow> mapping_allowed (Some a) va False" "map_outcome ext a va pa flags st r st'"
    using map_page_internal_spec [OF inv a disjI1 [OF TrueI] p] by blast
  note O = R(3) [unfolded map_outcome_def]
  have obj: "same_objects st st'" using O by blast
  show ?thesis
  proof (cases "r = 0")
    case True
    with R(2) have al: "mapping_allowed (Some a) va False" by simp
    note A = mapping_allowedD [OF al]
    have u: "va < USER_CANONICAL_TOP" using al by (simp add: mapping_allowed_def)
    from True O have T: "frame_at a va st = None" "frame_at a va st' = Some pa" "vm_inv (handed flags pa (vm_phys st) ext) st'"
      "others_same a va st st'" by simp_all
    have "address_space_translate (Some a) va st = Some UINT64_MAX" using T(1) a by (simp add: translate_frame [OF inv])
    moreover note one_page_translation [OF inv T(3) obj a u A(2,3) T(4), unfolded T(2) option.case]
    ultimately show ?thesis using R(1) True unfolding address_space_map_page_def by (intro exI [of _ r] exI [of _ st']) simp
  next
    case False
    with O have "r = -1" "vm_inv ext st'" "all_same st st'" by simp_all
    then show ?thesis using R(1) translate_same [OF inv _ obj] by (simp add: address_space_map_page_def all_same_def)
  qed
qed

lemma unmap_page_translation:
  assumes inv: "vm_inv ext st" and a: "vm_spaces st a = Some as"
  shows "\<exists>r st'. address_space_unmap_page (Some a) va st = Some (r, st') \<and> r \<in> {0, -1} \<and>
      (\<forall>b v. canonical v \<longrightarrow> address_space_translate (Some b) v st' =
        (if r = 0 \<and> b = a \<and> page_of v = va then Some UINT64_MAX else address_space_translate (Some b) v st))"
proof -
  obtain r st' where U: "unmap_page_internal (Some a) va False True st = Some (r, st')"
    "r = 0 \<and> mapping_allowed (Some a) va False \<and> frame_at a va st' = None \<and> vm_inv ext st' \<and> others_same a va st st' \<and> same_objects st st' \<or>
     r = -1 \<and> st' = st"
    using unmap_page_internal_spec [OF inv a disjI1 [OF TrueI]] by blast
  show ?thesis
  proof (cases "r = 0")
    case True
    with U(2) have T: "mapping_allowed (Some a) va False" "frame_at a va st' = None" "vm_inv ext st'" "others_same a va st st'" "same_objects st st'"
      by simp_all
    note A = mapping_allowedD [OF T(1)]
    have u: "va < USER_CANONICAL_TOP" using T(1) by (simp add: mapping_allowed_def)
    note one_page_translation [OF inv T(3,5) a u A(2,3) T(4), unfolded T(2) option.case]
    then show ?thesis using U(1) True unfolding address_space_unmap_page_def by (intro exI [of _ r] exI [of _ st']) simp
  next
    case False
    with U show ?thesis by (simp add: address_space_unmap_page_def)
  qed
qed

text \<open>
  Property C37.  Mapping a page changes the translation of that page of that space and of no other page and no other
  space: when address_space_map_page returns 0 the page was free and now translates to the frame, offset by offset, and when
  it returns -1 all translations are as before.  address_space_unmap_page makes exactly that page untranslated.
\<close>

theorem map_page_updates_translation:
  assumes "vm_inv ext st" and "vm_spaces st a = Some as" and "holds_page ext pa (vm_phys st)"
  shows "(\<exists>r st'. address_space_map_page (Some a) va pa flags ok st = Some (r, st') \<and> r \<in> {0, -1} \<and>
      (r = 0 \<longrightarrow> address_space_translate (Some a) va st = Some UINT64_MAX) \<and>
      (\<forall>b v. canonical v \<longrightarrow> address_space_translate (Some b) v st' =
        (if r = 0 \<and> b = a \<and> page_of v = va then Some (pa OR (v AND (PAGE_SIZE - 1))) else address_space_translate (Some b) v st))) \<and>
    (\<exists>r st'. address_space_unmap_page (Some a) va st = Some (r, st') \<and> r \<in> {0, -1} \<and>
      (\<forall>b v. canonical v \<longrightarrow> address_space_translate (Some b) v st' =
        (if r = 0 \<and> b = a \<and> page_of v = va then Some UINT64_MAX else address_space_translate (Some b) v st)))"
  using map_page_translation [OF assms] unmap_page_translation [OF assms(1,2)] by blast

lemma small_space_1: "vm_spaces small_vm 1 = Some (small_space 0x2000)"
  by (simp add: small_vm_def address_space_kernel_def)

lemma small_holds: "holds_page small_ext 0x8000 (vm_phys small_vm)"
proof -
  have "phys_to_page_index 0x8000 = 8" by code_simp
  then show ?thesis by (simp add: holds_page_def small_ext_def refs_at_def small_vm_def small_phys_def)
qed

theorem map_page_updates_translation_witness:
  "\<exists>st'. address_space_map_page (Some 1) 0x400000 0x8000 6 True small_vm = Some (0, st') \<and>
     address_space_translate (Some 1) 0x400123 st' = Some 0x8123 \<and>
     address_space_translate (Some 0) 0x400123 st' = Some UINT64_MAX"
proof -
  have z: "map_option fst (address_space_map_page (Some 1) 0x400000 0x8000 6 True small_vm) = Some 0" by code_simp
  from map_page_updates_translation [OF small_vm_inv small_space_1 small_holds, where va = "0x400000" and flags = 6 and ok = True] obtain r st' where
    R: "address_space_map_page (Some 1) 0x400000 0x8000 6 True small_vm = Some (r, st')"
      "\<And>b v. canonical v \<Longrightarrow> address_space_translate (Some b) v st' =
        (if r = 0 \<and> b = 1 \<and> page_of v = 0x400000 then Some (0x8000 OR (v AND (PAGE_SIZE - 1))) else address_space_translate (Some b) v small_vm)"
    by blast
  have "r = 0" using z R(1) by simp
  moreover have "canonical 0x400123" "page_of 0x400123 = 0x400000" by (simp_all add: canonical_def page_of_def)
  moreover have "address_space_translate (Some 0) 0x400123 small_vm = Some UINT64_MAX" by code_simp
  ultimately show ?thesis using R by simp
qed

text \<open>
  Property C38.  Mapping a range is all or nothing.  When address_space_map_range returns 0 every page of the rounded range
  translates to its frame and nothing else changed; when it returns -1, also after running out of memory in the middle, every
  translation of every space is what it was before, because the pages mapped so far are taken out again.
\<close>

theorem map_range_all_or_nothing:
  assumes "vm_inv ext st" and "vm_spaces st a = Some as" and "holds_pages ext pa len (vm_phys st)"
  shows "\<exists>r st'. address_space_map_range (Some a) va pa len flags oks st = Some (r, st') \<and> vm_inv ext st' \<and>
    (r = 0 \<and>
       (\<forall>off \<in> set (offsets (the (page_range_length len))). address_space_translate (Some a) (va + off) st = Some UINT64_MAX \<and>
          address_space_translate (Some a) (va + off) st' = Some ((pa + off) OR ((va + off) AND (PAGE_SIZE - 1)))) \<and>
       (\<forall>b v. canonical v \<longrightarrow> b \<noteq> a \<and> page_of v < USER_CANONICAL_TOP \<or> page_of v \<notin> range_pages va len \<longrightarrow>
          address_space_translate (Some b) v st' = address_space_translate (Some b) v st) \<or>
     r = -1 \<and> (\<forall>b v. canonical v \<longrightarrow> address_space_translate (Some b) v st' = address_space_translate (Some b) v st))"
proof -
  from map_range_outcome [OF assms, of va flags oks] obtain r st' where
    R: "address_space_map_range (Some a) va pa len flags oks st = Some (r, st')" "vm_inv ext st'" "same_objects st st'"
      "r = 0 \<and> same_outside a (range_pages va len) st st' \<and>
         (\<forall>off \<in> set (offsets (the (page_range_length len))). frame_at a (va + off) st = None \<and> frame_at a (va + off) st' = Some (pa + off)) \<or>
       r = -1 \<and> same_outside a {} st st'" by blast
  note T = translate_same [OF assms(1) R(2,3)]
  have out: "address_space_translate (Some b) v st' = address_space_translate (Some b) v st"
    if "same_outside a P st st'" "canonical v" "b \<noteq> a \<and> page_of v < USER_CANONICAL_TOP \<or> page_of v \<notin> P" for b v P
    by (rule T) (use that in \<open>unfold same_outside_def, blast\<close>)
  have sp: "vm_spaces st a \<noteq> None" "vm_spaces st' a \<noteq> None" using assms(2) same_objects_dom [OF R(3)] by simp_all
  show ?thesis
  proof (cases "r = 0")
    case True
    with R(4) have z: "same_outside a (range_pages va len) st st'"
      "\<forall>off \<in> set (offsets (the (page_range_length len))). frame_at a (va + off) st = None \<and> frame_at a (va + off) st' = Some (pa + off)" by simp_all
    then have "address_space_translate (Some a) (va + off) st = Some UINT64_MAX \<and>
        address_space_translate (Some a) (va + off) st' = Some ((pa + off) OR ((va + off) AND (PAGE_SIZE - 1)))"
      if "off \<in> set (offsets (the (page_range_length len)))" for off
      using that sp unfolding translate_frame [OF assms(1)] translate_frame [OF R(2)] by simp
    with True R(1,2) out [OF z(1)] show ?thesis by blast
  next
    case False
    with R(4) have "r = -1" "same_outside a {} st st'" by simp_all
    with R(1,2) out show ?thesis by blast
  qed
qed

theorem map_range_all_or_nothing_witness:
  "\<exists>r st'. address_space_map_range (Some 1) 0x400000 0x8000 100 6 [False] small_vm = Some (r, st') \<and> r = -1 \<and>
     address_space_translate (Some 1) 0x400000 st' = address_space_translate (Some 1) 0x400000 small_vm"
proof -
  have l: "page_range_length 100 = Some PAGE_SIZE" by code_simp
  have "offsets PAGE_SIZE = [0]" by code_simp
  with l have h: "holds_pages small_ext 0x8000 100 (vm_phys small_vm)"
    using small_holds by (simp add: holds_pages_def holds_page_def)
  have z: "map_option fst (address_space_map_range (Some 1) 0x400000 0x8000 100 6 [False] small_vm) = Some (-1)" by code_simp
  from map_range_all_or_nothing [OF small_vm_inv small_space_1 h, where va = "0x400000" and flags = 6 and oks = "[False]"] obtain r st' where
    R: "address_space_map_range (Some 1) 0x400000 0x8000 100 6 [False] small_vm = Some (r, st')"
      "r = 0 \<or> (\<forall>b v. canonical v \<longrightarrow> address_space_translate (Some b) v st' = address_space_translate (Some b) v small_vm)" by blast
  have "r = -1" using z R(1) by simp
  moreover have "canonical 0x400000" by (simp add: canonical_def)
  ultimately show ?thesis using R by simp
qed

text \<open>
  Property C36.  No history of map, unmap and protect operations on pages and ranges of the address spaces and of the
  kernel panics, when callers map pages they hold.  After it the page tables are well formed again: no table has two
  parents, the upper half of every space is the kernel's, the mapping records of a space are its mapped pages, and
  the reference count of every managed page is the number of page table entries that refer to it plus the references
  callers hold.  The user half of a space that no operation named translates as before.
\<close>

theorem vm_history_safe:
  assumes "vm_inv ext st"
  shows "\<exists>ext' st'. vm_run ops (ext, st) = Some (ext', st') \<and> vm_inv ext' st' \<and>
    (\<forall>b v. b \<notin> vm_target ` set ops \<longrightarrow> v < USER_CANONICAL_TOP \<longrightarrow>
       address_space_translate (Some b) v st' = address_space_translate (Some b) v st)"
proof -
  from vm_run_safe [OF assms, of ops] obtain ext' st' where
    R: "vm_run ops (ext, st) = Some (ext', st')" "vm_inv ext' st'" "same_objects st st'" "users_same (vm_target ` set ops) st st'" by blast
  have "address_space_translate (Some b) v st' = address_space_translate (Some b) v st"
    if "b \<notin> vm_target ` set ops" "v < USER_CANONICAL_TOP" for b v
    by (rule translate_same [OF assms R(2,3)]) (use R(4) that in \<open>simp add: users_same_def\<close>)
  with R(1,2) show ?thesis by blast
qed

theorem vm_history_safe_witness:
  "\<exists>ext' st'. vm_run [VMap 1 0x400000 0x8000 6 True, VUnmapRange 1 0x400000 1] (small_ext, small_vm) = Some (ext', st') \<and> vm_inv ext' st'"
  using vm_history_safe [OF small_vm_inv] by blast

end
