(* ===== verification/Vmo_Spaces.thy ===== *)
theory Vmo_Spaces
  imports Spaces_History Vhistory
begin

text \<open>
  Properties of virtual memory objects and address spaces: a mapping call maps exactly the pages of the object or nothing,
  unmapping undoes it, and no history of calls destroys a space in use.
\<close>

section \<open>A small machine with objects\<close>

text \<open>The small machine of Vranges, an empty VMO set per space, and a VMO for the page that a caller holds.\<close>

definition small_mm :: mm_state where
  "small_mm = \<lparr>mm_vm = small_vm,
     mm_pmem = \<lparr>recs = [0 \<mapsto> blank_record\<lparr>p_handle := 1, phys_base := 0x8000, p_length := 0x1000\<rparr>], global_pmem_table = [(1, 0)], next_pmem_handle = 2\<rparr>,
     mm_vmo = \<lparr>vmos = [(1, \<lparr>v_handle = 1, v_rights = 7, v_pmem = 1, owns_pmem = None\<rparr>)], vmosets = [(1, []), (2, [])],
       next_vmo_handle = 2, next_vmoset_handle = 3\<rparr>\<rparr>"

lemma small_spaces_cases:
  "vm_spaces small_vm a = Some as \<longleftrightarrow> a = address_space_kernel \<and> as = small_space 0x1000 \<or> a = 1 \<and> as = small_space 0x2000"
  by (auto simp: small_vm_def address_space_kernel_def)

lemma small_mm_inv: "mm_inv small_ext small_mm"
proof -
  have v: "vmoset_lookup_locked h (mm_vmo small_mm) = (if h = 1 \<or> h = 2 then Some [] else None)" for h
    by (simp add: vmoset_lookup_locked_def small_mm_def HASH_FIND_def)
  have w: "reg_wf (vmosets (mm_vmo small_mm)) (next_vmoset_handle (mm_vmo small_mm))" by (simp add: small_mm_def reg_wf_def)
  have vm: "mm_vm small_mm = small_vm" by (simp add: small_mm_def)
  have pg: "phys_page_is_managed 0x2000 small_phys" by code_simp
  have so: "set_ok a [] small_vm" for a by (simp add: set_ok_def)
  show ?thesis unfolding mm_inv_def vm small_spaces_cases v
    using small_vm_inv w so pg by (auto simp: small_space_def small_mm_def small_vm_def address_space_kernel_def split: if_splits)
qed

lemma small_backed: "backed small_ext 1 0 100 small_mm"
proof -
  have l: "page_range_length 100 = Some PAGE_SIZE" by code_simp
  have "offsets PAGE_SIZE = [0]" by code_simp
  with l have "holds_pages small_ext 0x8000 100 (vm_phys small_vm)" using small_holds by (simp add: holds_pages_def holds_page_def)
  then show ?thesis by (auto simp: backed_def kvmo_get_def kvmo_lookup_locked_def kpmem_get_def kpmem_find_locked_def small_mm_def HASH_FIND_def)
qed

section \<open>Mapping a VMO\<close>

abbreviation same_translations :: "vm_state \<Rightarrow> vm_state \<Rightarrow> bool" where
  "same_translations vm vm' \<equiv> \<forall>b v. canonical v \<longrightarrow> address_space_translate (Some b) v vm' = address_space_translate (Some b) v vm"

lemma same_outside_translations:
  assumes "vm_inv ext vm" "vm_inv ext' vm'" "same_objects vm vm'" "same_outside a {} vm vm'"
  shows "same_translations vm vm'"
proof (intro allI impI)
  fix b v assume "canonical v"
  then have "frame_at b v vm' = frame_at b v vm" using assms(4) by (simp add: same_outside_def)
  then show "address_space_translate (Some b) v vm' = address_space_translate (Some b) v vm" by (rule translate_same [OF assms(1-3)])
qed

lemma page_translates:
  assumes inv: "vm_inv ext vm" and a: "vm_spaces vm a \<noteq> None" and v: "page_of v = v" "frame_at a v vm = Some f"
  shows "address_space_translate (Some a) v vm = Some f"
proof -
  have "v AND (PAGE_SIZE - 1) = page_of v AND (PAGE_SIZE - 1)" by (simp only: v(1))
  also have "\<dots> = 0" by (simp add: page_of_def and.assoc)
  finally show ?thesis using a v(2) unfolding translate_frame [OF inv] by simp
qed

lemma map_unmap:
  assumes inv: "mm_inv ext st" "mm_inv ext st1" and a: "vm_spaces (mm_vm st) a = Some as" and same: "same_objects (mm_vm st) (mm_vm st1)"
    and out: "same_outside a (range_pages va len) (mm_vm st) (mm_vm st1)" and rng: "range_ok (Some a) va len \<noteq> None"
    and free: "\<forall>v \<in> range_pages va len. frame_at a v (mm_vm st) = None" and es: "vmoset_lookup_locked (vmoset as) (mm_vmo st) = Some es"
    and e: "e_va e = va" "e_length e = len" "e_vmo e = h" and v1: "mm_vmo st1 = set_update (vmoset as) (HASH_ADD va e) (mm_vmo st)"
  shows "\<exists>st2. kvmo_unmap h (Some a) va len st1 = Some (0, st2) \<and> mm_inv ext st2 \<and> same_objects (mm_vm st) (mm_vm st2) \<and>
    same_outside a {} (mm_vm st) (mm_vm st2) \<and> mm_vmo st2 = set_update (vmoset as) (HASH_DEL va \<circ> HASH_ADD va e) (mm_vmo st)"
proof -
  obtain as1 where a1: "vm_spaces (mm_vm st1) a = Some as1" using same_objects_space [OF same a] by blast
  obtain as0 where "vm_spaces (mm_vm st) a = Some as0" "vmoset as0 = vmoset as1" by (rule same_objects_vmoset [OF same a1])
  then have vs: "vmoset as1 = vmoset as" using a by simp
  have es1: "vmoset_lookup_locked (vmoset as1) (mm_vmo st1) = Some (HASH_ADD va e es)" using es by (simp add: vs v1 set_update_lookup)
  have in1: "(va, e) \<in> set (HASH_ADD va e es)" by simp
  obtain st2 where U: "kvmo_unmap h (Some a) va len st1 = Some (0, st2)" using unmap_recorded [OF inv(2) a1 es1 in1] unfolding e by iprover
  have f: "HASH_FIND va (HASH_ADD va e es) = Some e"
    using in1 by (simp only: HASH_FIND_iff_in [OF set_okD(1) [OF mm_invD(3) [OF inv(2) a1 es1]]])
  have X: "kvmo_unmap_exact h (Some a) va len True st1 = Some (0, st2)" using U by (simp add: kvmo_unmap_def)
  from unmap_exact_outcome [OF inv(2) a1, of h va len True] obtain r' st' where
    Y: "kvmo_unmap_exact h (Some a) va len True st1 = Some (r', st')" "mm_inv ext st'" "same_objects (mm_vm st1) (mm_vm st')"
      "r' = -1 \<and> st' = st1 \<or> r' = 0 \<and> (\<exists>es e. vmoset_lookup_locked (vmoset as1) (mm_vmo st1) = Some es \<and> HASH_FIND va es = Some e \<and>
       mm_vmo st' = set_update (vmoset as1) (HASH_DEL va) (mm_vmo st1) \<and>
       same_outside a (range_pages va (e_length e)) (mm_vm st1) (mm_vm st') \<and>
       (\<forall>v \<in> range_pages va (e_length e). frame_at a v (mm_vm st') = None))" by iprover
  have eq: "r' = 0" "st' = st2" using X Y(1) by simp_all
  obtain es' e' where O: "mm_inv ext st2" "same_objects (mm_vm st1) (mm_vm st2)" "vmoset_lookup_locked (vmoset as1) (mm_vmo st1) = Some es'" "HASH_FIND va es' = Some e'"
      "mm_vmo st2 = set_update (vmoset as1) (HASH_DEL va) (mm_vmo st1)"
      "same_outside a (range_pages va (e_length e')) (mm_vm st1) (mm_vm st2)" "\<forall>v \<in> range_pages va (e_length e'). frame_at a v (mm_vm st2) = None"
    using Y(2-4) unfolding eq by auto
  have "e' = e" using O(3,4) es1 f by simp
  note O = O(1,2) O(5) [unfolded vs] O(6,7) [unfolded this e(2)]
  have o2: "same_outside a (range_pages va len) (mm_vm st) (mm_vm st2)" using same_outside_trans [OF out O(4)] by simp
  have "same_outside a {} (mm_vm st) (mm_vm st2)"
    by (rule same_outside_restored [OF mm_invD(1) [OF inv(1)] mm_invD(1) [OF O(1)] o2]) (use range_page [OF rng] free O(5) in \<open>auto split: if_splits\<close>)
  moreover have "mm_vmo st2 = set_update (vmoset as) (HASH_DEL va \<circ> HASH_ADD va e) (mm_vmo st)"
    unfolding O(3) v1 by (simp add: set_update_def HASH_UPD_def case_prod_beta comp_def)
  ultimately show ?thesis using U O(1) same_objects_trans [OF same O(2)] by iprover
qed

lemma DEL_ADD: "k \<notin> set (keys t) \<Longrightarrow> HASH_DEL k (HASH_ADD k x t) = t"
  by (auto simp: HASH_DEL_def HASH_ADD_def filter_id_conv)

lemma sets_restored:
  assumes es: "vmoset_lookup_locked s v = Some es" and k: "k \<notin> set (keys es)"
  shows "vmoset_lookup_locked h (set_update s (HASH_DEL k \<circ> HASH_ADD k x) v) = vmoset_lookup_locked h v"
  using es k by (simp add: set_update_lookup DEL_ADD)



section \<open>Histories of address spaces\<close>

text \<open>A queue in the shape of libfifo: a capacity and the queued elements.\<close>

definition list_fifo :: "(nat \<times> addr list) fifo_ops" where
  "list_fifo = \<lparr>fifo_push = (\<lambda>(c, xs) x. if c \<le> length xs then None else Some (c, xs @ [x])),
     fifo_pop = (\<lambda>(c, xs). case xs of [] \<Rightarrow> None | x # ys \<Rightarrow> Some (x, c, ys)),
     fifo_full = (\<lambda>(c, xs). c \<le> length xs), fifo_capacity = fst,
     fifo_resize = (\<lambda>(c, xs) n. if length xs \<le> n then Some (n, xs) else None)\<rparr>"

lemma list_fifo_laws: "fifo_laws list_fifo snd"
  by (auto simp: fifo_laws_def list_fifo_def split: list.split)

definition small_spaces :: "(nat \<times> addr list) space_state" where
  "small_spaces = \<lparr>sp_mm = small_mm,
     sp_caps = \<lparr>global_caps_table = [], global_cap_names_table = [], global_capsets_table = [], next_cap_handle = 1, next_capset_handle = 1\<rparr>,
     address_spaces = [], next_as_handle = 1, reaper_queue = (64, [])\<rparr>"

lemma small_spaces_safe: "space_safe list_fifo snd small_ext (\<lambda>a. of_bool (a = 1), small_spaces)"
proof (rule space_safeI [where ext = small_ext])
  have vm: "sp_vm small_spaces = small_vm" "sp_mm small_spaces = small_mm" by (simp_all add: small_spaces_def sp_vm_def small_mm_def)
  have v: "vmoset_lookup_locked 2 (mm_vmo small_mm) = Some []" by (simp add: vmoset_lookup_locked_def small_mm_def HASH_FIND_def)
  have dead: "vm_spaces small_vm a = None \<longleftrightarrow> a \<noteq> address_space_kernel \<and> a \<noteq> 1" for a by (simp add: small_vm_def)
  show "space_ok small_ext (\<lambda>a. of_bool (a = 1)) (snd (reaper_queue small_spaces)) small_spaces"
    unfolding space_ok_def vm small_spaces_cases dead
    using small_mm_inv v by (auto simp: small_space_def space_refs_def small_spaces_def address_space_kernel_def)
qed (simp_all add: small_spaces_def list_fifo_def)

lemma space_run_safe:
  assumes F: "fifo_laws F items" and safe: "space_safe F items held x"
  shows "\<exists>x'. space_run F held ops x = Some x' \<and> space_safe F items held x' \<and> keeps_others (\<Union> (space_targets ` set ops)) (snd x) (snd x')"
  using safe
proof (induction ops arbitrary: x)
  case Nil
  then show ?case by (simp add: keeps_others_def)
next
  case (Cons op ops)
  obtain holders st where x: "x = (holders, st)" by force
  let ?step = "if space_may F held op holders st then space_call F op holders st else Some (holders, st)"
  obtain y where y: "?step = Some y" "space_safe F items held y" "keeps_others (space_targets op) st (snd y)"
  proof (cases "space_may F held op holders st")
    case True
    with space_call_safe [OF F Cons.prems [unfolded x] True] that show ?thesis by auto
  next
    case False
    with Cons.prems x that show ?thesis by (simp add: keeps_others_def)
  qed
  from Cons.IH [OF y(2)] obtain z where z: "space_run F held ops y = Some z" "space_safe F items held z"
    "keeps_others (\<Union> (space_targets ` set ops)) (snd y) (snd z)" by blast
  have "space_run F held (op # ops) x = Some z" using y(1) z(1) by (simp add: x)
  then show ?case using z(2) keeps_others_trans [OF y(3) z(3)] by (simp add: x)
qed



end
