(* ===== verification/Spec2Isabelle.thy ===== *)
theory Spec2Isabelle
  imports Kernel Vmo_Spaces
begin

text \<open>
  Verification of the Sharkix microkernel (C, x86-64).

  \<^bold>\<open>The program.\<close>  User programs reach the kernel through system calls (src/kernel/core/syscall.c).  A call
  names objects by capability handles; the capability subsystem (src/kernel/subsystems/kcaps.c) resolves a
  handle in the capability set of the caller's address space to an object handle, if type and rights fit.
  The objects belong to subsystems with a table each: IPC endpoints (kipc.c), notifications (knotify.c),
  interrupts (kirq.c), I/O port ranges (kportio.c), physical memory objects (kpmem.c), virtual memory objects,
  address spaces and threads.  Endpoints and interrupts hold reference-counted bindings to
  notifications.  Below them are the physical page allocator and the boot code of the memory manager
  (src/kernel/core/memory.c) and the allocator of kernel virtual ranges (kvalloc.c).

  \<^bold>\<open>Theories.\<close>
  \<^item> \<open>Prelude\<close>: types, the hash tables of uthash.h as association lists (HASH_ADD, HASH_FIND, HASH_DEL), words, rights masks,
    page arithmetic.
  \<^item> \<open>Objects\<close>: the locale of handle registries and the invariant of reference-counted objects in a store.
  \<^item> \<open>Kcaps\<close>: kcaps.c.  Reachable states are well formed, authority is not amplified, destroyed
    handles stay dead, and the behaviour of merge, move, delete and names.
  \<^item> \<open>Knotify\<close>: knotify.c.  Exact reference counts, functional behaviour, wake-up of a single waiter, and the
    lost wake-up with two waiters.  The locale \<open>refcounted\<close> is the contract that Kipc and Kirq use.
  \<^item> \<open>Kipc\<close>, \<open>Kipc_Protocol\<close>: kipc.c.  The ring buffer refines a bounded queue; blocking
    send, publish, receive and destroy as threads that interleave between critical sections; no lost
    wake-ups, no use after free.
  \<^item> \<open>Kportio\<close>, \<open>Kirq\<close>: kportio.c, kirq.c.  Port accesses stay in range; interrupts are delivered to their object
    and its notifications; acknowledgement writes the PIC commands.
  \<^item> \<open>Kpmem\<close>: kpmem.c.  The graph of derived and merged records; pages are freed once and only when nothing
    describes them.
  \<^item> \<open>Kvalloc\<close>: kvalloc.c.  \<open>Physmem\<close>, \<open>Physboot\<close>: memory.c from memory_init to the page allocator; exactly the
    usable, unreserved pages are managed, and histories of page operations never panic.
  \<^item> \<open>Syscall\<close>, \<open>Kernel\<close>: syscall.c over the joint state.  A call without the authority it needs changes nothing; new
    authority is over new objects only; the invariants of all subsystems hold together in every interleaving.

  \<^bold>\<open>Conventions.\<close>  An object that the code reaches through pointers lives in a store from addresses (\<open>addr\<close>) to
  records, so that a freed object is a missing entry and its use the value \<open>None\<close> (or a fault).  The
  outcomes of kmalloc are arguments: no memory, or an address that the store does not use.  Handles
  and registers are 64-bit words; counters that only the kernel advances are 64-bit words where the code
  compares them with the invalid handle, and natural numbers where wrap-around would need 2^64
  steps (reference counts, semaphores).  A section of code under one lock is one step.

  \<^bold>\<open>Bounds.\<close>  Loops over tables and lists are structural.  The drain of kpmem_destroy runs on fuel, the
  number of live records, which the proofs show to be enough.  The handle counters kipc.c and kcaps.c
  advance without a check; theorems about them assume the counter has not reached its last value.

  \<^bold>\<open>Not modelled.\<close>  Page tables and address spaces, the kernel heap and kernel stacks in memory.c; kvmo.c, kas.c,
  kthread.c, thread.c, scheduler.c and sync.c (the semaphores appear as counters of their objects);
  the system calls on those objects; the IPC name registry; program loading; console output; the
  profiles and drivers, which are start-up and test programs; assembly and boot stubs.

  \<^bold>\<open>Plan.\<close>  Page tables with map, unmap and translate and the isolation of address spaces; VMOs and
  address space objects over them; threads and the scheduler; the remaining system calls.
\<close>

end
